(* ===== verification/Lite_Prelude.thy ===== *)
theory Lite_Prelude
  imports Complex_Main "HOL-Library.Word"
begin

text \<open>
  Shared vocabulary of the development: the machine types of the C++ code, the
  conversions between its integer types, and the generic list lemmas that the
  component theories use.

  \<^item> A \<open>uint8_t\<close> is an \<open>8 word\<close> and a byte buffer (\<open>std::vector<uint8_t>\<close>)
    is a list of them. A \<open>uint64_t\<close> on which the code computes with wrap-around or bit
    masks is a \<open>64 word\<close>.
  \<^item> An \<open>int32_t\<close>, \<open>int64_t\<close> or \<open>size_t\<close> that is only stored, compared or
    converted is an \<open>int\<close> or a \<open>nat\<close>, and every conversion of the source that can
    change its value is written out with one of the conversions below.
\<close>

unbundle bit_operations_syntax

named_theorems slices \<open>facts on consecutive slices of a buffer\<close>

type_synonym u8 = "8 word"
type_synonym u64 = "64 word"
type_synonym bytes = "u8 list"

subsection \<open>Conversions between integer types\<close>

text \<open>
  C++20 converts modulo \<open>2 ^ w\<close>: to a signed type the result is read back in two's
  complement.
\<close>

definition to_int32 :: "int \<Rightarrow> int" where
  "to_int32 x = signed_take_bit 31 x"

definition to_int64 :: "int \<Rightarrow> int" where
  "to_int64 x = signed_take_bit 63 x"

definition to_size_t :: "int \<Rightarrow> nat" where
  "to_size_t x = nat (x mod 2 ^ 64)"

lemma to_int32_id: "- (2 ^ 31) \<le> x \<Longrightarrow> x < 2 ^ 31 \<Longrightarrow> to_int32 x = x"
  by (simp add: to_int32_def signed_take_bit_int_eq_self)

lemma to_int32_range: "- (2 ^ 31) \<le> to_int32 x \<and> to_int32 x < 2 ^ 31"
  unfolding to_int32_def
  using signed_take_bit_int_greater_eq_minus_exp [of 31 x] signed_take_bit_int_less_exp [of 31 x]
  by simp

lemma to_int64_id: "- (2 ^ 63) \<le> x \<Longrightarrow> x < 2 ^ 63 \<Longrightarrow> to_int64 x = x"
  by (simp add: to_int64_def signed_take_bit_int_eq_self)

lemma to_int64_range: "- (2 ^ 63) \<le> to_int64 x \<and> to_int64 x < 2 ^ 63"
  unfolding to_int64_def
  using signed_take_bit_int_greater_eq_minus_exp [of 63 x] signed_take_bit_int_less_exp [of 63 x]
  by simp

lemma to_int64_add: "to_int64 (to_int64 x + y) = to_int64 (x + y)"
  unfolding to_int64_def
  using signed_take_bit_add [of 63 "signed_take_bit 63 x" y] signed_take_bit_add [of 63 x y]
  by simp

lemma to_size_t_nat: "n < 2 ^ 64 \<Longrightarrow> to_size_t (int n) = n"
  by (simp add: to_size_t_def)

lemma to_size_t_nonneg: "0 \<le> x \<Longrightarrow> x < 2 ^ 64 \<Longrightarrow> to_size_t x = nat x"
  by (simp add: to_size_t_def)

lemma u64_of_nat: "unat (x :: u64) = n \<Longrightarrow> x = of_nat n"
  by auto

subsection \<open>Slices of a buffer\<close>

text \<open>The range \<open>[begin + lo, begin + hi)\<close> of a buffer, as the iterator constructor of a vector copies it.\<close>

definition slice :: "nat \<Rightarrow> nat \<Rightarrow> 'a list \<Rightarrow> 'a list" where
  "slice lo hi xs = take (hi - lo) (drop lo xs)"

lemma slice_empty [simp, slices]: "slice i i xs = []"
  by (simp add: slice_def)

lemma slice_Suc [slices]:
  assumes "lo \<le> i" and "i < length xs"
  shows "slice lo (Suc i) xs = slice lo i xs @ [xs ! i]"
proof -
  have "Suc i - lo = Suc (i - lo)" using assms(1) by simp
  moreover have "i - lo < length (drop lo xs)" using assms by simp
  moreover have "drop lo xs ! (i - lo) = xs ! i" using assms by simp
  ultimately show ?thesis by (simp add: slice_def take_Suc_conv_app_nth)
qed

lemma length_slice [slices]: "hi \<le> length xs \<Longrightarrow> length (slice lo hi xs) = hi - lo"
  by (auto simp: slice_def)

lemma slice_all [simp]: "slice 0 (length xs) xs = xs"
  by (simp add: slice_def)

subsection \<open>Blocks of a stream\<close>

text \<open>What successive reads of at most \<open>n\<close> bytes deliver until one delivers none.\<close>

function blocks :: "nat \<Rightarrow> 'a list \<Rightarrow> 'a list list" where
  "blocks n xs = (if xs = [] \<or> n = 0 then [] else take n xs # blocks n (drop n xs))"
  by pat_completeness auto
termination
  by (relation "measure (\<lambda>(n, xs). length xs)") auto

declare blocks.simps [simp del]

lemma blocks_Nil [simp]: "blocks n [] = []"
  by (simp add: blocks.simps)

lemma concat_blocks: "0 < n \<Longrightarrow> concat (blocks n xs) = xs"
proof (induction n xs rule: blocks.induct)
  case (1 n xs)
  then show ?case
    by (cases "xs = []") (simp_all add: blocks.simps [of n xs])
qed

lemma blocks_bound: "b \<in> set (blocks n xs) \<Longrightarrow> b \<noteq> [] \<and> length b \<le> n"
proof (induction n xs rule: blocks.induct)
  case (1 n xs)
  from this(2) have ne: "xs \<noteq> [] \<and> n \<noteq> 0"
    by (auto simp: blocks.simps [of n xs] split: if_splits)
  with 1 show ?case
    by (auto simp: blocks.simps [of n xs])
qed

subsection \<open>Sums over lists\<close>

lemma sum_list_partition:
  "sum_list (map f (filter p xs)) + sum_list (map f (filter (\<lambda>x. \<not> p x) xs))
     = sum_list (map (f :: 'a \<Rightarrow> nat) xs)"
  by (induction xs) auto


subsection \<open>Looking for a separator from the end\<close>

lemma until_separator:
  assumes "c \<notin> set w"
  shows "takeWhile (\<lambda>x. x \<noteq> c) (rev w @ c # t) = rev w" "dropWhile (\<lambda>x. x \<noteq> c) (rev w @ c # t) = c # t"
    "takeWhile (\<lambda>x. x \<noteq> c) (rev w) = rev w" "dropWhile (\<lambda>x. x \<noteq> c) (rev w) = []"
proof -
  have all: "\<forall>x \<in> set (rev w). x \<noteq> c" using assms by auto
  show "takeWhile (\<lambda>x. x \<noteq> c) (rev w @ c # t) = rev w" "dropWhile (\<lambda>x. x \<noteq> c) (rev w @ c # t) = c # t"
    using all by (subst takeWhile_append2 dropWhile_append2; simp)+
  show "takeWhile (\<lambda>x. x \<noteq> c) (rev w) = rev w" "dropWhile (\<lambda>x. x \<noteq> c) (rev w) = []"
    using all by (simp_all only: takeWhile_eq_all_conv dropWhile_eq_Nil_conv)
qed

subsection \<open>Doubles\<close>

text \<open>
  A \<open>double\<close> is a real number, and every operation on doubles goes through a rounding function that
  is a parameter. This is what IEEE arithmetic guarantees of it; \<open>exact\<close> does not round.
\<close>

definition rounding :: "(real \<Rightarrow> real) \<Rightarrow> bool" where
  "rounding fl \<longleftrightarrow> mono fl \<and> fl 0 = 0 \<and> (\<forall>x. fl (fl x) = fl x)"

definition exact :: "real \<Rightarrow> real" where
  "exact x = x"

subsection \<open>Decimal numbers in an output stream\<close>

definition decimal_digit :: "nat \<Rightarrow> char" where
  "decimal_digit n = ''0123456789'' ! n"

fun decimal :: "nat \<Rightarrow> string" where
  "decimal n = (if n < 10 then [decimal_digit n] else decimal (n div 10) @ [decimal_digit (n mod 10)])"

declare decimal.simps [simp del]

definition decimal_int :: "int \<Rightarrow> string" where
  "decimal_int x = (if x < 0 then CHR ''-'' # decimal (nat (- x)) else decimal (nat x))"

text \<open>\<open>setfill('0') << setw(w)\<close> and the fields of \<open>put_time\<close>.\<close>

definition zero_padded :: "nat \<Rightarrow> nat \<Rightarrow> string" where
  "zero_padded w n = replicate (w - length (decimal n)) (CHR ''0'') @ decimal n"

text \<open>A double with two decimals, rounded to the nearest, to even where two are as near.\<close>

definition round_half_even :: "real \<Rightarrow> int" where
  "round_half_even x =
     (let f = \<lfloor>x\<rfloor>; d = x - of_int f
      in if d < 1 / 2 then f else if 1 / 2 < d then f + 1 else if even f then f else f + 1)"

definition fixed2 :: "real \<Rightarrow> string" where
  "fixed2 x =
     (let n = nat (round_half_even (\<bar>x\<bar> * 100))
      in (if x < 0 then ''-'' else []) @ decimal (n div 100) @ ''.'' @ zero_padded 2 (n mod 100))"

text \<open>Reading the digits back.\<close>

definition undecimal :: "string \<Rightarrow> nat" where
  "undecimal = foldl (\<lambda>n c. 10 * n + (of_char c - 48)) 0"

lemma digit_code: "n < 10 \<Longrightarrow> of_char (decimal_digit n) = (48 + n :: nat)"
proof -
  assume "n < 10"
  then have "n \<in> set [0 ..< 10]" by simp
  moreover have "\<forall>k \<in> set [0 ..< 10]. of_char (decimal_digit k) = (48 + k :: nat)"
    by (simp add: decimal_digit_def upt_rec)
  ultimately show ?thesis by blast
qed

lemma undecimal_decimal: "undecimal (decimal n) = n"
proof (induction n rule: decimal.induct)
  case (1 n)
  show ?case
  proof (cases "n < 10")
    case True
    then show ?thesis by (simp add: decimal.simps [of n] undecimal_def digit_code)
  next
    case False
    with 1 have IH: "undecimal (decimal (n div 10)) = n div 10" by simp
    show ?thesis using False IH by (simp add: decimal.simps [of n] undecimal_def digit_code)
  qed
qed

lemma undecimal_padded: "undecimal (zero_padded w n) = n"
proof -
  have "foldl (\<lambda>n c. 10 * n + (of_char c - 48)) (0 :: nat) (replicate k (CHR ''0'')) = 0" for k
    by (induction k) simp_all
  then show ?thesis using undecimal_decimal [of n] by (simp add: zero_padded_def undecimal_def)
qed

lemma length_decimal: "0 < w \<Longrightarrow> n < 10 ^ w \<Longrightarrow> length (decimal n) \<le> w"
proof (induction n arbitrary: w rule: decimal.induct)
  case (1 n)
  show ?case
  proof (cases "n < 10")
    case True
    then show ?thesis using 1 by (simp add: decimal.simps [of n])
  next
    case False
    with 1(3) obtain v where v: "w = Suc v" "0 < v" by (cases w; cases "w = 1") (auto simp: gr0_conv_Suc)
    then have "n div 10 < 10 ^ v" using 1(3) by (simp add: less_mult_imp_div_less mult.commute)
    then have "length (decimal (n div 10)) \<le> v" using 1(1) False v(2) by simp
    then show ?thesis using False v by (simp add: decimal.simps [of n])
  qed
qed

lemma length_padded: "0 < w \<Longrightarrow> n < 10 ^ w \<Longrightarrow> length (zero_padded w n) = w"
  using length_decimal [of w n] by (simp add: zero_padded_def)

lemma zero_padded_inj: "zero_padded w m = zero_padded w n \<Longrightarrow> m = n"
  using undecimal_padded by metis

end
