(* ===== verification/Host_Files.thy ===== *)
theory Host_Files
  imports Lite_Prelude
begin

text \<open>
  The part of \<open>std::filesystem\<close> and of the file streams that the code uses, as functions
  on an explicit file store. A path string is resolved lexically: it is cut at slashes, empty
  components and \<open>.\<close> are dropped, \<open>..\<close> goes to the parent, and a relative path
  starts at the working directory. Symbolic links are not modelled.

  What the operating system decides and the code cannot see is the record \<open>host\<close>: which
  files may be opened, which directories may be created, how many of the written bytes reach
  the file (the code never checks the state of a stream after a write), and whether an SQLite
  file can be opened.
\<close>

subsection \<open>Paths\<close>

type_synonym path = "string list"

fun components :: "string \<Rightarrow> string list" where
  "components [] = [[]]"
| "components (c # cs) =
     (if c = CHR ''/'' then [] # components cs
      else (case components cs of [] \<Rightarrow> [[c]] | w # ws \<Rightarrow> (c # w) # ws))"

text \<open>The walk keeps the components read so far in reverse.\<close>

fun walk :: "string list \<Rightarrow> string list \<Rightarrow> string list" where
  "walk acc [] = acc"
| "walk acc (w # ws) =
     (if w = [] \<or> w = ''.'' then walk acc ws
      else if w = ''..'' then walk (tl acc) ws
      else walk (w # acc) ws)"

definition resolve :: "path \<Rightarrow> string \<Rightarrow> path" where
  "resolve cwd s =
     rev (walk (if s \<noteq> [] \<and> hd s = CHR ''/'' then [] else rev cwd) (components s))"

lemma components_nonempty [simp]: "components s \<noteq> []"
  by (cases s) (auto split: list.splits)

lemma components_append_slash:
  "components (s @ CHR ''/'' # t) = components s @ components t"
proof (induction s)
  case Nil
  then show ?case by simp
next
  case (Cons c s)
  then show ?case by (auto split: list.splits)
qed

lemma components_plain: "CHR ''/'' \<notin> set s \<Longrightarrow> components s = [s]"
  by (induction s) auto

lemma walk_append: "walk acc (xs @ ys) = walk (walk acc xs) ys"
  by (induction acc xs rule: walk.induct) auto

text \<open>A component that names an entry of its directory: not empty, no slash, neither \<open>.\<close> nor \<open>..\<close>.\<close>

definition plain_name :: "string \<Rightarrow> bool" where
  "plain_name w \<longleftrightarrow> w \<noteq> [] \<and> w \<noteq> ''.'' \<and> w \<noteq> ''..'' \<and> CHR ''/'' \<notin> set w"

lemma walk_plain: "plain_name w \<Longrightarrow> walk acc [w] = w # acc"
  by (simp add: plain_name_def)

lemma resolve_append_slash:
  assumes "s \<noteq> []"
  shows "resolve cwd (s @ CHR ''/'' # t) = rev (walk (rev (resolve cwd s)) (components t))"
  using assms by (simp add: resolve_def components_append_slash walk_append)

lemma resolve_child:
  assumes "s \<noteq> []" and "plain_name w"
  shows "resolve cwd (s @ CHR ''/'' # w) = resolve cwd s @ [w]"
  using assms
  by (simp add: resolve_append_slash components_plain walk_plain plain_name_def)

subsection \<open>The file store\<close>

datatype node = Directory | Regular bytes

type_synonym store = "path \<Rightarrow> node option"


text \<open>\<open>entries_below fs p\<close> is what a recursive directory iterator started at \<open>p\<close> visits.\<close>

record host =
  cwd :: path
  entries_below :: "store \<Rightarrow> path \<Rightarrow> path list"
  may_read :: "path \<Rightarrow> bool"
  may_write :: "path \<Rightarrow> bool"
  may_mkdir :: "path \<Rightarrow> bool"
  persisted :: "path \<Rightarrow> bytes \<Rightarrow> bytes"

text \<open>A host on which nothing fails and every written byte reaches its file.\<close>

definition healthy :: "host \<Rightarrow> bool" where
  "healthy h \<longleftrightarrow> (\<forall>p. may_read h p) \<and> (\<forall>p. may_write h p) \<and> (\<forall>p. may_mkdir h p) \<and>
     (\<forall>p bs. persisted h p bs = bs)"

text \<open>An iterator visits every entry below its directory exactly once.\<close>

definition iterator_documented :: "host \<Rightarrow> bool" where
  "iterator_documented h \<longleftrightarrow> (\<forall>fs p. finite {q. fs q \<noteq> None} \<longrightarrow>
     distinct (entries_below h fs p) \<and>
     set (entries_below h fs p) = {q. fs q \<noteq> None \<and> (\<exists>ws. ws \<noteq> [] \<and> q = p @ ws)})"

text \<open>The host of the witnesses.\<close>

definition plain_host :: host where
  "plain_host = \<lparr>cwd = [], entries_below = (\<lambda>_ _. []), may_read = (\<lambda>_. True),
     may_write = (\<lambda>_. True), may_mkdir = (\<lambda>_. True), persisted = (\<lambda>_ bs. bs)\<rparr>"

lemma plain_host_healthy: "healthy plain_host"
  by (simp add: healthy_def plain_host_def)

lemma plain_host_simps [simp]:
  "cwd plain_host = []" "may_read plain_host p" "may_write plain_host p" "may_mkdir plain_host p"
  "persisted plain_host p bs = bs"
  by (simp_all add: plain_host_def)

definition is_dir :: "store \<Rightarrow> path \<Rightarrow> bool" where
  "is_dir fs p \<longleftrightarrow> p = [] \<or> fs p = Some Directory"

definition path_exists :: "host \<Rightarrow> store \<Rightarrow> string \<Rightarrow> bool" where
  "path_exists h fs s \<longleftrightarrow> (let p = resolve (cwd h) s in p = [] \<or> fs p \<noteq> None)"

text \<open>
  \<open>std::filesystem::create_directories\<close>: every missing prefix of the path becomes a
  directory; a prefix that is a regular file, or that may not be created, makes the call throw
  a \<open>filesystem_error\<close> (\<open>None\<close>).
\<close>

fun mkdirs :: "host \<Rightarrow> store \<Rightarrow> path \<Rightarrow> string list \<Rightarrow> store option" where
  "mkdirs h fs p [] = Some fs"
| "mkdirs h fs p (w # ws) =
     (let q = p @ [w] in
      case fs q of
        Some Directory \<Rightarrow> mkdirs h fs q ws
      | Some (Regular _) \<Rightarrow> None
      | None \<Rightarrow> (if may_mkdir h q then mkdirs h (fs(q \<mapsto> Directory)) q ws else None))"

definition create_directories :: "host \<Rightarrow> store \<Rightarrow> string \<Rightarrow> store option" where
  "create_directories h fs s = mkdirs h fs [] (resolve (cwd h) s)"

text \<open>
  \<open>std::ofstream\<close> without \<open>app\<close>: the file is created or truncated when it is opened.
  \<open>None\<close> is a stream that failed to open.
\<close>

definition open_out :: "host \<Rightarrow> store \<Rightarrow> string \<Rightarrow> store option" where
  "open_out h fs s =
     (let p = resolve (cwd h) s in
      if p \<noteq> [] \<and> is_dir fs (butlast p) \<and> fs p \<noteq> Some Directory \<and> may_write h p
      then Some (fs(p \<mapsto> Regular [])) else None)"

text \<open>With \<open>app\<close> an existing file keeps its contents.\<close>

definition open_append :: "host \<Rightarrow> store \<Rightarrow> string \<Rightarrow> store option" where
  "open_append h fs s =
     (let p = resolve (cwd h) s in
      if p \<noteq> [] \<and> is_dir fs (butlast p) \<and> fs p \<noteq> Some Directory \<and> may_write h p
      then Some (if fs p = None then fs(p \<mapsto> Regular []) else fs) else None)"

text \<open>Writing to an open output stream appends what the host persists to the file's contents.\<close>

definition stream_write :: "host \<Rightarrow> store \<Rightarrow> string \<Rightarrow> bytes \<Rightarrow> store" where
  "stream_write h fs s bs =
     (let p = resolve (cwd h) s in
      case fs p of
        Some (Regular old) \<Rightarrow> fs(p \<mapsto> Regular (old @ persisted h p bs))
      | _ \<Rightarrow> fs)"

text \<open>
  The same write when others may have changed the file since the stream was opened: a stream writes at its own position, and a
  gap before it is filled with zeros.
\<close>

definition overwrite :: "nat \<Rightarrow> bytes \<Rightarrow> bytes \<Rightarrow> bytes" where
  "overwrite off new old = take off (old @ replicate (off - length old) 0) @ new @ drop (off + length new) old"

definition write_at :: "host \<Rightarrow> store \<Rightarrow> string \<Rightarrow> nat \<Rightarrow> bytes \<Rightarrow> store" where
  "write_at h fs s off bs =
     (let p = resolve (cwd h) s in
      case fs p of
        Some (Regular old) \<Rightarrow> fs(p \<mapsto> Regular (overwrite off (persisted h p bs) old))
      | _ \<Rightarrow> fs)"

lemma overwrite_end: "overwrite (length old) new old = old @ new"
  by (simp add: overwrite_def)

lemma overwrite_front: "overwrite 0 new old = new @ drop (length new) old"
  by (simp add: overwrite_def)

text \<open>\<open>std::ifstream\<close> opened at the start and read to the end; \<open>None\<close> when it does not open.\<close>

definition read_file :: "host \<Rightarrow> store \<Rightarrow> string \<Rightarrow> bytes option" where
  "read_file h fs s =
     (let p = resolve (cwd h) s in
      case fs p of
        Some (Regular bs) \<Rightarrow> (if may_read h p then Some bs else None)
      | _ \<Rightarrow> None)"

subsection \<open>Facts on the file store\<close>

named_theorems files \<open>effects of the file operations\<close>

lemma healthyD [files]:
  assumes "healthy h"
  shows "may_read h p" and "may_write h p" and "may_mkdir h p" and "persisted h p bs = bs"
  using assms by (simp_all add: healthy_def)

text \<open>Creating directories adds directories and touches nothing else.\<close>

lemma mkdirs_Cons:
  "mkdirs h fs p (w # ws) = Some fs' \<longleftrightarrow>
     (fs (p @ [w]) = Some Directory \<and> mkdirs h fs (p @ [w]) ws = Some fs') \<or>
     (fs (p @ [w]) = None \<and> may_mkdir h (p @ [w]) \<and>
      mkdirs h (fs(p @ [w] \<mapsto> Directory)) (p @ [w]) ws = Some fs')"
  by (auto simp: Let_def simp del: fun_upd_apply split: option.splits node.splits)

lemma mkdirs_keeps: "mkdirs h fs p ws = Some fs' \<Longrightarrow> fs q = Some n \<Longrightarrow> fs' q = Some n"
proof (induction ws arbitrary: fs p)
  case Nil
  then show ?case by simp
next
  case (Cons w ws)
  have upd: "(fs(p @ [w] \<mapsto> Directory)) q = Some n" if "fs (p @ [w]) = None"
    using that Cons.prems(2) by auto
  from Cons.prems(1) show ?case
    unfolding mkdirs_Cons
    by (elim disjE conjE) (use Cons.IH Cons.prems(2) upd in \<open>blast+\<close>)
qed

lemma mkdirs_regular:
  "mkdirs h fs p ws = Some fs' \<Longrightarrow> (fs' q = Some (Regular bs)) = (fs q = Some (Regular bs))"
proof (induction ws arbitrary: fs p)
  case Nil
  then show ?case by simp
next
  case (Cons w ws)
  from Cons.prems show ?case
    unfolding mkdirs_Cons
    by (elim disjE conjE) (use Cons.IH in \<open>force+\<close>)
qed

lemma mkdirs_makes_dir:
  "mkdirs h fs p ws = Some fs' \<Longrightarrow> is_dir fs p \<Longrightarrow> is_dir fs' (p @ ws)"
proof (induction ws arbitrary: fs p)
  case Nil
  then show ?case by simp
next
  case (Cons w ws)
  from Cons.prems(1) show ?case
    unfolding mkdirs_Cons
    by (elim disjE conjE) (use Cons.IH [of _ "p @ [w]"] in \<open>force simp: is_dir_def\<close>)+
qed

lemma mkdirs_succeeds:
  assumes "\<And>q. may_mkdir h q"
    and "\<And>n bs. fs (p @ take n ws) \<noteq> Some (Regular bs)"
  shows "\<exists>fs'. mkdirs h fs p ws = Some fs'"
  using assms(2)
proof (induction ws arbitrary: fs p)
  case Nil
  then show ?case by simp
next
  case (Cons w ws)
  have ih: "\<exists>fs''. mkdirs h fs' (p @ [w]) ws = Some fs''"
    if "\<And>n bs. fs' ((p @ [w]) @ take n ws) \<noteq> Some (Regular bs)" for fs'
    using Cons.IH that by blast
  have reg: "fs ((p @ [w]) @ take n ws) \<noteq> Some (Regular bs)" for n bs
    using Cons.prems [of "Suc n"] by simp
  show ?case
  proof (cases "fs (p @ [w])")
    case None
    have "\<exists>fs''. mkdirs h (fs(p @ [w] \<mapsto> Directory)) (p @ [w]) ws = Some fs''"
      by (rule ih) (use reg in auto)
    with None assms(1) show ?thesis by (simp add: Let_def)
  next
    case (Some n)
    with reg [of 0] have "n = Directory" by (cases n) auto
    with Some ih [of fs] reg show ?thesis by (simp add: Let_def)
  qed
qed

lemma create_directories_regular [files]:
  "create_directories h fs s = Some fs' \<Longrightarrow> (fs' q = Some (Regular bs)) = (fs q = Some (Regular bs))"
  unfolding create_directories_def by (rule mkdirs_regular)

lemma create_directories_keeps [files]:
  "create_directories h fs s = Some fs' \<Longrightarrow> fs q = Some n \<Longrightarrow> fs' q = Some n"
  unfolding create_directories_def by (rule mkdirs_keeps)

lemma create_directories_dir [files]:
  "create_directories h fs s = Some fs' \<Longrightarrow> is_dir fs' (resolve (cwd h) s)"
  unfolding create_directories_def using mkdirs_makes_dir [of h fs "[]" _ fs']
  by (simp add: is_dir_def)

lemma read_after_write [files]:
  assumes "open_out h fs s = Some fs1"
  shows "stream_write h fs1 s bs =
    fs(resolve (cwd h) s \<mapsto> Regular (persisted h (resolve (cwd h) s) bs))"
  using assms by (auto simp: open_out_def stream_write_def Let_def split: if_splits)

subsection \<open>Files and directories on a healthy host\<close>

definition files_of :: "store \<Rightarrow> path \<Rightarrow> bytes option" where
  "files_of fs q = (case fs q of Some (Regular bs) \<Rightarrow> Some bs | _ \<Rightarrow> None)"

lemma files_of_Some: "files_of fs q = Some bs \<longleftrightarrow> fs q = Some (Regular bs)"
  by (auto simp: files_of_def split: option.splits node.splits)

lemma files_of_eqI:
  "(\<And>q bs. (fs' q = Some (Regular bs)) = (fs q = Some (Regular bs))) \<Longrightarrow> files_of fs' = files_of fs"
  by (rule ext) (metis files_of_Some not_Some_eq)

lemma files_of_upd [files]: "files_of (fs(q \<mapsto> Regular bs)) = (files_of fs)(q \<mapsto> bs)"
  by (rule ext) (simp add: files_of_def)

lemma mkdirs_new_dirs:
  "mkdirs h fs p ws = Some fs' \<Longrightarrow> fs' q = Some Directory \<Longrightarrow>
   fs q = Some Directory \<or> (\<exists>n. q = p @ take n ws)"
proof (induction ws arbitrary: fs p)
  case Nil
  then show ?case by simp
next
  case (Cons w ws)
  have sub: "\<exists>n. q = p @ take n (w # ws)" if "\<exists>n. q = (p @ [w]) @ take n ws"
  proof -
    from that obtain n where "q = p @ take (Suc n) (w # ws)" by auto
    then show ?thesis by blast
  qed
  have first: "\<exists>n. q = p @ take n (w # ws)" if "q = p @ [w]"
    using that by (intro exI [of _ "Suc 0"]) simp
  from Cons.prems(1) consider
      (old) "mkdirs h fs (p @ [w]) ws = Some fs'"
    | (new) "mkdirs h (fs(p @ [w] \<mapsto> Directory)) (p @ [w]) ws = Some fs'"
    unfolding mkdirs_Cons by blast
  then show ?case
  proof cases
    case old
    from Cons.IH [OF this Cons.prems(2)] sub show ?thesis by blast
  next
    case new
    from Cons.IH [OF this Cons.prems(2)] sub first show ?thesis by (auto split: if_splits)
  qed
qed

lemma create_directories_healthy:
  assumes "healthy h" and "\<And>n. files_of fs (take n (resolve (cwd h) s)) = None"
  shows "\<exists>fs'. create_directories h fs s = Some fs' \<and> files_of fs' = files_of fs \<and>
    is_dir fs' (resolve (cwd h) s) \<and>
    (\<forall>q. fs' q = Some Directory \<longrightarrow> fs q = Some Directory \<or> (\<exists>n. q = take n (resolve (cwd h) s)))"
proof -
  have "fs ([] @ take n (resolve (cwd h) s)) \<noteq> Some (Regular bs)" for n bs
    using assms(2) [of n] files_of_Some [of fs _ bs] by force
  then obtain fs' where fs': "create_directories h fs s = Some fs'"
    unfolding create_directories_def
    using mkdirs_succeeds [of h fs "[]"] healthyD(3) [OF assms(1)] by blast
  moreover have "files_of fs' = files_of fs"
    using create_directories_regular [OF fs'] by (rule files_of_eqI)
  moreover have "fs' q = Some Directory \<longrightarrow> fs q = Some Directory \<or> (\<exists>n. q = take n (resolve (cwd h) s))" for q
    using mkdirs_new_dirs [of h fs "[]" _ fs' q] fs' by (auto simp: create_directories_def)
  ultimately show ?thesis using create_directories_dir [OF fs'] by blast
qed

lemma open_out_healthy:
  assumes "healthy h" and "resolve (cwd h) s = p @ [w]" and "is_dir fs p" and "fs (p @ [w]) \<noteq> Some Directory"
  shows "open_out h fs s = Some (fs(p @ [w] \<mapsto> Regular []))"
  using assms by (simp add: open_out_def Let_def healthyD)

lemma read_file_healthy: "healthy h \<Longrightarrow> read_file h fs s = files_of fs (resolve (cwd h) s)"
  by (auto simp: read_file_def files_of_def Let_def healthyD split: option.splits node.splits)

subsection \<open>Safe paths\<close>

text \<open>A relative path all of whose components are names.\<close>

definition safe_path :: "string \<Rightarrow> bool" where
  "safe_path s \<longleftrightarrow> (\<forall>w \<in> set (components s). plain_name w)"

lemma walk_plain_all: "\<forall>w \<in> set ws. plain_name w \<Longrightarrow> walk acc ws = rev ws @ acc"
  by (induction ws arbitrary: acc) (simp_all add: plain_name_def)

lemma resolve_safe: "s \<noteq> [] \<Longrightarrow> safe_path t \<Longrightarrow> resolve c (s @ CHR ''/'' # t) = resolve c s @ components t"
  by (simp add: resolve_append_slash safe_path_def walk_plain_all)

lemma plain_safe: "plain_name w \<Longrightarrow> safe_path w"
  by (simp add: safe_path_def components_plain plain_name_def)

lemma safe_last:
  assumes "safe_path s"
  shows "s \<noteq> [] \<and> last s \<noteq> CHR ''/''"
proof (rule conjI)
  show ne: "s \<noteq> []"
  proof
    assume "s = []"
    with assms have "plain_name []" by (simp add: safe_path_def)
    then show False by (simp add: plain_name_def)
  qed
  show "last s \<noteq> CHR ''/''"
  proof
    assume "last s = CHR ''/''"
    then have "s = butlast s @ CHR ''/'' # []" using ne by (metis append_butlast_last_id)
    then have "components s = components (butlast s) @ [[]]"
      by (metis components.simps(1) components_append_slash)
    then show False using assms by (simp add: safe_path_def plain_name_def)
  qed
qed

text \<open>\<open>std::filesystem::path::parent_path\<close> on a POSIX path.\<close>

definition parent_path :: "string \<Rightarrow> string" where
  "parent_path s =
     (let dir = rev (dropWhile (\<lambda>c. c = CHR ''/'') (dropWhile (\<lambda>c. c \<noteq> CHR ''/'') (rev s)))
      in if dir = [] \<and> s \<noteq> [] \<and> hd s = CHR ''/'' then ''/'' else dir)"

lemma dropWhile_until: "CHR ''/'' \<notin> set w \<Longrightarrow>
    dropWhile (\<lambda>c. c \<noteq> CHR ''/'') (rev w @ CHR ''/'' # t) = CHR ''/'' # t"
  by (subst dropWhile_append2) auto

lemma parent_path_child:
  assumes "q \<noteq> []" and "last q \<noteq> CHR ''/''" and "CHR ''/'' \<notin> set w"
  shows "parent_path (q @ CHR ''/'' # w) = q"
proof (cases q rule: rev_cases)
  case Nil
  with assms(1) show ?thesis by simp
next
  case (snoc ys y)
  with assms(2,3) show ?thesis by (simp add: parent_path_def dropWhile_until Let_def)
qed

lemma resolve_parent_path:
  assumes "s \<noteq> []" and "last s \<noteq> CHR ''/''" and "safe_path t"
  shows "resolve c (parent_path (s @ CHR ''/'' # t)) = resolve c s @ butlast (components t)"
proof (cases "CHR ''/'' \<in> set t")
  case False
  then show ?thesis using assms by (simp add: parent_path_child components_plain)
next
  case True
  then obtain pre w where t: "t = pre @ CHR ''/'' # w" "CHR ''/'' \<notin> set w"
    by (metis split_list_last)
  then have comps: "components t = components pre @ [w]"
    by (simp add: components_append_slash components_plain)
  then have pre: "safe_path pre" using assms(3) by (simp add: safe_path_def)
  have "parent_path ((s @ CHR ''/'' # pre) @ CHR ''/'' # w) = s @ CHR ''/'' # pre"
    using safe_last [OF pre] t(2) by (intro parent_path_child) simp_all
  then show ?thesis
    using assms(1) pre by (simp add: t(1) resolve_safe comps [unfolded t(1)])
qed

end
