(* ===== verification/Hashing.thy ===== *)
theory Hashing
  imports Host_Files
begin

text \<open>
  \<open>src/common/hash.cpp\<close>: the hexadecimal SHA-256 of a buffer and of a file, and the
  polynomial rolling hash that drives the chunker.

  OpenSSL is not part of the repository. Its one-shot function and its streaming interface are
  the fields of the parameter \<open>sha_api\<close>; \<open>sha_documented\<close> states what OpenSSL
  documents of them (32 bytes of digest, and streaming agrees with the one-shot function).
\<close>

subsection \<open>SHA-256 in hexadecimal\<close>

record 'c sha_api =
  sha_oneshot :: "bytes \<Rightarrow> bytes"
  sha_init :: 'c
  sha_update :: "'c \<Rightarrow> bytes \<Rightarrow> 'c"
  sha_final :: "'c \<Rightarrow> bytes"

definition SHA256_DIGEST_LENGTH :: nat where
  "SHA256_DIGEST_LENGTH = 32"

definition sha_documented :: "'c sha_api \<Rightarrow> bool" where
  "sha_documented api \<longleftrightarrow>
     (\<forall>bs. length (sha_oneshot api bs) = SHA256_DIGEST_LENGTH) \<and>
     (\<forall>bss. sha_final api (foldl (sha_update api) (sha_init api) bss) = sha_oneshot api (concat bss))"

text \<open>\<open>ss << std::hex << (int)b\<close> prints the digits without padding.\<close>

definition hex_digit :: "nat \<Rightarrow> char" where
  "hex_digit n = ''0123456789abcdef'' ! n"

definition hex_of :: "nat \<Rightarrow> string" where
  "hex_of n = (if n < 16 then [hex_digit n] else [hex_digit (n div 16), hex_digit (n mod 16)])"

text \<open>\<open>std::setw(2)\<close> with \<open>std::setfill('0')\<close> pads on the left.\<close>

definition pad2 :: "string \<Rightarrow> string" where
  "pad2 s = replicate (2 - length s) (CHR ''0'') @ s"

primrec hex_stream :: "bytes \<Rightarrow> string" where
  "hex_stream [] = []"
| "hex_stream (b # bs) = pad2 (hex_of (unat b)) @ hex_stream bs"

text \<open>The overload for strings copies the characters into a byte vector first.\<close>

definition sha256 :: "'c sha_api \<Rightarrow> bytes \<Rightarrow> string" where
  "sha256 api bs = hex_stream (sha_oneshot api bs)"

definition sha256_string :: "'c sha_api \<Rightarrow> string \<Rightarrow> string" where
  "sha256_string api s = sha256 api (map (\<lambda>c. of_nat (of_char c)) s)"

definition buffer_size :: nat where
  "buffer_size = 8192"

definition sha256File :: "'c sha_api \<Rightarrow> host \<Rightarrow> store \<Rightarrow> string \<Rightarrow> string" where
  "sha256File api h fs filepath =
     (case read_file h fs filepath of
        None \<Rightarrow> ''''
      | Some contents \<Rightarrow>
          hex_stream (sha_final api
            (foldl (sha_update api) (sha_init api) (blocks buffer_size contents))))"

subsection \<open>Facts on the hexadecimal form\<close>

lemma pad2_hex_of: "pad2 (hex_of (unat (b :: u8))) = [hex_digit (unat b div 16), hex_digit (unat b mod 16)]"
  by (auto simp: pad2_def hex_of_def hex_digit_def)

lemma length_hex_stream [simp]: "length (hex_stream bs) = 2 * length bs"
  by (induction bs) (simp_all add: pad2_hex_of)

lemma hex_digit_range: "n < 16 \<Longrightarrow> hex_digit n \<in> set ''0123456789abcdef''"
  unfolding hex_digit_def by (rule nth_mem) simp

lemma hex_digit_inj: "m < 16 \<Longrightarrow> n < 16 \<Longrightarrow> hex_digit m = hex_digit n \<longleftrightarrow> m = n"
  unfolding hex_digit_def by (rule nth_eq_iff_index_eq) auto

lemma byte_digits_lt: "unat (b :: u8) div 16 < 16" "unat b mod 16 < 16"
  using unsigned_less [of b, where ?'a = nat] by auto

lemma hex_stream_chars: "set (hex_stream bs) \<subseteq> set ''0123456789abcdef''"
proof (induction bs)
  case Nil
  then show ?case by simp
next
  case (Cons b bs)
  have "set (pad2 (hex_of (unat b))) \<subseteq> set ''0123456789abcdef''"
    using hex_digit_range [OF byte_digits_lt(1), of b] hex_digit_range [OF byte_digits_lt(2), of b]
    unfolding pad2_hex_of by simp
  with Cons.IH show ?case by (simp del: list.set set_simps)
qed

text \<open>The rendering loses nothing: distinct digests have distinct strings.\<close>

lemma hex_stream_inj: "hex_stream as = hex_stream bs \<longleftrightarrow> as = bs"
proof (induction as arbitrary: bs)
  case Nil
  then show ?case by (cases bs) (simp_all add: pad2_hex_of)
next
  case (Cons a as)
  show ?case
  proof (cases bs)
    case Nil
    then show ?thesis by (simp add: pad2_hex_of)
  next
    case (Cons b bs')
    have "unat a div 16 = unat b div 16 \<and> unat a mod 16 = unat b mod 16 \<longleftrightarrow> a = b"
      by (metis div_mult_mod_eq word_unat_eq_iff)
    then show ?thesis
      using Cons.IH by (auto simp: Cons pad2_hex_of hex_digit_inj byte_digits_lt)
  qed
qed

lemma length_sha256: "sha_documented api \<Longrightarrow> length (sha256 api bs) = 64"
  by (simp add: sha256_def sha_documented_def SHA256_DIGEST_LENGTH_def)

lemma sha256_nonempty: "sha_documented api \<Longrightarrow> sha256 api bs \<noteq> []"
  using length_sha256 [of api bs] by auto

lemma sha256_chars: "set (sha256 api bs) \<subseteq> set ''0123456789abcdef''"
  unfolding sha256_def by (rule hex_stream_chars)

lemma sha256File_eq:
  assumes "sha_documented api"
  shows "sha256File api h fs p =
    (case read_file h fs p of None \<Rightarrow> '''' | Some bs \<Rightarrow> sha256 api bs)"
  using assms
  by (auto simp: sha256File_def sha256_def sha_documented_def concat_blocks buffer_size_def
      split: option.split)

subsection \<open>The rolling hash\<close>

record rolling_hash =
  window_size :: u64
  rh_hash :: u64
  rh_power :: u64

definition kPrime :: u64 where
  "kPrime = 31"

definition kMod :: u64 where
  "kMod = 1000000009"

text \<open>
  The constructor multiplies \<open>window_size_ - 1\<close> times. The subtraction is on
  \<open>size_t\<close>: a window of size 0 would count \<open>2 ^ 64 - 1\<close> rounds.
\<close>

primrec power_loop :: "nat \<Rightarrow> u64 \<Rightarrow> u64" where
  "power_loop 0 p = p"
| "power_loop (Suc n) p = power_loop n ((p * kPrime) mod kMod)"

definition RollingHash :: "u64 \<Rightarrow> rolling_hash" where
  "RollingHash w = \<lparr>window_size = w, rh_hash = 0, rh_power = power_loop (unat (w - 1)) 1\<rparr>"

definition rh_reset :: "rolling_hash \<Rightarrow> rolling_hash" where
  "rh_reset r = r\<lparr>rh_hash := 0\<rparr>"

definition rh_update :: "rolling_hash \<Rightarrow> u8 \<Rightarrow> u8 \<Rightarrow> rolling_hash" where
  "rh_update r byte_in byte_out =
     (let h = (rh_hash r + kMod - (ucast byte_out * rh_power r) mod kMod) mod kMod
      in r\<lparr>rh_hash := (h * kPrime + ucast byte_in) mod kMod\<rparr>)"

definition rh_append :: "rolling_hash \<Rightarrow> u8 \<Rightarrow> rolling_hash" where
  "rh_append r byte = r\<lparr>rh_hash := (rh_hash r * kPrime + ucast byte) mod kMod\<rparr>"

subsection \<open>No operation of the rolling hash wraps around\<close>

text \<open>The state invariant of the class: both residues are reduced, and the power fits the window.\<close>

definition rh_ok :: "rolling_hash \<Rightarrow> bool" where
  "rh_ok r \<longleftrightarrow> unat (rh_hash r) < 1000000009 \<and>
     unat (rh_power r) = 31 ^ unat (window_size r - 1) mod 1000000009"

lemma unat_kMod [simp]: "unat kMod = 1000000009"
  by (simp add: kMod_def)

lemma unat_kPrime [simp]: "unat kPrime = 31"
  by (simp add: kPrime_def)

lemma unat_byte: "unat (ucast (b :: u8) :: u64) = unat b"
  using unsigned_less [of b, where ?'a = nat]
  by (simp add: unsigned_ucast_eq take_bit_nat_eq_self)

lemma byte_lt: "unat (b :: u8) < 256"
  using unsigned_less [of b, where ?'a = nat] by simp

lemma unat_step:
  assumes "unat h < 1000000009"
  shows "unat ((h * kPrime + ucast (b :: u8)) mod kMod) = (unat h * 31 + unat b) mod 1000000009"
proof -
  have m: "unat (h * kPrime) = unat h * 31"
    using assms by (subst unat_mult_lem [THEN iffD1]) simp_all
  then have "unat (h * kPrime + ucast b) = unat h * 31 + unat b"
    using assms byte_lt [of b] by (subst unat_add_lem [THEN iffD1]) (simp_all add: unat_byte)
  then show ?thesis by (simp add: unat_mod)
qed

lemma unat_power_loop:
  "unat p < 1000000009 \<Longrightarrow> unat (power_loop n p) = unat p * 31 ^ n mod 1000000009"
proof (induction n arbitrary: p)
  case 0
  then show ?case by simp
next
  case (Suc n)
  have "unat (p * kPrime) = unat p * 31"
    using Suc.prems by (subst unat_mult_lem [THEN iffD1]) simp_all
  then have u: "unat ((p * kPrime) mod kMod) = unat p * 31 mod 1000000009"
    by (simp add: unat_mod)
  have "unat (power_loop (Suc n) p) = (unat p * 31 mod 1000000009) * 31 ^ n mod 1000000009"
    using Suc.IH [of "(p * kPrime) mod kMod"] by (simp add: u)
  also have "\<dots> = unat p * 31 ^ Suc n mod 1000000009"
    by (subst mod_mult_left_eq) (simp add: ac_simps)
  finally show ?case .
qed

lemma rh_ok_new: "rh_ok (RollingHash w)"
  by (simp add: rh_ok_def RollingHash_def unat_power_loop)

lemma rh_ok_reset: "rh_ok r \<Longrightarrow> rh_ok (rh_reset r)"
  by (simp add: rh_ok_def rh_reset_def)

lemma rh_ok_append: "rh_ok r \<Longrightarrow> rh_ok (rh_append r b)"
  by (simp add: rh_ok_def rh_append_def unat_step)

text \<open>The value subtracted by \<open>update\<close> is a residue, so the difference stays positive.\<close>

lemma unat_drop_byte:
  assumes "rh_ok r"
  shows "unat ((rh_hash r + kMod - (ucast (b :: u8) * rh_power r) mod kMod) mod kMod) =
    (unat (rh_hash r) + 1000000009 - unat b * unat (rh_power r) mod 1000000009) mod 1000000009"
proof -
  have h: "unat (rh_hash r) < 1000000009" and p: "unat (rh_power r) < 1000000009"
    using assms by (simp_all add: rh_ok_def)
  have "unat b * unat (rh_power r) \<le> 255 * 1000000009"
    using byte_lt [of b] p by (intro mult_le_mono) simp_all
  then have "unat (ucast b * rh_power r) = unat b * unat (rh_power r)"
    by (subst unat_mult_lem [THEN iffD1]) (simp_all add: unat_byte)
  then have s: "unat ((ucast b * rh_power r) mod kMod) = unat b * unat (rh_power r) mod 1000000009"
    by (simp add: unat_mod)
  have a: "unat (rh_hash r + kMod) = unat (rh_hash r) + 1000000009"
    using h by (subst unat_add_lem [THEN iffD1]) simp_all
  have le: "unat b * unat (rh_power r) mod 1000000009 \<le> unat (rh_hash r) + 1000000009"
    by (rule order_trans [OF less_imp_le [OF mod_less_divisor]]) simp_all
  have "(ucast b * rh_power r) mod kMod \<le> rh_hash r + kMod"
    unfolding word_le_nat_alt s a by (rule le)
  then have "unat (rh_hash r + kMod - (ucast b * rh_power r) mod kMod) =
      unat (rh_hash r) + 1000000009 - unat b * unat (rh_power r) mod 1000000009"
    by (subst unat_sub) (simp_all add: s a)
  then show ?thesis by (simp add: unat_mod)
qed

lemma rh_ok_update: "rh_ok r \<Longrightarrow> rh_ok (rh_update r b_in b_out)"
  by (simp add: rh_ok_def rh_update_def Let_def unat_step unat_mod)

subsection \<open>The polynomial the hash computes\<close>

definition poly_hash :: "bytes \<Rightarrow> nat" where
  "poly_hash bs = foldl (\<lambda>h b. h * 31 + unat b) 0 bs"

definition fingerprint :: "bytes \<Rightarrow> nat" where
  "fingerprint bs = poly_hash bs mod 1000000009"

lemma poly_hash_snoc [simp]: "poly_hash (bs @ [b]) = poly_hash bs * 31 + unat b"
  by (simp add: poly_hash_def)

lemma poly_hash_Nil [simp]: "poly_hash [] = 0"
  by (simp add: poly_hash_def)

lemma poly_hash_Cons: "poly_hash (b # bs) = unat b * 31 ^ length bs + poly_hash bs"
proof (induction bs rule: rev_induct)
  case Nil
  then show ?case by (simp add: poly_hash_def)
next
  case (snoc x xs)
  have "poly_hash (b # xs @ [x]) = poly_hash (b # xs) * 31 + unat x"
    using poly_hash_snoc [of "b # xs" x] by simp
  with snoc show ?case by (simp add: algebra_simps)
qed

lemma fingerprint_lt: "fingerprint bs < 1000000009"
  by (simp add: fingerprint_def)

lemma fingerprint_snoc:
  "(fingerprint bs * 31 + unat b) mod 1000000009 = fingerprint (bs @ [b])"
  unfolding fingerprint_def poly_hash_snoc by (metis mod_add_left_eq mod_mult_left_eq)

lemma mod_add_cancel:
  assumes "0 < (m::nat)"
  shows "((x + y) mod m + m - y mod m) mod m = x mod m"
proof -
  have "int (((x + y) mod m + m - y mod m) mod m) = (int ((x + y) mod m) + int m - int (y mod m)) mod int m"
    using assms by (simp add: zmod_int of_nat_diff le_add2 trans_le_add2 less_imp_le)
  also have "\<dots> = ((int x + int y) - int y) mod int m"
    unfolding zmod_int of_nat_add by (metis mod_add_self2 mod_diff_eq mod_mod_trivial)
  also have "\<dots> = int x mod int m"
    by simp
  finally show ?thesis by (metis of_nat_eq_iff zmod_int)
qed

subsection \<open>The contract of a sliding window hash\<close>

text \<open>
  What a user of the class may rely on: appending extends the hashed word by a byte, and
  updating moves a full window one byte further.
\<close>

locale sliding_hash =
  fixes restart :: "'s \<Rightarrow> 's"
    and push :: "'s \<Rightarrow> 'b \<Rightarrow> 's"
    and slide :: "'s \<Rightarrow> 'b \<Rightarrow> 'b \<Rightarrow> 's"
    and digest :: "'s \<Rightarrow> nat"
    and width :: "'s \<Rightarrow> nat"
    and ok :: "'s \<Rightarrow> bool"
    and fp :: "'b list \<Rightarrow> nat"
  assumes ok_restart: "ok s \<Longrightarrow> ok (restart s)"
    and ok_push: "ok s \<Longrightarrow> ok (push s b)"
    and ok_slide: "ok s \<Longrightarrow> ok (slide s b c)"
    and width_restart: "width (restart s) = width s"
    and width_push: "width (push s b) = width s"
    and width_slide: "width (slide s b c) = width s"
    and digest_restart: "ok s \<Longrightarrow> digest (restart s) = fp []"
    and digest_push: "ok s \<Longrightarrow> digest s = fp w \<Longrightarrow> digest (push s b) = fp (w @ [b])"
    and digest_slide: "ok s \<Longrightarrow> digest s = fp (c # w) \<Longrightarrow> length (c # w) = width s \<Longrightarrow>
      digest (slide s b c) = fp (w @ [b])"

text \<open>A run of the window over a stream: the state and the bytes in the window.\<close>

fun roll :: "('s \<Rightarrow> 'b \<Rightarrow> 'b \<Rightarrow> 's) \<Rightarrow> 's \<Rightarrow> 'b list \<Rightarrow> 'b list \<Rightarrow> 's" where
  "roll f s w [] = s"
| "roll f s [] (b # bs) = s"
| "roll f s (c # w) (b # bs) = roll f (f s b c) (w @ [b]) bs"

context sliding_hash
begin

lemma ok_push_all: "ok s \<Longrightarrow> ok (foldl push s bs)"
  by (induction bs arbitrary: s) (simp_all add: ok_push)

lemma width_push_all: "width (foldl push s bs) = width s"
  by (induction bs arbitrary: s) (simp_all add: width_push)

lemma digest_push_all:
  "ok s \<Longrightarrow> digest s = fp w \<Longrightarrow> digest (foldl push s bs) = fp (w @ bs)"
proof (induction bs arbitrary: s w)
  case Nil
  then show ?case by simp
next
  case (Cons b bs)
  have "digest (foldl push (push s b) bs) = fp ((w @ [b]) @ bs)"
    by (rule Cons.IH) (simp_all add: Cons.prems ok_push digest_push)
  then show ?case by simp
qed

lemma digest_fresh: "ok s \<Longrightarrow> digest (foldl push (restart s) bs) = fp bs"
  using digest_push_all [of "restart s" "[]" bs] by (simp add: ok_restart digest_restart)

lemma digest_roll:
  "ok s \<Longrightarrow> digest s = fp w \<Longrightarrow> length w = width s \<Longrightarrow> 0 < width s \<Longrightarrow>
   digest (roll slide s w bs) = fp (drop (length bs) (w @ bs))"
proof (induction bs arbitrary: s w)
  case Nil
  then show ?case by simp
next
  case (Cons b bs)
  then obtain c w' where w: "w = c # w'" by (cases w) auto
  have "digest (roll slide (slide s b c) (w' @ [b]) bs) = fp (drop (length bs) ((w' @ [b]) @ bs))"
    by (rule Cons.IH) (use Cons.prems w in \<open>simp_all add: ok_slide width_slide digest_slide\<close>)
  then show ?case by (simp add: w)
qed

end

lemma rh_digest_slide:
  assumes "rh_ok r" and "unat (rh_hash r) = fingerprint (c # w)"
    and "length (c # w) = unat (window_size r)"
  shows "unat (rh_hash (rh_update r b c)) = fingerprint (w @ [b])"
proof -
  have "unat (window_size r - 1) = length w"
  proof -
    have "1 \<le> window_size r"
      using assms(3) by (simp add: word_le_nat_alt)
    then show ?thesis using assms(3) by (simp add: unat_sub)
  qed
  then have p: "unat (rh_power r) = 31 ^ length w mod 1000000009"
    using assms(1) by (simp add: rh_ok_def)
  have "unat c * unat (rh_power r) mod 1000000009 = unat c * 31 ^ length w mod 1000000009"
    by (simp add: p mod_simps)
  then have "unat ((rh_hash r + kMod - (ucast c * rh_power r) mod kMod) mod kMod) = fingerprint w"
    using mod_add_cancel [of 1000000009 "poly_hash w" "unat c * 31 ^ length w"]
    unfolding unat_drop_byte [OF assms(1)] assms(2) fingerprint_def poly_hash_Cons
    by (simp add: add.commute)
  then show ?thesis
    by (simp add: rh_update_def Let_def unat_step fingerprint_snoc fingerprint_lt)
qed

interpretation rolling: sliding_hash rh_reset rh_append rh_update
  "\<lambda>r. unat (rh_hash r)" "\<lambda>r. unat (window_size r)" rh_ok fingerprint
proof (unfold_locales, goal_cases)
  case (7 s)
  then show ?case by (simp add: rh_reset_def fingerprint_def)
next
  case (8 s w b)
  then show ?case
    by (simp add: rh_append_def rh_ok_def unat_step fingerprint_snoc)
next
  case (9 s c w b)
  then show ?case by (rule rh_digest_slide)
qed (simp_all add: rh_ok_reset rh_ok_append rh_ok_update,
     simp_all add: rh_reset_def rh_append_def rh_update_def Let_def)

subsection \<open>Properties\<close>

definition toy_sha :: "bytes sha_api" where
  "toy_sha = \<lparr>sha_oneshot = (\<lambda>bs. take 32 (bs @ replicate 32 0)), sha_init = [],
     sha_update = (\<lambda>c bs. c @ bs), sha_final = (\<lambda>c. take 32 (c @ replicate 32 0))\<rparr>"

lemma foldl_append_concat: "foldl (\<lambda>c bs. c @ bs) z bss = z @ concat bss"
  by (induction bss arbitrary: z) simp_all

lemma toy_sha_documented: "sha_documented toy_sha"
  by (simp add: sha_documented_def toy_sha_def SHA256_DIGEST_LENGTH_def foldl_append_concat min_def)

text \<open>A rolling hash that is reset and fed any bytes holds the polynomial fingerprint of exactly
  these bytes modulo the prime, whatever the window size: no 64-bit operation of
  \<open>append\<close> wraps around, and \<open>append\<close> never forgets a byte.\<close>

theorem append_computes_fingerprint:
  "unat (rh_hash (foldl rh_append (rh_reset (RollingHash w)) bs)) = fingerprint bs"
  by (rule rolling.digest_fresh [OF rh_ok_new])

text \<open>C25: after the window is filled with \<open>append\<close>, \<open>update\<close> slides it: over any further
  stream the hash is the fingerprint of the last \<open>window_size\<close> bytes, as if recomputed
  from scratch.\<close>

theorem update_slides_window:
  assumes "0 < w" and "length win = unat w"
  shows "unat (rh_hash (roll rh_update (foldl rh_append (rh_reset (RollingHash w)) win) win bs)) =
    fingerprint (drop (length bs) (win @ bs))"
proof (rule rolling.digest_roll)
  show "rh_ok (foldl rh_append (rh_reset (RollingHash w)) win)"
    by (intro rolling.ok_push_all rh_ok_reset rh_ok_new)
  show "unat (rh_hash (foldl rh_append (rh_reset (RollingHash w)) win)) = fingerprint win"
    by (rule rolling.digest_fresh [OF rh_ok_new])
  have "unat (window_size (foldl rh_append (rh_reset (RollingHash w)) win)) = unat w"
    by (subst rolling.width_push_all) (simp add: rh_reset_def RollingHash_def)
  then show "length win = unat (window_size (foldl rh_append (rh_reset (RollingHash w)) win))"
    and "0 < unat (window_size (foldl rh_append (rh_reset (RollingHash w)) win))"
    using assms by (simp_all add: unat_gt_0 word_neq_0_conv)
qed

theorem update_slides_window_witness:
  "unat (rh_hash (roll rh_update (foldl rh_append (rh_reset (RollingHash 3)) [200, 100, 50]) [200, 100, 50] [7, 9]))
     = fingerprint [50, 7, 9]"
  using update_slides_window [of 3 "[200, 100, 50]" "[7, 9]"] by simp

text \<open>Hashing a file in 8192-byte blocks gives the SHA-256 of the whole contents, 64 lower-case
  hexadecimal digits; a file that cannot be opened gives the empty string, which no contents give.\<close>

theorem sha256File_streams:
  assumes "sha_documented api"
  shows "(case read_file h fs p of
       None \<Rightarrow> sha256File api h fs p = ''''
     | Some bs \<Rightarrow> sha256File api h fs p = sha256 api bs \<and> length (sha256File api h fs p) = 64 \<and>
         set (sha256File api h fs p) \<subseteq> set ''0123456789abcdef'')"
  using assms sha256_chars [of api]
  by (auto simp: sha256File_eq length_sha256 split: option.split simp del: list.set)

theorem sha256File_streams_witness:
  "sha256File toy_sha plain_host [[''f''] \<mapsto> Regular [1, 2]] ''/f'' = sha256 toy_sha [1, 2]"
  using sha256File_streams [OF toy_sha_documented, of plain_host "[[''f''] \<mapsto> Regular [1, 2]]" "''/f''"]
  by (simp add: read_file_def resolve_def)

end
