(* ===== verification/Metadata_DB.thy ===== *)
theory Metadata_DB
  imports Lite_Prelude "HOL-Library.Multiset"
begin

text \<open>
  \<open>include/core/metadata_db.h\<close> and \<open>src/core/metadata_db.cpp\<close>: the metadata
  database of a client.

  The SQL texts are part of the source, so each of them is a constructor of \<open>sql\<close> and its
  relational meaning is a definition on tables (lists of rows in storage order; an
  \<open>INSERT OR REPLACE\<close> deletes the row with the same primary key and adds the new one). The
  engine that runs them is not: what it decides, and the code can only observe, is the
  parameter \<open>sqlite\<close>: whether a file opens and with which contents, whether a statement is
  prepared, whether a statement that writes reaches \<open>SQLITE_DONE\<close>, in which order a
  \<open>SELECT\<close> without \<open>ORDER BY\<close> delivers its rows, and after how many rows it fails.
\<close>

subsection \<open>Rows\<close>

record file_record =
  fr_path :: string
  fr_size :: int
  fr_modified_time :: int
  fr_hash :: string
  fr_version :: int
  fr_is_directory :: bool
  fr_deleted :: bool
  fr_last_sync_time :: int

text \<open>The columns as they are stored: truth values as integers.\<close>

record file_row =
  col_path :: string
  col_size :: int
  col_modified_time :: int
  col_hash :: string
  col_version :: int
  col_is_directory :: int
  col_deleted :: int
  col_last_sync_time :: int

record chunk_row =
  cr_file_path :: string
  cr_chunk_index :: int
  cr_hash :: string
  cr_offset :: int
  cr_size :: int

record database =
  files_table :: "file_row list"
  chunks_table :: "chunk_row list"
  sync_table :: "(string \<times> int) list"

definition empty_database :: database where
  "empty_database = \<lparr>files_table = [], chunks_table = [], sync_table = []\<rparr>"

text \<open>\<open>sqlite3_bind_text\<close> with length -1 reads a C string: up to the first zero byte.\<close>

definition c_str :: "string \<Rightarrow> string" where
  "c_str s = takeWhile (\<lambda>c. c \<noteq> CHR 0x00) s"

definition bind_file :: "file_record \<Rightarrow> file_row" where
  "bind_file r = \<lparr>col_path = c_str (fr_path r), col_size = fr_size r,
     col_modified_time = fr_modified_time r, col_hash = c_str (fr_hash r),
     col_version = fr_version r, col_is_directory = (if fr_is_directory r then 1 else 0),
     col_deleted = (if fr_deleted r then 1 else 0), col_last_sync_time = fr_last_sync_time r\<rparr>"

text \<open>\<open>sqlite3_column_int\<close> reads 32 bits, \<open>sqlite3_column_int64\<close> the whole value.\<close>

definition column_file :: "file_row \<Rightarrow> file_record" where
  "column_file w = \<lparr>fr_path = col_path w, fr_size = col_size w,
     fr_modified_time = col_modified_time w, fr_hash = col_hash w,
     fr_version = to_int32 (col_version w), fr_is_directory = (to_int32 (col_is_directory w) \<noteq> 0),
     fr_deleted = (to_int32 (col_deleted w) \<noteq> 0), fr_last_sync_time = col_last_sync_time w\<rparr>"

subsection \<open>SQL statements and their meaning\<close>

datatype sql =
    Insert_File file_row
  | Select_File string
  | Select_Live
  | Select_Since int
  | Mark_Deleted string
  | Insert_Chunk chunk_row
  | Select_Hashes string
  | Select_Has_Chunk string
  | Insert_Sync int
  | Select_Sync
  | Create_Schema
  | Begin_Transaction
  | Commit_Transaction
  | Rollback_Transaction

definition upsert :: "('r \<Rightarrow> 'k) \<Rightarrow> 'r \<Rightarrow> 'r list \<Rightarrow> 'r list" where
  "upsert key r rows = filter (\<lambda>x. key x \<noteq> key r) rows @ [r]"

definition chunk_key :: "chunk_row \<Rightarrow> string \<times> int" where
  "chunk_key w = (cr_file_path w, cr_chunk_index w)"

definition last_sync_key :: string where
  "last_sync_key = ''last_sync_time''"

fun sql_effect :: "sql \<Rightarrow> database \<Rightarrow> database" where
  "sql_effect (Insert_File w) t = t\<lparr>files_table := upsert col_path w (files_table t)\<rparr>"
| "sql_effect (Mark_Deleted p) t =
     t\<lparr>files_table := map (\<lambda>w. if col_path w = p then w\<lparr>col_deleted := 1\<rparr> else w) (files_table t)\<rparr>"
| "sql_effect (Insert_Chunk w) t = t\<lparr>chunks_table := upsert chunk_key w (chunks_table t)\<rparr>"
| "sql_effect (Insert_Sync v) t = t\<lparr>sync_table := upsert fst (last_sync_key, v) (sync_table t)\<rparr>"
| "sql_effect _ t = t"

subsection \<open>The engine and the connection\<close>

record sqlite =
  opens :: "string \<Rightarrow> database option"
  prepares :: "sql \<Rightarrow> database \<Rightarrow> bool"
  completes :: "sql \<Rightarrow> database \<Rightarrow> bool"
  scan :: "file_row list \<Rightarrow> file_row list"
  fails_after :: "sql \<Rightarrow> database \<Rightarrow> nat option"

text \<open>SQL promises every row of a table once, in no particular order.\<close>

definition scan_documented :: "sqlite \<Rightarrow> bool" where
  "scan_documented E \<longleftrightarrow> (\<forall>rows. mset (scan E rows) = mset rows)"

text \<open>An engine on which no call fails.\<close>

definition engine_healthy :: "sqlite \<Rightarrow> bool" where
  "engine_healthy E \<longleftrightarrow> (\<forall>p. opens E p \<noteq> None) \<and> (\<forall>st t. prepares E st t) \<and>
     (\<forall>st t. completes E st t) \<and> (\<forall>st t. fails_after E st t = None)"

text \<open>
  The object: \<open>db_open\<close> is a usable handle, \<open>saved\<close> the tables to go back to while a
  transaction is open.
\<close>

record metadata_db =
  db_path :: string
  db_open :: bool
  tables :: database
  saved :: "database option"

definition MetadataDB :: "string \<Rightarrow> metadata_db" where
  "MetadataDB p = \<lparr>db_path = p, db_open = False, tables = empty_database, saved = None\<rparr>"

definition executeSQL :: "sqlite \<Rightarrow> sql \<Rightarrow> metadata_db \<Rightarrow> bool \<times> metadata_db" where
  "executeSQL E st d =
     (if \<not> db_open d \<or> \<not> completes E st (tables d) then (False, d)
      else case st of
        Begin_Transaction \<Rightarrow>
          (case saved d of None \<Rightarrow> (True, d\<lparr>saved := Some (tables d)\<rparr>) | Some _ \<Rightarrow> (False, d))
      | Commit_Transaction \<Rightarrow>
          (case saved d of None \<Rightarrow> (False, d) | Some _ \<Rightarrow> (True, d\<lparr>saved := None\<rparr>))
      | Rollback_Transaction \<Rightarrow>
          (case saved d of None \<Rightarrow> (False, d) | Some t \<Rightarrow> (True, d\<lparr>tables := t, saved := None\<rparr>))
      | _ \<Rightarrow> (True, d\<lparr>tables := sql_effect st (tables d)\<rparr>))"

text \<open>\<open>initialize\<close>: open the file, then run the \<open>CREATE ... IF NOT EXISTS\<close> script.\<close>

definition initialize :: "sqlite \<Rightarrow> metadata_db \<Rightarrow> bool \<times> metadata_db" where
  "initialize E d =
     (case opens E (c_str (db_path d)) of
        None \<Rightarrow> (False, d)
      | Some t \<Rightarrow> executeSQL E Create_Schema (d\<lparr>db_open := True, tables := t\<rparr>))"

text \<open>Prepare, bind, one step, finalize: the shape of every operation that writes.\<close>

definition run_write :: "sqlite \<Rightarrow> sql \<Rightarrow> metadata_db \<Rightarrow> bool \<times> metadata_db" where
  "run_write E st d =
     (if \<not> db_open d \<or> \<not> prepares E st (tables d) then (False, d)
      else if completes E st (tables d) then (True, d\<lparr>tables := sql_effect st (tables d)\<rparr>)
      else (False, d))"

text \<open>Prepare, bind, and step while rows come: the rows a \<open>SELECT\<close> delivers to the code.\<close>

definition run_select :: "sqlite \<Rightarrow> sql \<Rightarrow> metadata_db \<Rightarrow> 'r list \<Rightarrow> 'r list" where
  "run_select E st d rows =
     (if \<not> db_open d \<or> \<not> prepares E st (tables d) then []
      else case fails_after E st (tables d) of None \<Rightarrow> rows | Some n \<Rightarrow> take n rows)"

subsection \<open>Operations\<close>

definition insertOrUpdateFile :: "sqlite \<Rightarrow> file_record \<Rightarrow> metadata_db \<Rightarrow> bool \<times> metadata_db" where
  "insertOrUpdateFile E r d = run_write E (Insert_File (bind_file r)) d"

definition getFile :: "sqlite \<Rightarrow> string \<Rightarrow> metadata_db \<Rightarrow> file_record option" where
  "getFile E p d =
     (case run_select E (Select_File (c_str p)) d
             (filter (\<lambda>w. col_path w = c_str p) (files_table (tables d))) of
        [] \<Rightarrow> None
      | w # _ \<Rightarrow> Some (column_file w))"

definition getAllFiles :: "sqlite \<Rightarrow> metadata_db \<Rightarrow> file_record list" where
  "getAllFiles E d =
     map column_file (run_select E Select_Live d
       (scan E (filter (\<lambda>w. col_deleted w = 0) (files_table (tables d)))))"

definition getModifiedSince :: "sqlite \<Rightarrow> int \<Rightarrow> metadata_db \<Rightarrow> file_record list" where
  "getModifiedSince E timestamp d =
     map column_file (run_select E (Select_Since timestamp) d
       (scan E (filter (\<lambda>w. timestamp < col_modified_time w) (files_table (tables d)))))"

definition deleteFile :: "sqlite \<Rightarrow> string \<Rightarrow> metadata_db \<Rightarrow> bool \<times> metadata_db" where
  "deleteFile E p d = run_write E (Mark_Deleted (c_str p)) d"

definition insertChunk ::
  "sqlite \<Rightarrow> string \<Rightarrow> int \<Rightarrow> string \<Rightarrow> int \<Rightarrow> int \<Rightarrow> metadata_db \<Rightarrow> bool \<times> metadata_db" where
  "insertChunk E p i h off sz d =
     run_write E (Insert_Chunk \<lparr>cr_file_path = c_str p, cr_chunk_index = i, cr_hash = c_str h,
                    cr_offset = off, cr_size = sz\<rparr>) d"

definition getFileChunks :: "sqlite \<Rightarrow> string \<Rightarrow> metadata_db \<Rightarrow> string list" where
  "getFileChunks E p d =
     map cr_hash (run_select E (Select_Hashes (c_str p)) d
       (sort_key cr_chunk_index (filter (\<lambda>w. cr_file_path w = c_str p) (chunks_table (tables d)))))"

definition hasChunk :: "sqlite \<Rightarrow> string \<Rightarrow> metadata_db \<Rightarrow> bool" where
  "hasChunk E h d \<longleftrightarrow>
     run_select E (Select_Has_Chunk (c_str h)) d
       (take 1 (filter (\<lambda>w. cr_hash w = c_str h) (chunks_table (tables d)))) \<noteq> []"

definition updateLastSyncTime :: "sqlite \<Rightarrow> int \<Rightarrow> metadata_db \<Rightarrow> bool \<times> metadata_db" where
  "updateLastSyncTime E timestamp d = run_write E (Insert_Sync timestamp) d"

definition getLastSyncTime :: "sqlite \<Rightarrow> metadata_db \<Rightarrow> int" where
  "getLastSyncTime E d =
     (case run_select E Select_Sync d
             (filter (\<lambda>kv. fst kv = last_sync_key) (sync_table (tables d))) of
        [] \<Rightarrow> 0
      | kv # _ \<Rightarrow> snd kv)"

definition beginTransaction :: "sqlite \<Rightarrow> metadata_db \<Rightarrow> bool \<times> metadata_db" where
  "beginTransaction E d = executeSQL E Begin_Transaction d"

definition commit_db :: "sqlite \<Rightarrow> metadata_db \<Rightarrow> bool \<times> metadata_db" where
  "commit_db E d = executeSQL E Commit_Transaction d"

definition rollback_db :: "sqlite \<Rightarrow> metadata_db \<Rightarrow> bool \<times> metadata_db" where
  "rollback_db E d = executeSQL E Rollback_Transaction d"

subsection \<open>The RAII transaction\<close>

record transaction =
  committed :: bool

definition Transaction :: "sqlite \<Rightarrow> metadata_db \<Rightarrow> transaction \<times> metadata_db" where
  "Transaction E d = (\<lparr>committed = False\<rparr>, snd (beginTransaction E d))"

definition destroy_transaction :: "sqlite \<Rightarrow> transaction \<Rightarrow> metadata_db \<Rightarrow> metadata_db" where
  "destroy_transaction E tx d = (if committed tx then d else snd (rollback_db E d))"

definition commit_transaction ::
  "sqlite \<Rightarrow> transaction \<Rightarrow> metadata_db \<Rightarrow> bool \<times> transaction \<times> metadata_db" where
  "commit_transaction E tx d =
     (case commit_db E d of
        (True, d') \<Rightarrow> (True, tx\<lparr>committed := True\<rparr>, d')
      | (False, d') \<Rightarrow> (False, tx, d'))"

definition rollback_transaction ::
  "sqlite \<Rightarrow> transaction \<Rightarrow> metadata_db \<Rightarrow> transaction \<times> metadata_db" where
  "rollback_transaction E tx d =
     (if committed tx then (tx, d) else (tx\<lparr>committed := True\<rparr>, snd (rollback_db E d)))"

text \<open>
  The destructor of the connection: \<open>sqlite3_close\<close> rolls an open transaction back. The tables of a closed
  connection are what its file holds.
\<close>

definition destroy_db :: "metadata_db \<Rightarrow> metadata_db" where
  "destroy_db d =
     (if db_open d
      then d\<lparr>db_open := False, tables := (case saved d of None \<Rightarrow> tables d | Some t \<Rightarrow> t), saved := None\<rparr>
      else d)"

subsection \<open>The contract of a table with a primary key\<close>

text \<open>
  What the operations rely on for \<open>INSERT OR REPLACE\<close>: there is never more than one row of a
  key, the new row is there, and the rows of other keys are untouched.
\<close>

locale primary_key =
  fixes key :: "'r \<Rightarrow> 'k" and put :: "'r \<Rightarrow> 'r list \<Rightarrow> 'r list"
  assumes put_distinct: "distinct (map key rows) \<Longrightarrow> distinct (map key (put r rows))"
    and put_set: "set (put r rows) = insert r {x \<in> set rows. key x \<noteq> key r}"
    and put_select: "k \<noteq> key r \<Longrightarrow> filter (\<lambda>x. key x = k) (put r rows) = filter (\<lambda>x. key x = k) rows"
    and put_select_same: "filter (\<lambda>x. key x = key r) (put r rows) = [r]"
begin

lemma put_all_distinct: "distinct (map key rows) \<Longrightarrow> distinct (map key (foldl (\<lambda>rs r. put r rs) rows ws))"
  by (induction ws arbitrary: rows) (simp_all add: put_distinct)

lemma put_all_set:
  "distinct (map key ws) \<Longrightarrow>
   set (foldl (\<lambda>rs r. put r rs) rows ws) = set ws \<union> {x \<in> set rows. key x \<notin> key ` set ws}"
proof (induction ws arbitrary: rows)
  case Nil
  then show ?case by simp
next
  case (Cons w ws)
  then have w: "key w \<notin> key ` set ws" by simp
  have "set (foldl (\<lambda>rs r. put r rs) (put w rows) ws) =
      set ws \<union> {x \<in> insert w {x \<in> set rows. key x \<noteq> key w}. key x \<notin> key ` set ws}"
    using Cons by (simp add: put_set)
  also have "\<dots> = set (w # ws) \<union> {x \<in> set rows. key x \<notin> key ` set (w # ws)}"
    using w by auto
  finally show ?case by simp
qed

lemma put_all_mset:
  assumes "distinct (map key rows)" and "distinct (map key ws)"
  shows "mset (foldl (\<lambda>rs r. put r rs) rows ws) =
    mset (filter (\<lambda>x. key x \<notin> key ` set ws) rows @ ws)"
proof -
  have "distinct (foldl (\<lambda>rs r. put r rs) rows ws)"
    using put_all_distinct [OF assms(1), of ws] by (simp add: distinct_map)
  moreover have "distinct (filter (\<lambda>x. key x \<notin> key ` set ws) rows @ ws)"
    using assms by (auto simp: distinct_map)
  moreover have "set (foldl (\<lambda>rs r. put r rs) rows ws) =
      set (filter (\<lambda>x. key x \<notin> key ` set ws) rows @ ws)"
    using put_all_set [OF assms(2), of rows] by auto
  ultimately show ?thesis by (metis set_eq_iff_mset_eq_distinct)
qed

lemma select_unique:
  "distinct (map key rows) \<Longrightarrow> r \<in> set rows \<Longrightarrow> filter (\<lambda>x. key x = key r) rows = [r]"
proof (induction rows)
  case Nil
  then show ?case by simp
next
  case (Cons a rows)
  show ?case
  proof (cases "a = r")
    case True
    with Cons.prems have "filter (\<lambda>x. key x = key r) rows = []"
      by (auto simp: filter_empty_conv image_iff)
    with True show ?thesis by simp
  next
    case False
    with Cons.prems have "key a \<noteq> key r" by (auto simp: image_iff)
    with False Cons show ?thesis by simp
  qed
qed

end

lemma upsert_distinct: "distinct (map key rows) \<Longrightarrow> distinct (map key (upsert key r rows))"
  by (induction rows) (auto simp: upsert_def)

lemma upsert_primary_key: "primary_key key (upsert key)"
proof (unfold_locales, goal_cases)
  case (1 rows r)
  then show ?case by (rule upsert_distinct)
qed (auto simp: upsert_def filter_empty_conv intro!: filter_cong)

interpretation files_pk: primary_key col_path "upsert col_path"
  by (rule upsert_primary_key)

interpretation chunks_pk: primary_key chunk_key "upsert chunk_key"
  by (rule upsert_primary_key)

interpretation sync_pk: primary_key fst "upsert fst :: string \<times> int \<Rightarrow> (string \<times> int) list \<Rightarrow> (string \<times> int) list"
  by (rule upsert_primary_key)

subsection \<open>Facts on the connection\<close>

named_theorems db_simps \<open>the shape of the operations of the database\<close>

lemmas db_writes = insertOrUpdateFile_def deleteFile_def insertChunk_def updateLastSyncTime_def

lemma run_write_cases [db_simps]:
  "fst (run_write E st d) \<Longrightarrow> snd (run_write E st d) = d\<lparr>tables := sql_effect st (tables d)\<rparr>"
  "\<not> fst (run_write E st d) \<Longrightarrow> snd (run_write E st d) = d"
  by (auto simp: run_write_def split: if_splits)

lemma run_write_healthy [db_simps]:
  "engine_healthy E \<Longrightarrow> db_open d \<Longrightarrow> run_write E st d = (True, d\<lparr>tables := sql_effect st (tables d)\<rparr>)"
  by (simp add: run_write_def engine_healthy_def)

lemma run_select_healthy [db_simps]:
  "engine_healthy E \<Longrightarrow> db_open d \<Longrightarrow> run_select E st d rows = rows"
  by (simp add: run_select_def engine_healthy_def)

lemma run_select_subset: "set (run_select E st d rows) \<subseteq> set rows"
  by (auto simp: run_select_def dest: in_set_takeD split: option.splits if_splits)

lemma scan_set: "scan_documented E \<Longrightarrow> set (scan E rows) = set rows"
  unfolding scan_documented_def by (metis set_mset_mset)

text \<open>Values that a C++ \<open>FileRecord\<close> without zero bytes in its strings can hold come back unchanged.\<close>

definition storable :: "file_record \<Rightarrow> bool" where
  "storable r \<longleftrightarrow> CHR 0x00 \<notin> set (fr_path r) \<and> CHR 0x00 \<notin> set (fr_hash r) \<and>
     - (2 ^ 31) \<le> fr_version r \<and> fr_version r < 2 ^ 31"

lemma c_str_plain: "CHR 0x00 \<notin> set s \<Longrightarrow> c_str s = s"
  unfolding c_str_def by (rule takeWhile_eq_all_conv [THEN iffD2]) blast

lemma to_int32_small [simp]: "to_int32 0 = 0" "to_int32 1 = 1"
  by (simp_all add: to_int32_id)

lemma column_bind: "storable r \<Longrightarrow> column_file (bind_file r) = r"
  by (cases r) (simp add: storable_def column_file_def bind_file_def c_str_plain to_int32_id)

lemma getFile_healthy:
  "engine_healthy E \<Longrightarrow> db_open d \<Longrightarrow>
   getFile E p d = (case filter (\<lambda>w. col_path w = c_str p) (files_table (tables d)) of
     [] \<Rightarrow> None | w # _ \<Rightarrow> Some (column_file w))"
  by (simp add: getFile_def run_select_healthy)

lemma getFileChunks_healthy:
  "engine_healthy E \<Longrightarrow> db_open d \<Longrightarrow>
   getFileChunks E p d = map cr_hash (sort_key cr_chunk_index
     (filter (\<lambda>w. cr_file_path w = c_str p) (chunks_table (tables d))))"
  by (simp add: getFileChunks_def run_select_healthy)

subsection \<open>Primary keys are kept by every sequence of operations\<close>

datatype db_op =
    Op_Insert_File file_record
  | Op_Delete_File string
  | Op_Insert_Chunk string int string int int
  | Op_Update_Sync int
  | Op_Begin
  | Op_Commit
  | Op_Rollback
  | Op_Initialize

fun run_op :: "sqlite \<Rightarrow> db_op \<Rightarrow> metadata_db \<Rightarrow> bool \<times> metadata_db" where
  "run_op E (Op_Insert_File r) d = insertOrUpdateFile E r d"
| "run_op E (Op_Delete_File p) d = deleteFile E p d"
| "run_op E (Op_Insert_Chunk p i h off sz) d = insertChunk E p i h off sz d"
| "run_op E (Op_Update_Sync t) d = updateLastSyncTime E t d"
| "run_op E Op_Begin d = beginTransaction E d"
| "run_op E Op_Commit d = commit_db E d"
| "run_op E Op_Rollback d = rollback_db E d"
| "run_op E Op_Initialize d = initialize E d"

definition keys_unique :: "database \<Rightarrow> bool" where
  "keys_unique t \<longleftrightarrow> distinct (map col_path (files_table t)) \<and>
     distinct (map chunk_key (chunks_table t)) \<and> distinct (map fst (sync_table t))"

definition db_ok :: "metadata_db \<Rightarrow> bool" where
  "db_ok d \<longleftrightarrow> keys_unique (tables d) \<and> (case saved d of None \<Rightarrow> True | Some t \<Rightarrow> keys_unique t)"

lemma keys_unique_empty: "keys_unique empty_database"
  by (simp add: keys_unique_def empty_database_def)

lemma sql_effect_keys: "keys_unique t \<Longrightarrow> keys_unique (sql_effect st t)"
  by (cases st) (auto simp: keys_unique_def upsert_distinct comp_def if_distrib cong: if_cong)

lemma run_write_ok: "db_ok d \<Longrightarrow> db_ok (snd (run_write E st d))"
  by (auto simp: run_write_def db_ok_def sql_effect_keys)

lemma executeSQL_ok: "db_ok d \<Longrightarrow> db_ok (snd (executeSQL E st d))"
  using sql_effect_keys [of "tables d" st]
  by (cases st) (auto simp: executeSQL_def db_ok_def simp del: sql_effect.simps split: option.splits)

lemma initialize_ok:
  assumes "db_ok d" and "\<And>p t. opens E p = Some t \<Longrightarrow> keys_unique t"
  shows "db_ok (snd (initialize E d))"
proof (cases "opens E (c_str (db_path d))")
  case None
  with assms(1) show ?thesis by (simp add: initialize_def)
next
  case (Some t)
  have "db_ok (d\<lparr>db_open := True, tables := t\<rparr>)"
    using assms Some by (simp add: db_ok_def)
  then show ?thesis using Some by (simp add: initialize_def executeSQL_ok)
qed

lemma run_op_ok:
  assumes "db_ok d" and "\<And>p t. opens E p = Some t \<Longrightarrow> keys_unique t"
  shows "db_ok (snd (run_op E op d))"
  using assms
  by (cases op)
    (simp_all add: db_writes run_write_ok beginTransaction_def commit_db_def rollback_db_def
      executeSQL_ok initialize_ok)

definition run_ops :: "sqlite \<Rightarrow> db_op list \<Rightarrow> metadata_db \<Rightarrow> metadata_db" where
  "run_ops E ops d = foldl (\<lambda>d op. snd (run_op E op d)) d ops"

lemma run_ops_ok:
  assumes "\<And>p t. opens E p = Some t \<Longrightarrow> keys_unique t"
  shows "db_ok d \<Longrightarrow> db_ok (run_ops E ops d)"
  unfolding run_ops_def using assms by (induction ops arbitrary: d) (simp_all add: run_op_ok)

subsection \<open>Storing the chunks of a file\<close>

text \<open>A run of \<open>insertChunk\<close> for one file, as an upload makes it: index, hash and size.\<close>

definition insert_chunks :: "sqlite \<Rightarrow> string \<Rightarrow> (int \<times> string \<times> int) list \<Rightarrow> metadata_db \<Rightarrow> metadata_db" where
  "insert_chunks E p cs d = foldl (\<lambda>d (i, h, sz). snd (insertChunk E p i h 0 sz d)) d cs"

definition chunk_row_of :: "string \<Rightarrow> int \<times> string \<times> int \<Rightarrow> chunk_row" where
  "chunk_row_of p = (\<lambda>(i, h, sz). \<lparr>cr_file_path = c_str p, cr_chunk_index = i, cr_hash = c_str h,
     cr_offset = 0, cr_size = sz\<rparr>)"

lemma insertChunk_healthy:
  "engine_healthy E \<Longrightarrow> db_open d \<Longrightarrow> insertChunk E p i h 0 sz d =
    (True, d\<lparr>tables := (tables d)\<lparr>chunks_table := upsert chunk_key (chunk_row_of p (i, h, sz)) (chunks_table (tables d))\<rparr>\<rparr>)"
  by (simp add: insertChunk_def run_write_healthy chunk_row_of_def)

lemma insert_chunks_healthy:
  "engine_healthy E \<Longrightarrow> db_open d \<Longrightarrow> insert_chunks E p cs d =
    d\<lparr>tables := (tables d)\<lparr>chunks_table :=
        foldl (\<lambda>rs r. upsert chunk_key r rs) (chunks_table (tables d)) (map (chunk_row_of p) cs)\<rparr>\<rparr>"
  unfolding insert_chunks_def
  by (induction cs arbitrary: d) (auto simp: insertChunk_healthy)

lemma chunk_row_of_fields [simp]:
  "cr_file_path (chunk_row_of p c) = c_str p" "cr_chunk_index (chunk_row_of p c) = fst c"
  "cr_hash (chunk_row_of p c) = c_str (fst (snd c))"
  by (cases c; simp add: chunk_row_of_def)+

lemma chunk_key_row [simp]: "chunk_key (chunk_row_of p c) = (c_str p, fst c)"
  by (simp add: chunk_key_def)

lemma distinct_chunk_keys: "distinct (map fst cs) \<Longrightarrow> distinct (map chunk_key (map (chunk_row_of p) cs))"
  by (auto simp: distinct_map comp_def inj_on_def)

text \<open>The rows of the file afterwards: the new ones, and the old ones whose index was not written.\<close>

lemma insert_chunks_rows:
  assumes "engine_healthy E" and "db_open d" and "db_ok d" and "distinct (map fst cs)"
  shows "mset (filter (\<lambda>w. cr_file_path w = c_str p) (chunks_table (tables (insert_chunks E p cs d)))) =
    mset (filter (\<lambda>w. cr_file_path w = c_str p \<and> cr_chunk_index w \<notin> fst ` set cs) (chunks_table (tables d))
      @ map (chunk_row_of p) cs)"
proof -
  let ?rows = "chunks_table (tables d)" and ?ws = "map (chunk_row_of p) cs"
  have "distinct (map chunk_key ?rows)"
    using assms(3) by (simp add: db_ok_def keys_unique_def)
  then have "mset (foldl (\<lambda>rs r. upsert chunk_key r rs) ?rows ?ws) =
      mset (filter (\<lambda>x. chunk_key x \<notin> chunk_key ` set ?ws) ?rows @ ?ws)"
    by (rule chunks_pk.put_all_mset [OF _ distinct_chunk_keys [OF assms(4)]])
  then have "mset (filter (\<lambda>w. cr_file_path w = c_str p) (foldl (\<lambda>rs r. upsert chunk_key r rs) ?rows ?ws)) =
      mset (filter (\<lambda>w. cr_file_path w = c_str p) (filter (\<lambda>x. chunk_key x \<notin> chunk_key ` set ?ws) ?rows @ ?ws))"
    unfolding mset_filter by simp
  also have "filter (\<lambda>w. cr_file_path w = c_str p) (filter (\<lambda>x. chunk_key x \<notin> chunk_key ` set ?ws) ?rows @ ?ws) =
      filter (\<lambda>w. cr_file_path w = c_str p \<and> cr_chunk_index w \<notin> fst ` set cs) ?rows @ ?ws"
    by (auto simp: image_iff chunk_key_def filter_map comp_def intro!: filter_cong)
  finally show ?thesis
    by (simp add: insert_chunks_healthy [OF assms(1,2)])
qed

lemma insert_chunks_open: "engine_healthy E \<Longrightarrow> db_open d \<Longrightarrow> db_open (insert_chunks E p cs d)"
  by (simp add: insert_chunks_healthy)

lemma sort_new_rows:
  assumes "distinct (map fst cs)" and "mset rows = mset (map (chunk_row_of p) cs)"
  shows "sort_key cr_chunk_index rows = map (chunk_row_of p) (sort_key fst cs)"
proof (rule sort_key_inj_key_eq)
  show "mset rows = mset (map (chunk_row_of p) (sort_key fst cs))"
    using assms(2) by (simp flip: mset_map) simp
  have "set rows = chunk_row_of p ` set cs"
    using arg_cong [OF assms(2), of set_mset] by simp
  then show "inj_on cr_chunk_index (set rows)"
    using assms(1) by (auto simp: inj_on_def distinct_map)
  show "sorted (map cr_chunk_index (map (chunk_row_of p) (sort_key fst cs)))"
    by (simp add: comp_def)
qed

lemma insert_chunks_fresh:
  assumes "engine_healthy E" and "db_open d" and "db_ok d" and "distinct (map fst cs)"
    and "getFileChunks E p d = []"
  shows "getFileChunks E p (insert_chunks E p cs d) = map (\<lambda>c. c_str (fst (snd c))) (sort_key fst cs)"
proof -
  have "filter (\<lambda>w. cr_file_path w = c_str p) (chunks_table (tables d)) = []"
    using assms(5) unfolding getFileChunks_healthy [OF assms(1,2)]
    by (metis length_0_conv length_map length_sort)
  then have "filter (\<lambda>w. cr_file_path w = c_str p \<and> cr_chunk_index w \<notin> fst ` set cs) (chunks_table (tables d)) = []"
    by (auto simp: filter_empty_conv)
  then have "mset (filter (\<lambda>w. cr_file_path w = c_str p) (chunks_table (tables (insert_chunks E p cs d)))) =
      mset (map (chunk_row_of p) cs)"
    using insert_chunks_rows [OF assms(1-4), of p] by simp
  then show ?thesis
    unfolding getFileChunks_healthy [OF assms(1) insert_chunks_open [OF assms(1,2)]]
    by (subst sort_new_rows [OF assms(4)]) simp_all
qed

text \<open>Storing a chunk never makes the list of a file's chunks shorter: nothing removes a row.\<close>

lemma upsert_length:
  assumes "distinct (map key rows)" and "\<And>x. key x = key r \<Longrightarrow> P x = P r"
  shows "length (filter P rows) \<le> length (filter P (upsert key r rows))"
  using assms(1)
proof (induction rows)
  case Nil
  then show ?case by simp
next
  case (Cons x rows)
  then show ?case
  proof (cases "key x = key r")
    case True
    with Cons.prems have "filter (\<lambda>y. key y \<noteq> key r) rows = rows"
      by (intro filter_True) (metis distinct.simps(2) image_eqI list.map(2) set_map)
    then show ?thesis using assms(2) [OF True] True by (simp add: upsert_def)
  next
    case False
    with Cons show ?thesis by (auto simp: upsert_def)
  qed
qed

lemma insertChunk_rows:
  assumes "engine_healthy E" and "db_open d" and "db_ok d"
  shows "length (getFileChunks E p d) \<le> length (getFileChunks E p (snd (insertChunk E f j k 0 sz d)))"
  using assms upsert_length [of chunk_key "chunks_table (tables d)" "chunk_row_of f (j, k, sz)" "\<lambda>w. cr_file_path w = c_str p"]
  by (simp add: insertChunk_healthy getFileChunks_healthy db_ok_def keys_unique_def chunk_key_def [of "x :: chunk_row" for x]
      del: chunk_key_row)

lemma sort_by_index:
  "distinct (map fst cs) \<Longrightarrow> mset cs = mset cs' \<Longrightarrow> sorted (map fst cs') \<Longrightarrow> sort_key fst cs = cs'"
  by (rule sort_key_inj_key_eq) (simp_all add: distinct_map)

lemma getFile_insert:
  assumes "engine_healthy E" and "db_open d" and "storable r"
  shows "insertOrUpdateFile E r d = (True, d\<lparr>tables := sql_effect (Insert_File (bind_file r)) (tables d)\<rparr>)"
    and "getFile E (fr_path r) (snd (insertOrUpdateFile E r d)) = Some r"
proof -
  have k: "col_path (bind_file r) = c_str (fr_path r)" by (simp add: bind_file_def)
  show w: "insertOrUpdateFile E r d = (True, d\<lparr>tables := sql_effect (Insert_File (bind_file r)) (tables d)\<rparr>)"
    by (simp add: insertOrUpdateFile_def run_write_healthy [OF assms(1,2)])
  show "getFile E (fr_path r) (snd (insertOrUpdateFile E r d)) = Some r"
    using assms files_pk.put_select_same [of "bind_file r" "files_table (tables d)"]
    by (simp add: w getFile_healthy k column_bind)
qed

lemma getAllFiles_healthy:
  "engine_healthy E \<Longrightarrow> db_open d \<Longrightarrow>
   getAllFiles E d = map column_file (scan E (filter (\<lambda>w. col_deleted w = 0) (files_table (tables d))))"
  by (simp add: getAllFiles_def run_select_healthy)

lemma column_path [simp]: "fr_path (column_file w) = col_path w"
  by (simp add: column_file_def)

lemma scanned_paths_distinct:
  "distinct (map col_path rows) \<Longrightarrow> scan_documented E \<Longrightarrow> distinct (map fr_path (map column_file (scan E (filter Q rows))))"
proof -
  assume d: "distinct (map col_path rows)" and E: "scan_documented E"
  have "mset (map col_path (scan E (filter Q rows))) = mset (map col_path (filter Q rows))"
    using E by (simp add: scan_documented_def)
  then have "distinct (map col_path (scan E (filter Q rows)))"
    using distinct_map_filter [OF d] by (metis mset_eq_imp_distinct_iff)
  then show ?thesis by (simp add: comp_def)
qed

lemma getAllFiles_distinct:
  "engine_healthy E \<Longrightarrow> scan_documented E \<Longrightarrow> db_open d \<Longrightarrow> db_ok d \<Longrightarrow> distinct (map fr_path (getAllFiles E d))"
  using scanned_paths_distinct [of "files_table (tables d)" E] by (simp add: getAllFiles_healthy db_ok_def keys_unique_def)

lemma deleted_not_listed:
  assumes "engine_healthy E" and "scan_documented E" and "db_open d"
    and "r \<in> set (getAllFiles E (snd (deleteFile E p d)))"
  shows "fr_path r \<noteq> c_str p"
proof -
  have "db_open (snd (deleteFile E p d))" using assms(3) by (simp add: deleteFile_def run_write_def)
  with assms show ?thesis
    by (auto simp: getAllFiles_healthy scan_set deleteFile_def run_write_healthy split: if_splits)
qed

lemma inserted_is_listed:
  assumes "engine_healthy E" and "scan_documented E" and "db_open d" and "storable r" and "\<not> fr_deleted r"
  shows "r \<in> set (getAllFiles E (snd (insertOrUpdateFile E r d)))"
proof -
  let ?d = "snd (insertOrUpdateFile E r d)"
  have d: "?d = d\<lparr>tables := sql_effect (Insert_File (bind_file r)) (tables d)\<rparr>"
    using getFile_insert(1) [OF assms(1,3,4)] by simp
  have "bind_file r \<in> set (files_table (tables ?d))"
    by (simp add: d files_pk.put_set)
  then have "bind_file r \<in> set (scan E (filter (\<lambda>w. col_deleted w = 0) (files_table (tables ?d))))"
    using assms(5) by (simp add: scan_set [OF assms(2)] bind_file_def)
  moreover have "db_open ?d" using assms(3) by (simp add: d)
  ultimately show ?thesis
    using column_bind [OF assms(4)] by (force simp: getAllFiles_healthy [OF assms(1)])
qed

subsection \<open>Transactions\<close>

text \<open>The operations that a transaction may surround.\<close>

fun plain_op :: "db_op \<Rightarrow> bool" where
  "plain_op (Op_Insert_File r) = True"
| "plain_op (Op_Delete_File p) = True"
| "plain_op (Op_Insert_Chunk p i h off sz) = True"
| "plain_op (Op_Update_Sync t) = True"
| "plain_op _ = False"

lemma run_write_frame:
  "db_open (snd (run_write E st d)) = db_open d" "saved (snd (run_write E st d)) = saved d"
  by (simp_all add: run_write_def)

lemma run_write_saved: "run_write E st (d\<lparr>saved := s\<rparr>) =
    (fst (run_write E st d), (snd (run_write E st d))\<lparr>saved := s\<rparr>)"
  by (simp add: run_write_def)

lemma plain_op_frame:
  "plain_op op \<Longrightarrow> db_open (snd (run_op E op d)) = db_open d \<and> saved (snd (run_op E op d)) = saved d"
  by (cases op) (simp_all add: db_writes run_write_frame)

lemma plain_op_saved:
  "plain_op op \<Longrightarrow> snd (run_op E op (d\<lparr>saved := s\<rparr>)) = (snd (run_op E op d))\<lparr>saved := s\<rparr>"
  by (cases op) (simp_all add: db_writes run_write_saved)

lemma run_ops_frame:
  "\<forall>op \<in> set ops. plain_op op \<Longrightarrow>
   db_open (run_ops E ops d) = db_open d \<and> saved (run_ops E ops d) = saved d"
  unfolding run_ops_def by (induction ops arbitrary: d) (simp_all add: plain_op_frame)

lemma run_ops_saved:
  "\<forall>op \<in> set ops. plain_op op \<Longrightarrow> run_ops E ops (d\<lparr>saved := s\<rparr>) = (run_ops E ops d)\<lparr>saved := s\<rparr>"
  unfolding run_ops_def by (induction ops arbitrary: d) (simp_all add: plain_op_saved)

lemma run_write_path: "db_path (snd (run_write E st d)) = db_path d"
  by (simp add: run_write_def)

lemma run_ops_path: "\<forall>op \<in> set ops. plain_op op \<Longrightarrow> db_path (run_ops E ops d) = db_path d"
proof -
  have "plain_op op \<Longrightarrow> db_path (snd (run_op E op d)) = db_path d" for op d
    by (cases op) (simp_all add: db_writes run_write_path)
  then show "\<forall>op \<in> set ops. plain_op op \<Longrightarrow> db_path (run_ops E ops d) = db_path d"
    unfolding run_ops_def by (induction ops arbitrary: d) simp_all
qed

lemma transaction_healthy:
  assumes "engine_healthy E" and "db_open d"
  shows "executeSQL E Begin_Transaction d =
      (case saved d of None \<Rightarrow> (True, d\<lparr>saved := Some (tables d)\<rparr>) | Some _ \<Rightarrow> (False, d))"
    and "executeSQL E Commit_Transaction d =
      (case saved d of None \<Rightarrow> (False, d) | Some _ \<Rightarrow> (True, d\<lparr>saved := None\<rparr>))"
    and "executeSQL E Rollback_Transaction d =
      (case saved d of None \<Rightarrow> (False, d) | Some t \<Rightarrow> (True, d\<lparr>tables := t, saved := None\<rparr>))"
  using assms by (simp_all add: executeSQL_def engine_healthy_def)

lemma db_eq_iff:
  "d = (d' :: metadata_db) \<longleftrightarrow> db_path d = db_path d' \<and> db_open d = db_open d' \<and> tables d = tables d' \<and> saved d = saved d'"
  by (cases d; cases d') simp

subsection \<open>Properties\<close>

text \<open>The engine of the witnesses.\<close>

definition plain_engine :: sqlite where
  "plain_engine = \<lparr>opens = (\<lambda>_. Some empty_database), prepares = (\<lambda>_ _. True),
     completes = (\<lambda>_ _. True), scan = (\<lambda>rows. rows), fails_after = (\<lambda>_ _. None)\<rparr>"

lemma plain_engine_healthy: "engine_healthy plain_engine"
  by (simp add: engine_healthy_def plain_engine_def)

lemma plain_engine_scan: "scan_documented plain_engine"
  by (simp add: scan_documented_def plain_engine_def)

definition open_empty :: metadata_db where
  "open_empty = \<lparr>db_path = ''m.db'', db_open = True, tables = empty_database, saved = None\<rparr>"

lemma open_empty_simps [simp]:
  "db_open open_empty" "saved open_empty = None" "tables open_empty = empty_database"
  "files_table empty_database = []" "chunks_table empty_database = []" "sync_table empty_database = []"
  by (simp_all add: open_empty_def empty_database_def)

lemma open_empty_ok: "db_ok open_empty"
  by (simp add: db_ok_def keys_unique_empty)

text \<open>A record that was stored comes back from \<open>getFile\<close> with every field as it was stored,
  through the column types and the C strings, and storing it changes what \<open>getFile\<close> says of no
  other path.\<close>

theorem insert_then_get:
  assumes "engine_healthy E" and "db_open d" and "storable r"
  shows "fst (insertOrUpdateFile E r d) \<and>
    getFile E (fr_path r) (snd (insertOrUpdateFile E r d)) = Some r \<and>
    (\<forall>p. c_str p \<noteq> c_str (fr_path r) \<longrightarrow>
       getFile E p (snd (insertOrUpdateFile E r d)) = getFile E p d)"
proof -
  let ?w = "bind_file r"
  note w = getFile_insert [OF assms]
  have k: "col_path ?w = c_str (fr_path r)" by (simp add: bind_file_def)
  have other: "filter (\<lambda>x. col_path x = c_str p) (upsert col_path ?w (files_table (tables d))) =
      filter (\<lambda>x. col_path x = c_str p) (files_table (tables d))" if "c_str p \<noteq> c_str (fr_path r)" for p
    using that by (intro files_pk.put_select) (simp add: k)
  show ?thesis
    using w assms by (simp add: getFile_healthy other)
qed

theorem insert_then_get_witness:
  "getFile plain_engine ''a.txt'' (snd (insertOrUpdateFile plain_engine
      \<lparr>fr_path = ''a.txt'', fr_size = 3, fr_modified_time = 9, fr_hash = ''ff'', fr_version = 1,
       fr_is_directory = False, fr_deleted = False, fr_last_sync_time = 0\<rparr> open_empty)) =
    Some \<lparr>fr_path = ''a.txt'', fr_size = 3, fr_modified_time = 9, fr_hash = ''ff'', fr_version = 1,
       fr_is_directory = False, fr_deleted = False, fr_last_sync_time = 0\<rparr>"
  using insert_then_get [OF plain_engine_healthy, of open_empty
      "\<lparr>fr_path = ''a.txt'', fr_size = 3, fr_modified_time = 9, fr_hash = ''ff'', fr_version = 1,
       fr_is_directory = False, fr_deleted = False, fr_last_sync_time = 0\<rparr>"]
  by (simp add: storable_def)

text \<open>From a fresh object, any sequence of operations on any engine, with calls that fail at any
  point, transactions and reopening included, leaves at most one row for each path, for each chunk index
  of a file and for each synchronisation key, in the tables and in what an open transaction would go back to.\<close>

theorem primary_keys_invariant:
  assumes "\<forall>p t. opens E p = Some t \<longrightarrow> keys_unique t"
  shows "db_ok (run_ops E ops (MetadataDB p))"
proof (rule run_ops_ok)
  show "keys_unique t" if "opens E q = Some t" for q t
    using assms that by blast
  show "db_ok (MetadataDB p)"
    by (simp add: db_ok_def MetadataDB_def keys_unique_empty)
qed

theorem primary_keys_invariant_witness:
  "db_ok (run_ops plain_engine [Op_Initialize, Op_Begin, Op_Insert_Chunk ''f'' 0 ''ab'' 0 1,
     Op_Insert_Chunk ''f'' 0 ''cd'' 0 1, Op_Rollback] (MetadataDB ''m.db''))"
  by (rule primary_keys_invariant) (simp add: plain_engine_def keys_unique_empty)

text \<open>Chunks may arrive in any order: once a file without chunks has received chunks with distinct
  indices, \<open>getFileChunks\<close> lists their hashes by increasing index.\<close>

theorem chunks_listed_by_index:
  assumes "engine_healthy E" and "db_open d" and "db_ok d"
    and "distinct (map fst cs)" and "getFileChunks E p d = []"
    and "mset cs = mset cs'" and "sorted (map fst cs')"
  shows "getFileChunks E p (insert_chunks E p cs d) = map (\<lambda>c. c_str (fst (snd c))) cs'"
  using assms(4,6,7) by (simp add: insert_chunks_fresh [OF assms(1-5)] sort_by_index)

theorem chunks_listed_by_index_witness:
  "getFileChunks plain_engine ''f'' (insert_chunks plain_engine ''f''
     [(2, ''cc'', 5), (0, ''aa'', 5), (1, ''bb'', 5)] open_empty) = [''aa'', ''bb'', ''cc'']"
proof -
  have "getFileChunks plain_engine ''f'' (insert_chunks plain_engine ''f''
      [(2, ''cc'', 5), (0, ''aa'', 5), (1, ''bb'', 5)] open_empty) =
    map (\<lambda>c. c_str (fst (snd c))) [(0::int, ''aa'', 5::int), (1, ''bb'', 5), (2, ''cc'', 5)]"
    by (rule chunks_listed_by_index [OF plain_engine_healthy _ open_empty_ok])
      (simp_all add: getFileChunks_healthy plain_engine_healthy)
  then show ?thesis by (simp add: c_str_def)
qed

text \<open>Deleting is soft: the record keeps all its fields but the flag, stays visible to
  \<open>getFile\<close> and leaves \<open>getAllFiles\<close>, which otherwise lists the same records; deleting
  an unknown path succeeds and changes nothing.\<close>

theorem delete_is_soft:
  assumes "engine_healthy E" and "scan_documented E" and "db_open d"
  shows "let (ok, d') = deleteFile E p d in
    ok \<and> (\<forall>q. getFile E q d' =
        (if c_str q = c_str p then map_option (\<lambda>r. r\<lparr>fr_deleted := True\<rparr>) (getFile E q d) else getFile E q d)) \<and>
    set (getAllFiles E d') = {r \<in> set (getAllFiles E d). fr_path r \<noteq> c_str p}"
proof -
  define mark where "mark = (\<lambda>w :: file_row. if col_path w = c_str p then w\<lparr>col_deleted := 1\<rparr> else w)"
  have path: "col_path (mark w) = col_path w" for w by (simp add: mark_def)
  have del: "deleteFile E p d =
      (True, d\<lparr>tables := (tables d)\<lparr>files_table := map mark (files_table (tables d))\<rparr>\<rparr>)"
    by (simp add: deleteFile_def run_write_healthy [OF assms(1,3)] mark_def)
  have col: "column_file (mark w) =
      (if col_path w = c_str p then (column_file w)\<lparr>fr_deleted := True\<rparr> else column_file w)" for w
    by (simp add: mark_def column_file_def)
  have sel: "filter (\<lambda>w. col_path w = k) (map mark ws) = map mark (filter (\<lambda>w. col_path w = k) ws)" for k ws
    by (simp add: filter_map comp_def path)
  have get: "getFile E q (snd (deleteFile E p d)) =
      (if c_str q = c_str p then map_option (\<lambda>r. r\<lparr>fr_deleted := True\<rparr>) (getFile E q d) else getFile E q d)" for q
  proof (cases "filter (\<lambda>w. col_path w = c_str q) (files_table (tables d))")
    case Nil
    then show ?thesis
      using assms by (cases "c_str q = c_str p") (simp_all add: del getFile_healthy sel)
  next
    case (Cons w ws)
    then have "col_path w = c_str q"
      by (metis (mono_tags) filter_eq_Cons_iff)
    with Cons show ?thesis
      using assms by (cases "c_str q = c_str p") (simp_all add: del getFile_healthy sel col)
  qed
  have all: "set (getAllFiles E x) = column_file ` {w \<in> set (files_table (tables x)). col_deleted w = 0}"
    if "db_open x" for x
    using assms that by (simp add: getAllFiles_def run_select_healthy scan_set)
  have "set (getAllFiles E (snd (deleteFile E p d))) = {r \<in> set (getAllFiles E d). fr_path r \<noteq> c_str p}"
    using assms(3) unfolding all [OF assms(3)]
    by (subst all) (auto simp: del mark_def column_file_def image_iff split: if_splits)
  with get show ?thesis by (simp add: del Let_def)
qed

theorem delete_is_soft_witness:
  "let (ok, d') = deleteFile plain_engine ''f'' open_empty in
    ok \<and> set (getAllFiles plain_engine d') = {r \<in> set (getAllFiles plain_engine open_empty). fr_path r \<noteq> c_str ''f''}"
  using delete_is_soft [OF plain_engine_healthy plain_engine_scan, of open_empty "''f''"] by auto

text \<open>An operation that reports failure has changed nothing, whatever the engine did; the exception
  is \<open>initialize\<close>, which may have opened the file before its script failed.\<close>

theorem failed_operation_changes_nothing:
  assumes "\<not> fst (run_op E op d)" and "op \<noteq> Op_Initialize"
  shows "snd (run_op E op d) = d"
  using assms
  by (cases op)
    (auto simp: db_writes run_write_cases(2) beginTransaction_def commit_db_def rollback_db_def
      executeSQL_def split: option.splits if_splits)

theorem failed_operation_changes_nothing_witness:
  "snd (run_op plain_engine Op_Commit open_empty) = open_empty"
  by (rule failed_operation_changes_nothing)
    (simp_all add: commit_db_def executeSQL_def plain_engine_def)

text \<open>C18: a transaction is all or nothing: if its scope ends without a commit the database is exactly
  as before, and if it is committed, the destructor does nothing and the result is that of the operations
  run without a transaction.\<close>

theorem transaction_all_or_nothing:
  assumes "engine_healthy E" and "db_open d" and "saved d = None" and "\<forall>op \<in> set ops. plain_op op"
  shows "let (tx, d1) = Transaction E d; d2 = run_ops E ops d1; (ok, tx', d3) = commit_transaction E tx d2 in
    destroy_transaction E tx d2 = d \<and> ok \<and> destroy_transaction E tx' d3 = run_ops E ops d"
proof -
  have start: "Transaction E d = (\<lparr>committed = False\<rparr>, d\<lparr>saved := Some (tables d)\<rparr>)"
    using assms by (simp add: Transaction_def beginTransaction_def transaction_healthy)
  define d2 where "d2 = run_ops E ops (d\<lparr>saved := Some (tables d)\<rparr>)"
  have d2: "d2 = (run_ops E ops d)\<lparr>saved := Some (tables d)\<rparr>"
    unfolding d2_def using assms(4) by (rule run_ops_saved)
  have frame: "db_open (run_ops E ops d)" "saved (run_ops E ops d) = None" "db_path (run_ops E ops d) = db_path d"
    using run_ops_frame [OF assms(4), of E d] run_ops_path [OF assms(4), of E d] assms(2,3) by simp_all
  have op2: "db_open d2" "saved d2 = Some (tables d)" by (simp_all add: d2 frame)
  have "destroy_transaction E \<lparr>committed = False\<rparr> d2 = d"
    using assms op2 by (simp add: destroy_transaction_def rollback_db_def transaction_healthy db_eq_iff)
      (simp add: d2 frame)
  moreover have "commit_transaction E \<lparr>committed = False\<rparr> d2 = (True, \<lparr>committed = True\<rparr>, d2\<lparr>saved := None\<rparr>)"
    using assms op2 by (simp add: commit_transaction_def commit_db_def transaction_healthy)
  moreover have "d2\<lparr>saved := None\<rparr> = run_ops E ops d"
    by (simp add: d2 db_eq_iff frame)
  ultimately show ?thesis
    by (simp add: start d2_def [symmetric] destroy_transaction_def)
qed

theorem transaction_all_or_nothing_witness:
  "let (tx, d1) = Transaction plain_engine open_empty;
       d2 = run_ops plain_engine [Op_Insert_Chunk ''f'' 0 ''ab'' 0 1, Op_Update_Sync 7] d1;
       (ok, tx', d3) = commit_transaction plain_engine tx d2 in
    destroy_transaction plain_engine tx d2 = open_empty \<and> ok \<and>
    destroy_transaction plain_engine tx' d3 =
      run_ops plain_engine [Op_Insert_Chunk ''f'' 0 ''ab'' 0 1, Op_Update_Sync 7] open_empty"
  by (rule transaction_all_or_nothing [OF plain_engine_healthy]) simp_all

text \<open>A connection destroyed in the middle of a transaction leaves in its file what was there before it, and one
  destroyed outside of a transaction what was written.\<close>

theorem destroyed_connection_rolls_back:
  assumes "engine_healthy E" and "db_open d" and "saved d = None" and "\<forall>op \<in> set ops. plain_op op"
  shows "destroy_db (run_ops E ops (snd (Transaction E d))) = d\<lparr>db_open := False\<rparr> \<and>
    tables (destroy_db (run_ops E ops d)) = tables (run_ops E ops d)"
proof -
  have start: "snd (Transaction E d) = d\<lparr>saved := Some (tables d)\<rparr>"
    using assms by (simp add: Transaction_def beginTransaction_def transaction_healthy)
  have "run_ops E ops (d\<lparr>saved := Some (tables d)\<rparr>) = (run_ops E ops d)\<lparr>saved := Some (tables d)\<rparr>"
    using assms(4) by (rule run_ops_saved)
  then show ?thesis
    using run_ops_frame [OF assms(4), of E d] run_ops_path [OF assms(4), of E d] assms(2,3)
    by (simp add: start destroy_db_def db_eq_iff)
qed

theorem destroyed_connection_rolls_back_witness:
  "tables (destroy_db (run_ops plain_engine [Op_Update_Sync 7] (snd (Transaction plain_engine open_empty)))) = tables open_empty"
  using destroyed_connection_rolls_back [OF plain_engine_healthy, of open_empty "[Op_Update_Sync 7]"] by simp

text \<open>Transactions do not nest: the constructor ignores that \<open>BEGIN\<close> failed, so an inner
  transaction that ends without a commit rolls the outer one back, all of the outer work is lost, and
  the outer commit then fails.\<close>

theorem nested_transaction_loses_outer_work:
  assumes "engine_healthy E" and "db_open d" and "saved d = None" and "\<forall>op \<in> set ops. plain_op op"
  shows "let (outer, d1) = Transaction E d; d2 = run_ops E ops d1; (inner, d3) = Transaction E d2;
      d4 = destroy_transaction E inner d3; (ok, outer', d5) = commit_transaction E outer d4 in
    d4 = d \<and> \<not> ok \<and> d5 = d"
proof -
  have start: "Transaction E d = (\<lparr>committed = False\<rparr>, d\<lparr>saved := Some (tables d)\<rparr>)"
    using assms by (simp add: Transaction_def beginTransaction_def transaction_healthy)
  define d2 where "d2 = run_ops E ops (d\<lparr>saved := Some (tables d)\<rparr>)"
  have d2: "db_open d2" "saved d2 = Some (tables d)" "db_path d2 = db_path d"
    using run_ops_frame [OF assms(4), of E] run_ops_path [OF assms(4), of E] assms(2)
    by (simp_all add: d2_def)
  have inner: "Transaction E d2 = (\<lparr>committed = False\<rparr>, d2)"
    using assms d2 by (simp add: Transaction_def beginTransaction_def transaction_healthy)
  have "destroy_transaction E \<lparr>committed = False\<rparr> d2 = d"
    using assms d2 by (simp add: destroy_transaction_def rollback_db_def transaction_healthy db_eq_iff)
  moreover have "commit_transaction E \<lparr>committed = False\<rparr> d = (False, \<lparr>committed = False\<rparr>, d)"
    using assms by (simp add: commit_transaction_def commit_db_def transaction_healthy)
  ultimately show ?thesis
    by (simp add: start d2_def [symmetric] inner)
qed

theorem nested_transaction_loses_outer_work_witness:
  "let (outer, d1) = Transaction plain_engine open_empty;
      d2 = run_ops plain_engine [Op_Update_Sync 7] d1; (inner, d3) = Transaction plain_engine d2;
      d4 = destroy_transaction plain_engine inner d3;
      (ok, outer', d5) = commit_transaction plain_engine outer d4 in
    d4 = open_empty \<and> \<not> ok \<and> d5 = open_empty"
  by (rule nested_transaction_loses_outer_work [OF plain_engine_healthy]) simp_all

text \<open>The last synchronisation time reads back as it was written, is 0 before the first write, and
  is not touched by operations on files and chunks.\<close>

theorem last_sync_time_roundtrip:
  assumes "engine_healthy E" and "db_open d"
  shows "getLastSyncTime E (snd (updateLastSyncTime E t d)) = t \<and>
    (sync_table (tables d) = [] \<longrightarrow> getLastSyncTime E d = 0) \<and>
    getLastSyncTime E (snd (insertOrUpdateFile E r d)) = getLastSyncTime E d \<and>
    getLastSyncTime E (snd (insertChunk E p i h off sz d)) = getLastSyncTime E d"
  using assms sync_pk.put_select_same [of "(last_sync_key, t)" "sync_table (tables d)"]
  by (simp add: getLastSyncTime_def updateLastSyncTime_def insertOrUpdateFile_def insertChunk_def
      run_write_healthy run_select_healthy)

theorem last_sync_time_roundtrip_witness:
  "getLastSyncTime plain_engine (snd (updateLastSyncTime plain_engine 1700000000 open_empty)) = 1700000000"
  using last_sync_time_roundtrip [OF plain_engine_healthy, of open_empty 1700000000] by simp

end
