(* ===== verification/Storage_Manager.thy ===== *)
theory Storage_Manager
  imports Hashing Metadata_DB
begin

text \<open>
  \<open>include/server/storage_manager.h\<close> and \<open>src/server/storage_manager.cpp\<close>: the
  content-addressed chunk store and the per-client databases.

  The object is the record \<open>storage\<close>; the file system it writes to is the field
  \<open>disk\<close>. Every method is a function from the state to a result and the state after it;
  a result is either the exception that leaves the method (\<open>create_directories\<close> and
  \<open>file_size\<close> throw) or its value. The mutex of \<open>getClientDB\<close> makes the lookup
  atomic and has no other effect; log lines are not recorded here.
\<close>

subsection \<open>State, exceptions, sequencing\<close>

record storage =
  storage_root :: string
  client_dbs :: "string \<Rightarrow> metadata_db option"
  disk :: store

datatype fs_exception = Filesystem_Error

type_synonym 'a action = "storage \<Rightarrow> (fs_exception + 'a) \<times> storage"

text \<open>The host, the SQL engine and OpenSSL: what the code calls and does not contain.\<close>

record 'c env =
  env_host :: host
  env_engine :: sqlite
  env_sha :: "'c sha_api"

definition ret :: "'a \<Rightarrow> 'a action" where
  "ret x st = (Inr x, st)"

definition seq :: "'a action \<Rightarrow> ('a \<Rightarrow> 'b action) \<Rightarrow> 'b action" where
  "seq m f st = (case m st of (Inl e, st') \<Rightarrow> (Inl e, st') | (Inr x, st') \<Rightarrow> f x st')"

definition make_directories :: "'c env \<Rightarrow> string \<Rightarrow> unit action" where
  "make_directories env s st =
     (case create_directories (env_host env) (disk st) s of
        None \<Rightarrow> (Inl Filesystem_Error, st)
      | Some fs \<Rightarrow> (Inr (), st\<lparr>disk := fs\<rparr>))"

subsection \<open>Paths\<close>

definition StorageManager :: "string \<Rightarrow> store \<Rightarrow> storage" where
  "StorageManager dir fs = \<lparr>storage_root = dir, client_dbs = (\<lambda>_. None), disk = fs\<rparr>"

definition initialize_storage :: "'c env \<Rightarrow> bool action" where
  "initialize_storage env st =
     seq (make_directories env (storage_root st))
       (\<lambda>_. seq (make_directories env (storage_root st @ ''/chunks''))
         (\<lambda>_. ret True)) st"

definition getChunkPath :: "'c env \<Rightarrow> string \<Rightarrow> string action" where
  "getChunkPath env hash st =
     (let subdir = take 2 hash;
          path = storage_root st @ ''/chunks/'' @ subdir
      in seq (make_directories env path) (\<lambda>_. ret (path @ ''/'' @ hash)) st)"

definition getClientStoragePath :: "'c env \<Rightarrow> string \<Rightarrow> string action" where
  "getClientStoragePath env client_id st =
     (let path = storage_root st @ ''/clients/'' @ client_id
      in seq (make_directories env path) (\<lambda>_. ret path) st)"

definition getTempFilePath :: "'c env \<Rightarrow> string \<Rightarrow> string \<Rightarrow> string action" where
  "getTempFilePath env client_id filepath =
     seq (getClientStoragePath env client_id) (\<lambda>p. ret (p @ ''/'' @ filepath))"

subsection \<open>The database of a client\<close>

text \<open>The returned pointer is the value; \<open>put_client_db\<close> is an update through it.\<close>

definition put_client_db :: "string \<Rightarrow> metadata_db \<Rightarrow> unit action" where
  "put_client_db client_id d st = (Inr (), st\<lparr>client_dbs := (client_dbs st)(client_id \<mapsto> d)\<rparr>)"

definition getClientDB :: "'c env \<Rightarrow> string \<Rightarrow> metadata_db option action" where
  "getClientDB env client_id st =
     (case client_dbs st client_id of
        Some d \<Rightarrow> (Inr (Some d), st)
      | None \<Rightarrow>
          seq (getClientStoragePath env client_id)
            (\<lambda>p. case initialize (env_engine env) (MetadataDB (p @ ''/metadata.db'')) of
               (False, _) \<Rightarrow> ret None
             | (True, d) \<Rightarrow> seq (put_client_db client_id d) (\<lambda>_. ret (Some d))) st)"

subsection \<open>Chunks\<close>

text \<open>The first half of \<open>storeChunk\<close>: write the chunk file unless it exists.\<close>

definition write_chunk_file :: "'c env \<Rightarrow> string \<Rightarrow> bytes \<Rightarrow> bool action" where
  "write_chunk_file env hash data =
     seq (getChunkPath env hash)
       (\<lambda>chunk_path st.
          if path_exists (env_host env) (disk st) chunk_path then (Inr True, st)
          else case open_out (env_host env) (disk st) chunk_path of
              None \<Rightarrow> (Inr False, st)
            | Some fs \<Rightarrow>
                (Inr True, st\<lparr>disk := stream_write (env_host env) fs chunk_path data\<rparr>))"

definition storeChunk ::
  "'c env \<Rightarrow> string \<Rightarrow> string \<Rightarrow> int \<Rightarrow> bytes \<Rightarrow> string \<Rightarrow> bool action" where
  "storeChunk env client_id filepath chunk_index data hash =
     seq (write_chunk_file env hash data)
       (\<lambda>written. if \<not> written then ret False
         else seq (getClientDB env client_id)
           (\<lambda>db. case db of
              None \<Rightarrow> ret False
            | Some d \<Rightarrow>
                (case insertChunk (env_engine env) filepath chunk_index hash 0
                        (to_int32 (int (length data))) d of
                   (ok, d') \<Rightarrow> seq (put_client_db client_id d') (\<lambda>_. ret ok))))"

definition getChunk :: "'c env \<Rightarrow> string \<Rightarrow> bytes action" where
  "getChunk env hash =
     seq (getChunkPath env hash)
       (\<lambda>chunk_path st.
          case read_file (env_host env) (disk st) chunk_path of
            None \<Rightarrow> (Inr [], st)
          | Some data \<Rightarrow> (Inr data, st))"

definition hasStoredChunk :: "'c env \<Rightarrow> string \<Rightarrow> bool action" where
  "hasStoredChunk env hash =
     seq (getChunkPath env hash)
       (\<lambda>chunk_path st. (Inr (path_exists (env_host env) (disk st) chunk_path), st))"

subsection \<open>Files\<close>

definition write_temp :: "'c env \<Rightarrow> string \<Rightarrow> bytes \<Rightarrow> unit action" where
  "write_temp env temp_path data st =
     (Inr (), st\<lparr>disk := stream_write (env_host env) (disk st) temp_path data\<rparr>)"

fun copy_chunks :: "'c env \<Rightarrow> string \<Rightarrow> string list \<Rightarrow> bool action" where
  "copy_chunks env temp_path [] = ret True"
| "copy_chunks env temp_path (hash # hashes) =
     seq (getChunk env hash)
       (\<lambda>chunk_data. if chunk_data = [] then ret False
         else seq (write_temp env temp_path chunk_data) (\<lambda>_. copy_chunks env temp_path hashes))"

definition file_size :: "'c env \<Rightarrow> string \<Rightarrow> int action" where
  "file_size env s st =
     (case disk st (resolve (cwd (env_host env)) s) of
        Some (Regular bs) \<Rightarrow> (Inr (int (length bs)), st)
      | _ \<Rightarrow> (Inl Filesystem_Error, st))"

text \<open>
  \<open>finalizeFile\<close>. \<open>now\<close> is the clock in seconds. The record of the code is not
  initialised and its field \<open>last_sync_time\<close> is never assigned: \<open>junk\<close> is what
  happens to be there.
\<close>

definition store_record ::
  "'c env \<Rightarrow> int \<Rightarrow> int \<Rightarrow> string \<Rightarrow> string \<Rightarrow> string \<Rightarrow> metadata_db \<Rightarrow> bool action" where
  "store_record env now junk client_id filepath temp_path d =
     seq (file_size env temp_path)
       (\<lambda>size st.
          let r = \<lparr>fr_path = filepath, fr_size = size, fr_modified_time = now,
                fr_hash = sha256File (env_sha env) (env_host env) (disk st) temp_path,
                fr_version = 1, fr_is_directory = False, fr_deleted = False,
                fr_last_sync_time = junk\<rparr>
          in case insertOrUpdateFile (env_engine env) r d of
               (ok, d') \<Rightarrow> seq (put_client_db client_id d') (\<lambda>_. ret ok) st)"

definition assemble_file ::
  "'c env \<Rightarrow> int \<Rightarrow> int \<Rightarrow> string \<Rightarrow> string \<Rightarrow> string list \<Rightarrow> metadata_db \<Rightarrow> string \<Rightarrow> bool action" where
  "assemble_file env now junk client_id filepath chunk_hashes d temp_path st =
     (case open_out (env_host env) (disk st) temp_path of
        None \<Rightarrow> (Inr False, st)
      | Some fs \<Rightarrow>
          seq (copy_chunks env temp_path chunk_hashes)
            (\<lambda>copied. if \<not> copied then ret False
              else store_record env now junk client_id filepath temp_path d)
            (st\<lparr>disk := fs\<rparr>))"

definition finalizeFile ::
  "'c env \<Rightarrow> int \<Rightarrow> int \<Rightarrow> string \<Rightarrow> string \<Rightarrow> int \<Rightarrow> bool action" where
  "finalizeFile env now junk client_id filepath total_chunks =
     seq (getClientDB env client_id)
       (\<lambda>db. case db of
          None \<Rightarrow> ret False
        | Some d \<Rightarrow>
            (let chunk_hashes = getFileChunks (env_engine env) filepath d in
             if length chunk_hashes \<noteq> to_size_t total_chunks then ret False
             else seq (getTempFilePath env client_id filepath)
               (\<lambda>temp_path. seq (make_directories env (parent_path temp_path))
                 (\<lambda>_. assemble_file env now junk client_id filepath chunk_hashes d temp_path))))"

definition getFileMetadata :: "'c env \<Rightarrow> string \<Rightarrow> string \<Rightarrow> file_record option action" where
  "getFileMetadata env client_id filepath =
     seq (getClientDB env client_id)
       (\<lambda>db. case db of None \<Rightarrow> ret None | Some d \<Rightarrow> ret (getFile (env_engine env) filepath d))"

definition listFiles :: "'c env \<Rightarrow> string \<Rightarrow> file_record list action" where
  "listFiles env client_id =
     seq (getClientDB env client_id)
       (\<lambda>db. case db of None \<Rightarrow> ret [] | Some d \<Rightarrow> ret (getAllFiles (env_engine env) d))"

definition deleteStoredFile :: "'c env \<Rightarrow> string \<Rightarrow> string \<Rightarrow> bool action" where
  "deleteStoredFile env client_id filepath =
     seq (getClientDB env client_id)
       (\<lambda>db. case db of
          None \<Rightarrow> ret False
        | Some d \<Rightarrow>
            (case deleteFile (env_engine env) filepath d of
               (ok, d') \<Rightarrow> seq (put_client_db client_id d') (\<lambda>_. ret ok)))"

subsection \<open>Statistics\<close>

record storage_stats =
  total_files :: nat
  stored_chunks :: nat
  total_bytes :: nat
  deduplicated_bytes :: nat

definition count_entry :: "store \<Rightarrow> storage_stats \<Rightarrow> path \<Rightarrow> storage_stats" where
  "count_entry fs stats q =
     (case fs q of
        Some (Regular bs) \<Rightarrow>
          stats\<lparr>stored_chunks := stored_chunks stats + 1, total_bytes := total_bytes stats + length bs\<rparr>
      | _ \<Rightarrow> stats)"

definition getStats :: "'c env \<Rightarrow> storage_stats action" where
  "getStats env st =
     (let chunks_dir = resolve (cwd (env_host env)) (storage_root st @ ''/chunks'');
          stats = \<lparr>total_files = 0, stored_chunks = 0, total_bytes = 0, deduplicated_bytes = 0\<rparr>
      in if is_dir (disk st) chunks_dir
         then (Inr (foldl (count_entry (disk st)) stats (entries_below (env_host env) (disk st) chunks_dir)), st)
         else (Inl Filesystem_Error, st))"

subsection \<open>Where things are\<close>

definition root_path :: "'c env \<Rightarrow> storage \<Rightarrow> path" where
  "root_path env st = resolve (cwd (env_host env)) (storage_root st)"

text \<open>A chunk name that stays in its directory, as every hexadecimal digest does.\<close>

definition chunk_name :: "string \<Rightarrow> bool" where
  "chunk_name k \<longleftrightarrow> plain_name k \<and> plain_name (take 2 k)"

definition chunk_place :: "path \<Rightarrow> string \<Rightarrow> path" where
  "chunk_place R k = R @ [''chunks'', take 2 k, k]"

definition client_place :: "path \<Rightarrow> string \<Rightarrow> string \<Rightarrow> path" where
  "client_place R client_id filepath = R @ [''clients'', client_id] @ components filepath"

lemma plain_names [simp]: "plain_name ''chunks''" "plain_name ''clients''"
  by (simp_all add: plain_name_def)

lemma resolve_below:
  assumes "s \<noteq> []" and "plain_name v" and "plain_name w"
  shows "resolve c (s @ CHR ''/'' # v @ CHR ''/'' # w) = resolve c s @ [v, w]"
  using resolve_child [of "s @ CHR ''/'' # v" w c] resolve_child [of s v c] assms by simp

lemma resolve_chunk_dir:
  "s \<noteq> [] \<Longrightarrow> chunk_name k \<Longrightarrow> resolve c (s @ ''/chunks/'' @ take 2 k) = resolve c s @ [''chunks'', take 2 k]"
  using resolve_below [of s "''chunks''" "take 2 k" c] by (simp add: chunk_name_def)

lemma resolve_chunk_file:
  "s \<noteq> [] \<Longrightarrow> chunk_name k \<Longrightarrow>
   resolve c ((s @ ''/chunks/'' @ take 2 k) @ ''/'' @ k) = chunk_place (resolve c s) k"
  using resolve_child [of "s @ ''/chunks/'' @ take 2 k" k c] resolve_chunk_dir [of s k c]
  by (simp add: chunk_name_def chunk_place_def)

lemma resolve_client_dir:
  "s \<noteq> [] \<Longrightarrow> plain_name i \<Longrightarrow> resolve c (s @ ''/clients/'' @ i) = resolve c s @ [''clients'', i]"
  using resolve_below [of s "''clients''" i c] by simp

lemma resolve_client_file:
  "s \<noteq> [] \<Longrightarrow> plain_name i \<Longrightarrow> safe_path f \<Longrightarrow>
   resolve c ((s @ ''/clients/'' @ i) @ ''/'' @ f) = client_place (resolve c s) i f"
  using resolve_safe [of "s @ ''/clients/'' @ i" f c] resolve_client_dir [of s i c]
  by (simp add: client_place_def)

lemma resolve_client_parent:
  assumes "s \<noteq> []" and "plain_name i" and "safe_path f"
  shows "resolve c (parent_path ((s @ ''/clients/'' @ i) @ ''/'' @ f)) =
    resolve c s @ [''clients'', i] @ butlast (components f)"
proof -
  have "last (s @ ''/clients/'' @ i) \<noteq> CHR ''/''"
    using safe_last [OF plain_safe [OF assms(2)]] by simp
  then show ?thesis
    using resolve_parent_path [of "s @ ''/clients/'' @ i" f c] assms resolve_client_dir [of s i c]
    by simp
qed

text \<open>
  The directories of the store are not files, and no chunk is a directory. Everything deeper
  than the two levels below the root is a file or a directory of a client, or a chunk.
\<close>

definition layout_ok :: "path \<Rightarrow> store \<Rightarrow> bool" where
  "layout_ok R fs \<longleftrightarrow> (\<forall>n. files_of fs (take n R) = None) \<and> files_of fs (R @ [''chunks'']) = None \<and>
     (\<forall>w. files_of fs (R @ [''chunks'', w]) = None) \<and> files_of fs (R @ [''clients'']) = None \<and>
     (\<forall>i. files_of fs (R @ [''clients'', i]) = None) \<and>
     (\<forall>w v. fs (R @ [''chunks'', w, v]) \<noteq> Some Directory)"

text \<open>The place of a client's file can be written: its directories are not files, it is no directory.\<close>

definition file_place_ok :: "path \<Rightarrow> string \<Rightarrow> string \<Rightarrow> store \<Rightarrow> bool" where
  "file_place_ok R i f fs \<longleftrightarrow>
     (\<forall>n. n < length (components f) \<longrightarrow> files_of fs (R @ [''clients'', i] @ take n (components f)) = None) \<and>
     fs (client_place R i f) \<noteq> Some Directory"


lemma layout_ok_frame:
  assumes "layout_ok R fs"
    and "\<And>q. length q \<le> length R + 2 \<Longrightarrow> files_of fs' q = files_of fs q"
    and "\<And>w v. fs' (R @ [''chunks'', w, v]) = Some Directory \<Longrightarrow> fs (R @ [''chunks'', w, v]) = Some Directory"
  shows "layout_ok R fs'"
  using assms unfolding layout_ok_def by (auto simp: trans_le_add1)

lemma layout_prefixes:
  assumes "layout_ok R fs"
  shows "files_of fs (take n (R @ [''chunks'', w])) = None" "files_of fs (take n (R @ [''clients'', i])) = None"
proof -
  have split: "take n (R @ [a, b]) = take n R \<or> take n (R @ [a, b]) = R @ [a] \<or> take n (R @ [a, b]) = R @ [a, b]"
    for a b :: string
  proof -
    consider "n \<le> length R" | "n = Suc (length R)" | "Suc (Suc (length R)) \<le> n" by linarith
    then show ?thesis by cases simp_all
  qed
  show "files_of fs (take n (R @ [''chunks'', w])) = None"
    using split [of "''chunks''" w] assms unfolding layout_ok_def by metis
  show "files_of fs (take n (R @ [''clients'', i])) = None"
    using split [of "''clients''" i] assms unfolding layout_ok_def by metis
qed

subsection \<open>Effects on a healthy host\<close>

lemma seq_simps [simp]:
  "m st = (Inr x, st') \<Longrightarrow> seq m f st = f x st'"
  "m st = (Inl e, st') \<Longrightarrow> seq m f st = (Inl e, st')"
  "ret x st = (Inr x, st)"
  "put_client_db i d st = (Inr (), st\<lparr>client_dbs := (client_dbs st)(i \<mapsto> d)\<rparr>)"
  by (simp_all add: seq_def ret_def put_client_db_def)

text \<open>
  Every effect on the disk in this section is described by what it does to the files and by
  which directories it may add.
\<close>

definition adds_dirs :: "store \<Rightarrow> store \<Rightarrow> path \<Rightarrow> bool" where
  "adds_dirs fs fs' ws \<longleftrightarrow> (\<forall>q. fs' q = Some Directory \<longrightarrow> fs q = Some Directory \<or> (\<exists>n. q = take n ws)) \<and>
     is_dir fs' ws"

lemma adds_dirs_new:
  assumes "adds_dirs fs fs' (R @ [a, b])" and "fs' q = Some Directory"
  shows "fs q = Some Directory \<or> length q \<le> length R + 2"
proof -
  from assms consider "fs q = Some Directory" | n where "q = take n (R @ [a, b])"
    unfolding adds_dirs_def by blast
  then show ?thesis
  proof cases
    case 2
    have "length (take n (R @ [a, b])) \<le> length (R @ [a, b])" by simp
    with 2 show ?thesis by simp
  qed simp
qed

definition short_dirs :: "path \<Rightarrow> store \<Rightarrow> store \<Rightarrow> bool" where
  "short_dirs R fs fs' \<longleftrightarrow>
     (\<forall>q. fs' q = Some Directory \<longrightarrow> fs q = Some Directory \<or> length q \<le> length R + 2)"

lemma short_dirs_trans: "short_dirs R fs fs' \<Longrightarrow> short_dirs R fs' fs'' \<Longrightarrow> short_dirs R fs fs''"
  by (auto simp: short_dirs_def)

lemma adds_dirs_short: "adds_dirs fs fs' (R @ [a, b]) \<Longrightarrow> short_dirs R fs fs'"
  using adds_dirs_new unfolding short_dirs_def by blast

lemma layout_ok_short:
  assumes "layout_ok R fs" and "files_of fs' = files_of fs" and "short_dirs R fs fs'"
  shows "layout_ok R fs'"
  using assms(1)
proof (rule layout_ok_frame)
  show "files_of fs' q = files_of fs q" for q by (simp add: assms(2))
  show "fs (R @ [''chunks'', w, v]) = Some Directory"
    if "fs' (R @ [''chunks'', w, v]) = Some Directory" for w v
    using assms(3) that by (fastforce simp: short_dirs_def)
qed

lemma file_place_short:
  assumes "file_place_ok R i f fs" and "short_dirs R fs fs'"
    and "\<And>n. n < length (components f) \<Longrightarrow>
      files_of fs' (R @ [''clients'', i] @ take n (components f)) = None"
  shows "file_place_ok R i f fs'"
proof -
  have "0 < length (components f)" by simp
  then have "\<not> length (client_place R i f) \<le> length R + 2" by (simp add: client_place_def)
  then show ?thesis
    using assms unfolding file_place_ok_def short_dirs_def by blast
qed

lemma make_directories_healthy:
  assumes "healthy (env_host env)" and "resolve (cwd (env_host env)) s = ws"
    and "\<And>n. files_of (disk st) (take n ws) = None"
  shows "\<exists>fs'. make_directories env s st = (Inr (), st\<lparr>disk := fs'\<rparr>) \<and>
    files_of fs' = files_of (disk st) \<and> adds_dirs (disk st) fs' ws"
  using create_directories_healthy [OF assms(1), of "disk st" s] assms(2,3)
  by (auto simp: make_directories_def adds_dirs_def)

lemma getChunkPath_healthy:
  assumes "healthy (env_host env)" and "storage_root st \<noteq> []" and "chunk_name k"
    and "layout_ok (root_path env st) (disk st)"
  shows "\<exists>fs' p. getChunkPath env k st = (Inr p, st\<lparr>disk := fs'\<rparr>) \<and>
    resolve (cwd (env_host env)) p = chunk_place (root_path env st) k \<and>
    files_of fs' = files_of (disk st) \<and> adds_dirs (disk st) fs' (root_path env st @ [''chunks'', take 2 k]) \<and>
    layout_ok (root_path env st) fs'"
proof -
  let ?R = "root_path env st"
  define d where "d = storage_root st @ ''/chunks/'' @ take 2 k"
  have res: "resolve (cwd (env_host env)) d = ?R @ [''chunks'', take 2 k]"
    unfolding d_def root_path_def by (rule resolve_chunk_dir [OF assms(2,3)])
  have leaf: "resolve (cwd (env_host env)) (d @ ''/'' @ k) = chunk_place ?R k"
    unfolding d_def root_path_def by (rule resolve_chunk_file [OF assms(2,3)])
  have pre: "files_of (disk st) (take n (?R @ [''chunks'', take 2 k])) = None" for n
    by (rule layout_prefixes [OF assms(4)])
  obtain fs' where fs': "make_directories env d st = (Inr (), st\<lparr>disk := fs'\<rparr>)"
      "files_of fs' = files_of (disk st)" "adds_dirs (disk st) fs' (?R @ [''chunks'', take 2 k])"
    using make_directories_healthy [where st = st, OF assms(1) res pre] by blast
  have path: "getChunkPath env k st = (Inr (d @ ''/'' @ k), st\<lparr>disk := fs'\<rparr>)"
    unfolding getChunkPath_def Let_def d_def [symmetric] seq_def fs'(1) by (simp add: ret_def)
  have "layout_ok ?R fs'"
    using layout_ok_short [OF assms(4) fs'(2) adds_dirs_short [OF fs'(3)]] .
  with path leaf fs'(2,3) show ?thesis by blast
qed

lemma getChunk_healthy:
  assumes "healthy (env_host env)" and "storage_root st \<noteq> []" and "chunk_name k"
    and "layout_ok (root_path env st) (disk st)"
  shows "\<exists>fs'. getChunk env k st =
      (Inr (case files_of (disk st) (chunk_place (root_path env st) k) of None \<Rightarrow> [] | Some bs \<Rightarrow> bs),
       st\<lparr>disk := fs'\<rparr>) \<and>
    files_of fs' = files_of (disk st) \<and> adds_dirs (disk st) fs' (root_path env st @ [''chunks'', take 2 k]) \<and>
    layout_ok (root_path env st) fs'"
proof -
  obtain fs' p where p: "getChunkPath env k st = (Inr p, st\<lparr>disk := fs'\<rparr>)"
    "resolve (cwd (env_host env)) p = chunk_place (root_path env st) k"
    "files_of fs' = files_of (disk st)" "adds_dirs (disk st) fs' (root_path env st @ [''chunks'', take 2 k])"
    "layout_ok (root_path env st) fs'"
    using getChunkPath_healthy [OF assms] by blast
  have "getChunk env k st =
      (Inr (case files_of (disk st) (chunk_place (root_path env st) k) of None \<Rightarrow> [] | Some bs \<Rightarrow> bs),
       st\<lparr>disk := fs'\<rparr>)"
    unfolding getChunk_def seq_def p(1) read_file_healthy [OF assms(1)]
    by (simp add: p(2,3) read_file_healthy [OF assms(1)] split: option.split)
  with p(3-5) show ?thesis by blast
qed

lemma write_chunk_file_healthy:
  assumes "healthy (env_host env)" and "storage_root st \<noteq> []" and "chunk_name k"
    and "layout_ok (root_path env st) (disk st)"
  defines "P \<equiv> chunk_place (root_path env st) k"
  shows "\<exists>fs'. write_chunk_file env k data st = (Inr True, st\<lparr>disk := fs'\<rparr>) \<and>
    files_of fs' = (if files_of (disk st) P = None then (files_of (disk st))(P \<mapsto> data) else files_of (disk st)) \<and>
    short_dirs (root_path env st) (disk st) fs' \<and> layout_ok (root_path env st) fs'"
proof -
  let ?R = "root_path env st" and ?h = "env_host env"
  obtain fs' p where p: "getChunkPath env k st = (Inr p, st\<lparr>disk := fs'\<rparr>)"
    "resolve (cwd ?h) p = P" "files_of fs' = files_of (disk st)"
    "adds_dirs (disk st) fs' (?R @ [''chunks'', take 2 k])" "layout_ok ?R fs'"
    using getChunkPath_healthy [OF assms(1-4)] unfolding P_def by blast
  have new: "short_dirs ?R (disk st) fs'"
    using p(4) by (rule adds_dirs_short)
  have P: "P = (?R @ [''chunks'', take 2 k]) @ [k]" by (simp add: P_def chunk_place_def)
  have nodir: "fs' P \<noteq> Some Directory"
    using p(5) by (simp add: layout_ok_def P_def chunk_place_def)
  then have ex: "path_exists ?h fs' p \<longleftrightarrow> files_of (disk st) P \<noteq> None"
    unfolding path_exists_def p(2) Let_def p(3) [symmetric]
    by (cases "fs' P") (auto simp: files_of_def P split: node.splits)
  have run: "write_chunk_file env k data st =
     (if path_exists ?h fs' p then (Inr True, st\<lparr>disk := fs'\<rparr>)
      else case open_out ?h fs' p of None \<Rightarrow> (Inr False, st\<lparr>disk := fs'\<rparr>)
        | Some fs \<Rightarrow> (Inr True, st\<lparr>disk := stream_write ?h fs p data\<rparr>))"
    unfolding write_chunk_file_def seq_def p(1) by (simp split: option.split)
  show ?thesis
  proof (cases "files_of (disk st) P = None")
    case False
    then show ?thesis using run ex p(3,5) new by auto
  next
    case True
    have op: "open_out ?h fs' p = Some (fs'(P \<mapsto> Regular []))"
      unfolding P using p(2) p(4) nodir unfolding P
      by (intro open_out_healthy [OF assms(1)]) (simp_all add: adds_dirs_def)
    have wr: "stream_write ?h (fs'(P \<mapsto> Regular [])) p data = fs'(P \<mapsto> Regular data)"
      using read_after_write [OF op] by (simp add: p(2) healthyD [OF assms(1)])
    have eq: "write_chunk_file env k data st = (Inr True, st\<lparr>disk := fs'(P \<mapsto> Regular data)\<rparr>)"
      unfolding run op using True by (simp add: ex wr)
    have "layout_ok ?R (fs'(P \<mapsto> Regular data))"
      using p(5)
    proof (rule layout_ok_frame)
      show "files_of (fs'(P \<mapsto> Regular data)) q = files_of fs' q" if "length q \<le> length ?R + 2" for q
        using that by (auto simp: files_of_upd P)
      show "fs' (?R @ [''chunks'', w, v]) = Some Directory"
        if "(fs'(P \<mapsto> Regular data)) (?R @ [''chunks'', w, v]) = Some Directory" for w v
        using that by (auto split: if_splits)
    qed
    moreover have "short_dirs ?R (disk st) (fs'(P \<mapsto> Regular data))"
      using new by (auto simp: short_dirs_def)
    moreover have "files_of (fs'(P \<mapsto> Regular data)) = (files_of (disk st))(P \<mapsto> data)"
      by (simp add: files_of_upd p(3))
    ultimately show ?thesis using True eq by (intro exI [of _ "fs'(P \<mapsto> Regular data)"]) simp
  qed
qed

subsection \<open>The chunk store keeps its contract\<close>

text \<open>
  What the code relies on for deduplication: the first value stored under a key stays, every
  other key is untouched.
\<close>

locale content_store =
  fixes put :: "'k \<Rightarrow> 'v \<Rightarrow> 's \<Rightarrow> 's" and get :: "'s \<Rightarrow> 'k \<Rightarrow> 'v option"
    and ok :: "'s \<Rightarrow> bool" and valid :: "'k \<Rightarrow> bool"
  assumes ok_put: "ok s \<Longrightarrow> valid k \<Longrightarrow> ok (put k v s)"
    and get_put: "ok s \<Longrightarrow> valid k \<Longrightarrow> valid k' \<Longrightarrow>
      get (put k v s) k' = (if k' = k \<and> get s k = None then Some v else get s k')"
begin

definition put_all :: "('k \<times> 'v) list \<Rightarrow> 's \<Rightarrow> 's" where
  "put_all kvs s = foldl (\<lambda>s (k, v). put k v s) s kvs"

lemma put_all_simps: "put_all [] s = s" "put_all ((k, v) # kvs) s = put_all kvs (put k v s)"
  by (simp_all add: put_all_def)

lemma ok_put_all: "ok s \<Longrightarrow> \<forall>(k, v) \<in> set kvs. valid k \<Longrightarrow> ok (put_all kvs s)"
  by (induction kvs arbitrary: s) (auto simp: put_all_simps ok_put)

lemma value_stays:
  "ok s \<Longrightarrow> valid k \<Longrightarrow> valid k' \<Longrightarrow> get s k' = Some u \<Longrightarrow> get (put k v s) k' = Some u"
  by (auto simp: get_put)

lemma first_value_stays:
  "ok s \<Longrightarrow> \<forall>(k, v) \<in> set kvs. valid k \<Longrightarrow> valid k \<Longrightarrow> get s k = Some u \<Longrightarrow>
   get (put_all kvs s) k = Some u"
  by (induction kvs arbitrary: s) (auto simp: put_all_simps ok_put value_stays)

lemma other_keys_untouched:
  "ok s \<Longrightarrow> \<forall>(k, v) \<in> set kvs. valid k \<Longrightarrow> valid k \<Longrightarrow> k \<notin> fst ` set kvs \<Longrightarrow>
   get (put_all kvs s) k = get s k"
  by (induction kvs arbitrary: s) (auto simp: put_all_simps ok_put get_put)

text \<open>If equal keys come with equal values, also those already stored, every value is found again.\<close>

lemma get_put_all:
  assumes "ok s" and "\<forall>(k, v) \<in> set kvs. valid k"
    and "\<forall>(k, v) \<in> set kvs. get s k = None \<or> get s k = Some v"
    and "single_valued (set kvs)"
    and "(k, v) \<in> set kvs"
  shows "get (put_all kvs s) k = Some v"
  using assms
proof (induction kvs arbitrary: s)
  case Nil
  then show ?case by simp
next
  case (Cons kv kvs)
  obtain k0 v0 where kv: "kv = (k0, v0)" by (cases kv)
  have valid: "valid k0" "\<forall>(k, v) \<in> set kvs. valid k" "valid k" and ok: "ok (put k0 v0 s)"
    using Cons.prems kv by (auto simp: ok_put)
  show ?case
  proof (cases "k = k0")
    case True
    then have "v = v0" using single_valuedD [OF Cons.prems(4)] Cons.prems(5) kv by force
    moreover have "get s k0 = None \<or> get s k0 = Some v0" using Cons.prems(3) kv by simp
    ultimately have "get (put k0 v0 s) k = Some v"
      using True Cons.prems(1) valid by (auto simp: get_put)
    then show ?thesis using first_value_stays [OF ok valid(2,3)] by (simp add: kv put_all_simps)
  next
    case False
    have "get (put k0 v0 s) k' = None \<or> get (put k0 v0 s) k' = Some v'" if "(k', v') \<in> set kvs" for k' v'
    proof -
      have "k' = k0 \<longrightarrow> v' = v0" using single_valuedD [OF Cons.prems(4), of k0 v' v0] kv that by auto
      moreover have "get s k' = None \<or> get s k' = Some v'" using Cons.prems(3) that by auto
      moreover have "valid k'" using valid(2) that by auto
      ultimately show ?thesis using valid(1) Cons.prems(1) by (auto simp: get_put)
    qed
    then have "\<forall>(k, v) \<in> set kvs. get (put k0 v0 s) k = None \<or> get (put k0 v0 s) k = Some v"
      by blast
    moreover have "single_valued (set kvs)"
      using Cons.prems(4) by (rule single_valued_subset [rotated]) auto
    moreover have "(k, v) \<in> set kvs" using Cons.prems(5) False kv by simp
    ultimately have "get (put_all kvs (put k0 v0 s)) k = Some v"
      by (rule Cons.IH [OF ok valid(2)])
    then show ?thesis by (simp add: kv put_all_simps)
  qed
qed

end

text \<open>The state of the interpretation is the environment with the server state.\<close>

definition chunk_put :: "string \<Rightarrow> bytes \<Rightarrow> 'c env \<times> storage \<Rightarrow> 'c env \<times> storage" where
  "chunk_put k data = (\<lambda>(env, st). (env, snd (write_chunk_file env k data st)))"

definition chunk_get :: "'c env \<times> storage \<Rightarrow> string \<Rightarrow> bytes option" where
  "chunk_get = (\<lambda>(env, st) k. files_of (disk st) (chunk_place (root_path env st) k))"

definition chunks_ok :: "'c env \<times> storage \<Rightarrow> bool" where
  "chunks_ok = (\<lambda>(env, st). healthy (env_host env) \<and> storage_root st \<noteq> [] \<and>
     layout_ok (root_path env st) (disk st))"

lemma root_path_disk [simp]:
  "root_path env (st\<lparr>disk := fs\<rparr>) = root_path env st"
  "root_path env (st\<lparr>client_dbs := dbs\<rparr>) = root_path env st"
  by (simp_all add: root_path_def)

lemma chunk_place_inj: "chunk_place R k = chunk_place R k' \<longleftrightarrow> k = k'"
  by (auto simp: chunk_place_def)

interpretation chunk_files: content_store chunk_put chunk_get chunks_ok chunk_name
proof (unfold_locales, goal_cases)
  case (1 s k v)
  obtain env st where s: "s = (env, st)" by (cases s)
  obtain fs' where "write_chunk_file env k v st = (Inr True, st\<lparr>disk := fs'\<rparr>)" "layout_ok (root_path env st) fs'"
    using 1 write_chunk_file_healthy [of env st k v] by (auto simp: s chunks_ok_def)
  with 1 show ?case by (simp add: s chunks_ok_def chunk_put_def)
next
  case (2 s k k' v)
  obtain env st where s: "s = (env, st)" by (cases s)
  let ?P = "chunk_place (root_path env st) k"
  obtain fs' where fs': "write_chunk_file env k v st = (Inr True, st\<lparr>disk := fs'\<rparr>)"
    "files_of fs' = (if files_of (disk st) ?P = None then (files_of (disk st))(?P \<mapsto> v) else files_of (disk st))"
    using 2 write_chunk_file_healthy [of env st k v] unfolding s chunks_ok_def by blast
  then show ?case
    by (auto simp: s chunk_put_def chunk_get_def chunk_place_inj)
qed

subsection \<open>A server on which nothing fails\<close>

text \<open>The database an operation for the client works on: the open one, or what opening it gives.\<close>

definition client_db_path :: "storage \<Rightarrow> string \<Rightarrow> string" where
  "client_db_path st i = (storage_root st @ ''/clients/'' @ i) @ ''/metadata.db''"

definition client_view :: "'c env \<Rightarrow> storage \<Rightarrow> string \<Rightarrow> metadata_db" where
  "client_view env st i =
     (case client_dbs st i of
        Some d \<Rightarrow> d
      | None \<Rightarrow> snd (initialize (env_engine env) (MetadataDB (client_db_path st i))))"

definition server_ok :: "'c env \<Rightarrow> storage \<Rightarrow> bool" where
  "server_ok env st \<longleftrightarrow> healthy (env_host env) \<and> engine_healthy (env_engine env) \<and>
     (\<forall>p t. opens (env_engine env) p = Some t \<longrightarrow> keys_unique t) \<and>
     storage_root st \<noteq> [] \<and> layout_ok (root_path env st) (disk st) \<and>
     (\<forall>i d. client_dbs st i = Some d \<longrightarrow> db_open d \<and> db_ok d)"

lemma server_okD:
  assumes "server_ok env st"
  shows "healthy (env_host env)" "engine_healthy (env_engine env)" "storage_root st \<noteq> []"
    "layout_ok (root_path env st) (disk st)" "chunks_ok (env, st)"
  using assms by (simp_all add: server_ok_def chunks_ok_def)

lemma initialize_healthy:
  assumes "engine_healthy E"
  shows "\<exists>t. opens E (c_str (db_path d)) = Some t \<and>
    initialize E d = (True, d\<lparr>db_open := True, tables := t\<rparr>)"
proof -
  obtain t where "opens E (c_str (db_path d)) = Some t"
    using assms unfolding engine_healthy_def by (metis not_None_eq)
  then show ?thesis
    using assms by (simp add: initialize_def engine_healthy_def executeSQL_def)
qed

lemma client_view_ok:
  assumes "server_ok env st"
  shows "db_open (client_view env st i)" and "db_ok (client_view env st i)"
proof -
  have "db_open (client_view env st i) \<and> db_ok (client_view env st i)"
  proof (cases "client_dbs st i")
    case None
    obtain t where t: "opens (env_engine env) (c_str (client_db_path st i)) = Some t"
      "initialize (env_engine env) (MetadataDB (client_db_path st i)) =
        (True, (MetadataDB (client_db_path st i))\<lparr>db_open := True, tables := t\<rparr>)"
      using initialize_healthy [OF server_okD(2) [OF assms], of "MetadataDB (client_db_path st i)"]
      by (auto simp: MetadataDB_def)
    have "keys_unique t" using assms t(1) by (auto simp: server_ok_def)
    then show ?thesis using t(2) None by (simp add: client_view_def db_ok_def MetadataDB_def)
  next
    case (Some d)
    then show ?thesis using assms by (auto simp: client_view_def server_ok_def)
  qed
  then show "db_open (client_view env st i)" and "db_ok (client_view env st i)" by simp_all
qed

lemma client_view_disk [simp]: "client_view env (st\<lparr>disk := fs\<rparr>) i = client_view env st i"
proof -
  have "client_db_path (st\<lparr>disk := fs\<rparr>) i = client_db_path st i"
    unfolding client_db_path_def by simp
  then show ?thesis by (cases "client_dbs st i") (simp_all add: client_view_def)
qed

lemma client_view_put [simp]:
  "client_view env (st\<lparr>client_dbs := (client_dbs st)(i \<mapsto> d)\<rparr>) i = d"
  "client_view env (st\<lparr>client_dbs := (client_dbs st)(i \<mapsto> d), disk := fs\<rparr>) i = d"
  "client_view env (st\<lparr>disk := fs, client_dbs := (client_dbs st)(i \<mapsto> d)\<rparr>) i = d"
  by (simp_all add: client_view_def)

lemma server_ok_upd:
  assumes "server_ok env st" and "layout_ok (root_path env st) fs" and "db_open d" and "db_ok d"
  shows "server_ok env (st\<lparr>disk := fs, client_dbs := (client_dbs st)(i \<mapsto> d)\<rparr>)"
  using assms by (auto simp: server_ok_def root_path_def split: if_splits)

lemma getClientStoragePath_healthy:
  assumes "healthy (env_host env)" and "storage_root st \<noteq> []" and "plain_name i"
    and "layout_ok (root_path env st) (disk st)"
  shows "\<exists>fs'. getClientStoragePath env i st = (Inr (storage_root st @ ''/clients/'' @ i), st\<lparr>disk := fs'\<rparr>) \<and>
    files_of fs' = files_of (disk st) \<and> short_dirs (root_path env st) (disk st) fs' \<and>
    layout_ok (root_path env st) fs'"
proof -
  let ?R = "root_path env st"
  define d where "d = storage_root st @ ''/clients/'' @ i"
  have res: "resolve (cwd (env_host env)) d = ?R @ [''clients'', i]"
    unfolding d_def root_path_def by (rule resolve_client_dir [OF assms(2,3)])
  have pre: "files_of (disk st) (take n (?R @ [''clients'', i])) = None" for n
    by (rule layout_prefixes [OF assms(4)])
  obtain fs' where fs': "make_directories env d st = (Inr (), st\<lparr>disk := fs'\<rparr>)"
      "files_of fs' = files_of (disk st)" "adds_dirs (disk st) fs' (?R @ [''clients'', i])"
    using make_directories_healthy [where st = st, OF assms(1) res pre] by blast
  have "getClientStoragePath env i st = (Inr d, st\<lparr>disk := fs'\<rparr>)"
    unfolding getClientStoragePath_def Let_def d_def [symmetric] seq_def fs'(1) by (simp add: ret_def)
  moreover have "layout_ok ?R fs'"
    using layout_ok_short [OF assms(4) fs'(2) adds_dirs_short [OF fs'(3)]] .
  ultimately show ?thesis
    unfolding d_def [symmetric] using fs'(2) adds_dirs_short [OF fs'(3)] by blast
qed

lemma getClientDB_healthy:
  assumes ok: "server_ok env st" and "plain_name i"
  shows "\<exists>fs'. getClientDB env i st = (Inr (Some (client_view env st i)),
      st\<lparr>disk := fs', client_dbs := (client_dbs st)(i \<mapsto> client_view env st i)\<rparr>) \<and>
    files_of fs' = files_of (disk st) \<and> short_dirs (root_path env st) (disk st) fs' \<and>
    layout_ok (root_path env st) fs'"
proof (cases "client_dbs st i")
  case (Some d)
  then have "(client_dbs st)(i \<mapsto> d) = client_dbs st" by (rule map_upd_triv)
  with Some show ?thesis
    using server_okD(4) [OF ok]
    by (intro exI [of _ "disk st"]) (simp add: getClientDB_def client_view_def short_dirs_def)
next
  case None
  define p where "p = storage_root st @ ''/clients/'' @ i"
  obtain fs' where fs': "getClientStoragePath env i st = (Inr p, st\<lparr>disk := fs'\<rparr>)"
    "files_of fs' = files_of (disk st)" "short_dirs (root_path env st) (disk st) fs'"
    "layout_ok (root_path env st) fs'"
    using getClientStoragePath_healthy [OF server_okD(1,3) [OF ok] assms(2) server_okD(4) [OF ok]]
    unfolding p_def by blast
  define q where "q = client_db_path st i"
  have q: "p @ ''/metadata.db'' = q" by (simp only: p_def q_def client_db_path_def)
  obtain t where t: "initialize (env_engine env) (MetadataDB q) =
      (True, (MetadataDB q)\<lparr>db_open := True, tables := t\<rparr>)"
    using initialize_healthy [OF server_okD(2) [OF ok]] by blast
  have view: "client_view env st i = (MetadataDB q)\<lparr>db_open := True, tables := t\<rparr>"
    using None by (simp add: client_view_def q_def [symmetric] t)
  have "getClientDB env i st = (Inr (Some (client_view env st i)),
      st\<lparr>disk := fs', client_dbs := (client_dbs st)(i \<mapsto> client_view env st i)\<rparr>)"
    unfolding getClientDB_def seq_def fs'(1) using None
    by (simp only: option.case prod.case sum.case q t bool.case view)
      (simp add: ret_def put_client_db_def)
  with fs'(2-4) show ?thesis by blast
qed

lemma insertChunk_ok:
  "db_ok d \<Longrightarrow> db_ok (snd (insertChunk E f j k off sz d))"
  by (simp add: insertChunk_def run_write_ok)

lemma insertChunk_open [simp]: "db_open (snd (insertChunk E f j k off sz d)) = db_open d"
  by (simp add: insertChunk_def run_write_frame)

text \<open>\<open>storeChunk\<close>: the chunk store gains the chunk, the database the row, nothing else changes.\<close>

lemma storeChunk_healthy:
  assumes ok: "server_ok env st" and "plain_name i" and "chunk_name k"
  shows "\<exists>fs'. storeChunk env i f j data k st = (Inr True, st\<lparr>disk := fs', client_dbs := (client_dbs st)
      (i \<mapsto> snd (insertChunk (env_engine env) f j k 0 (to_int32 (int (length data))) (client_view env st i)))\<rparr>) \<and>
    files_of fs' = files_of (disk (snd (write_chunk_file env k data st))) \<and>
    short_dirs (root_path env st) (disk st) fs' \<and> layout_ok (root_path env st) fs'"
proof -
  obtain fs1 where fs1: "write_chunk_file env k data st = (Inr True, st\<lparr>disk := fs1\<rparr>)"
    "short_dirs (root_path env st) (disk st) fs1" "layout_ok (root_path env st) fs1"
    using write_chunk_file_healthy [OF server_okD(1,3) [OF ok] assms(3) server_okD(4) [OF ok], of data]
    by blast
  let ?st1 = "st\<lparr>disk := fs1\<rparr>"
  have ok1: "server_ok env ?st1"
    using ok fs1(3) by (simp add: server_ok_def)
  obtain fs2 where fs2: "getClientDB env i ?st1 = (Inr (Some (client_view env st i)),
      st\<lparr>disk := fs2, client_dbs := (client_dbs st)(i \<mapsto> client_view env st i)\<rparr>)"
    "files_of fs2 = files_of fs1" "short_dirs (root_path env st) fs1 fs2" "layout_ok (root_path env st) fs2"
    using getClientDB_healthy [OF ok1 assms(2)] by auto
  define r where "r = insertChunk (env_engine env) f j k 0 (to_int32 (int (length data))) (client_view env st i)"
  have r: "r = (True, snd r)"
    unfolding r_def by (simp add: insertChunk_healthy [OF server_okD(2) [OF ok] client_view_ok(1) [OF ok]])
  have "storeChunk env i f j data k st =
      (Inr True, st\<lparr>disk := fs2, client_dbs := (client_dbs st)(i \<mapsto> snd r)\<rparr>)"
    unfolding storeChunk_def seq_def fs1(1)
    by (simp add: fs2(1) r_def [symmetric]) (subst r, simp add: put_client_db_def ret_def)
  then show ?thesis
    unfolding r_def using fs2 fs1 short_dirs_trans [OF fs1(2) fs2(3)] by auto
qed

subsection \<open>Storing the chunks of an upload\<close>

text \<open>Chunks one after the other, stopping at the first that cannot be stored.\<close>

fun store_chunks :: "'c env \<Rightarrow> string \<Rightarrow> string \<Rightarrow> (int \<times> bytes \<times> string) list \<Rightarrow> bool action" where
  "store_chunks env i f [] = ret True"
| "store_chunks env i f ((j, data, k) # cs) =
     seq (storeChunk env i f j data k) (\<lambda>ok. if ok then store_chunks env i f cs else ret False)"

definition chunk_meta :: "int \<times> bytes \<times> string \<Rightarrow> int \<times> string \<times> int" where
  "chunk_meta = (\<lambda>(j, data, k). (j, k, to_int32 (int (length data))))"

definition chunk_pair :: "int \<times> bytes \<times> string \<Rightarrow> string \<times> bytes" where
  "chunk_pair = (\<lambda>(j, data, k). (k, data))"

text \<open>Two server states that agree on the files and on the root agree on the chunks.\<close>

lemma chunk_get_files:
  "files_of fs = files_of (disk st) \<Longrightarrow> chunk_get (env, st\<lparr>disk := fs, client_dbs := dbs\<rparr>) = chunk_get (env, st)"
  by (rule ext) (simp add: chunk_get_def root_path_def)

definition same_chunks :: "'c env \<times> storage \<Rightarrow> 'c env \<times> storage \<Rightarrow> bool" where
  "same_chunks s s' \<longleftrightarrow> (\<forall>k. chunk_name k \<longrightarrow> chunk_get s k = chunk_get s' k)"

lemma same_chunks_put_all:
  assumes "same_chunks s s'" and "chunks_ok s" and "chunks_ok s'" and "\<forall>(k, v) \<in> set kvs. chunk_name k"
  shows "same_chunks (chunk_files.put_all kvs s) (chunk_files.put_all kvs s')"
  using assms
proof (induction kvs arbitrary: s s')
  case Nil
  then show ?case by (simp add: chunk_files.put_all_simps)
next
  case (Cons kv kvs)
  obtain k v where kv: "kv = (k, v)" by (cases kv)
  then have "chunk_name k" using Cons.prems(4) by simp
  then have "same_chunks (chunk_put k v s) (chunk_put k v s')"
    using Cons.prems by (simp add: same_chunks_def chunk_files.get_put)
  then show ?case
    unfolding kv chunk_files.put_all_simps
    using Cons.prems kv \<open>chunk_name k\<close> by (intro Cons.IH) (simp_all add: chunk_files.ok_put)
qed

lemma storeChunk_once:
  fixes f j data
  assumes ok: "server_ok env st" and i: "plain_name i" and k: "chunk_name k"
  defines "d \<equiv> snd (insertChunk (env_engine env) f j k 0 (to_int32 (int (length data))) (client_view env st i))"
  shows "\<exists>fs1. storeChunk env i f j data k st = (Inr True, st\<lparr>disk := fs1, client_dbs := (client_dbs st)(i \<mapsto> d)\<rparr>) \<and>
    server_ok env (st\<lparr>disk := fs1, client_dbs := (client_dbs st)(i \<mapsto> d)\<rparr>) \<and>
    same_chunks (env, st\<lparr>disk := fs1, client_dbs := (client_dbs st)(i \<mapsto> d)\<rparr>) (chunk_put k data (env, st)) \<and>
    short_dirs (root_path env st) (disk st) fs1 \<and>
    (\<forall>q. (\<forall>k. q \<noteq> chunk_place (root_path env st) k) \<longrightarrow> files_of fs1 q = files_of (disk st) q)"
proof -
  let ?R = "root_path env st"
  obtain fs1 where fs1: "storeChunk env i f j data k st =
      (Inr True, st\<lparr>disk := fs1, client_dbs := (client_dbs st)(i \<mapsto> d)\<rparr>)"
    "files_of fs1 = files_of (disk (snd (write_chunk_file env k data st)))"
    "short_dirs ?R (disk st) fs1" "layout_ok ?R fs1"
    using storeChunk_healthy [OF ok i k, of f j data] unfolding d_def by blast
  obtain fs0 where fs0: "write_chunk_file env k data st = (Inr True, st\<lparr>disk := fs0\<rparr>)"
    "files_of fs0 = (if files_of (disk st) (chunk_place ?R k) = None
       then (files_of (disk st))(chunk_place ?R k \<mapsto> data) else files_of (disk st))" "layout_ok ?R fs0"
    using write_chunk_file_healthy [OF server_okD(1,3) [OF ok] k server_okD(4) [OF ok], of data] by blast
  have files1: "files_of fs1 = files_of fs0" by (simp add: fs1(2) fs0(1))
  have "server_ok env (st\<lparr>disk := fs1, client_dbs := (client_dbs st)(i \<mapsto> d)\<rparr>)"
    unfolding d_def by (rule server_ok_upd [OF ok fs1(4)]) (simp_all add: client_view_ok [OF ok] insertChunk_ok)
  moreover have "same_chunks (env, st\<lparr>disk := fs1, client_dbs := (client_dbs st)(i \<mapsto> d)\<rparr>) (chunk_put k data (env, st))"
    by (simp add: same_chunks_def chunk_put_def fs0(1) chunk_get_def files1)
  moreover have "\<forall>q. (\<forall>k. q \<noteq> chunk_place ?R k) \<longrightarrow> files_of fs1 q = files_of (disk st) q"
    by (simp add: files1 fs0(2))
  ultimately show ?thesis using fs1(1,3) by blast
qed

lemma store_chunks_healthy:
  assumes "server_ok env st" and "plain_name i" and "\<forall>(j, data, k) \<in> set cs. chunk_name k"
  shows "\<exists>fs' dbs'. store_chunks env i f cs st = (Inr True, st\<lparr>disk := fs', client_dbs := dbs'\<rparr>) \<and>
    server_ok env (st\<lparr>disk := fs', client_dbs := dbs'\<rparr>) \<and>
    client_view env (st\<lparr>disk := fs', client_dbs := dbs'\<rparr>) i =
      insert_chunks (env_engine env) f (map chunk_meta cs) (client_view env st i) \<and>
    (\<forall>i'. i' \<noteq> i \<longrightarrow> dbs' i' = client_dbs st i') \<and>
    same_chunks (env, st\<lparr>disk := fs', client_dbs := dbs'\<rparr>)
      (chunk_files.put_all (map chunk_pair cs) (env, st)) \<and>
    short_dirs (root_path env st) (disk st) fs' \<and>
    (\<forall>q. (\<forall>k. q \<noteq> chunk_place (root_path env st) k) \<longrightarrow> files_of fs' q = files_of (disk st) q)"
  using assms
proof (induction cs arbitrary: st)
  case Nil
  then show ?case
    by (intro exI [of _ "disk st"] exI [of _ "client_dbs st"])
      (simp add: ret_def insert_chunks_def same_chunks_def chunk_files.put_all_simps short_dirs_def)
next
  case (Cons c cs)
  obtain j data k where c: "c = (j, data, k)" by (cases c)
  have k: "chunk_name k" and cs: "\<forall>(j, data, k) \<in> set cs. chunk_name k"
    using Cons.prems(3) c by auto
  note ok = Cons.prems(1)
  let ?R = "root_path env st" and ?E = "env_engine env"
  define d where "d = snd (insertChunk ?E f j k 0 (to_int32 (int (length data))) (client_view env st i))"
  obtain fs1 where fs1: "storeChunk env i f j data k st =
      (Inr True, st\<lparr>disk := fs1, client_dbs := (client_dbs st)(i \<mapsto> d)\<rparr>)"
    "server_ok env (st\<lparr>disk := fs1, client_dbs := (client_dbs st)(i \<mapsto> d)\<rparr>)"
    "same_chunks (env, st\<lparr>disk := fs1, client_dbs := (client_dbs st)(i \<mapsto> d)\<rparr>) (chunk_put k data (env, st))"
    "short_dirs ?R (disk st) fs1" "\<forall>q. (\<forall>k. q \<noteq> chunk_place ?R k) \<longrightarrow> files_of fs1 q = files_of (disk st) q"
    using storeChunk_once [OF ok Cons.prems(2) k, of f j data] unfolding d_def by blast
  define st1 where "st1 = st\<lparr>disk := fs1, client_dbs := (client_dbs st)(i \<mapsto> d)\<rparr>"
  note ok1 = fs1(2) [folded st1_def] and same1 = fs1(3) [folded st1_def]
  have root1: "root_path env st1 = ?R" by (simp add: st1_def)
  obtain fs' dbs' where IH: "store_chunks env i f cs st1 = (Inr True, st1\<lparr>disk := fs', client_dbs := dbs'\<rparr>)"
    "server_ok env (st1\<lparr>disk := fs', client_dbs := dbs'\<rparr>)"
    "client_view env (st1\<lparr>disk := fs', client_dbs := dbs'\<rparr>) i =
      insert_chunks ?E f (map chunk_meta cs) (client_view env st1 i)"
    "\<forall>i'. i' \<noteq> i \<longrightarrow> dbs' i' = client_dbs st1 i'"
    "same_chunks (env, st1\<lparr>disk := fs', client_dbs := dbs'\<rparr>) (chunk_files.put_all (map chunk_pair cs) (env, st1))"
    "short_dirs ?R (disk st1) fs'"
    "\<forall>q. (\<forall>k. q \<noteq> chunk_place ?R k) \<longrightarrow> files_of fs' q = files_of (disk st1) q"
    using Cons.IH [OF ok1 Cons.prems(2) cs] unfolding root1 by blast
  have st1: "st1\<lparr>disk := fs', client_dbs := dbs'\<rparr> = st\<lparr>disk := fs', client_dbs := dbs'\<rparr>"
    by (simp add: st1_def)
  have view1: "client_view env st1 i = d" by (simp add: st1_def)
  have ok_put: "chunks_ok (chunk_put k data (env, st))"
    by (rule chunk_files.ok_put [OF server_okD(5) [OF ok] k])
  have valid: "\<forall>(k, v) \<in> set (map chunk_pair cs). chunk_name k"
    using cs by (auto simp: chunk_pair_def)
  have "same_chunks (chunk_files.put_all (map chunk_pair cs) (env, st1))
      (chunk_files.put_all (map chunk_pair cs) (chunk_put k data (env, st)))"
    by (rule same_chunks_put_all [OF same1 server_okD(5) [OF ok1] ok_put valid])
  then have same: "same_chunks (env, st\<lparr>disk := fs', client_dbs := dbs'\<rparr>)
      (chunk_files.put_all (map chunk_pair (c # cs)) (env, st))"
    using IH(5) unfolding st1 by (simp add: same_chunks_def c chunk_pair_def chunk_files.put_all_simps)
  have view: "client_view env (st\<lparr>disk := fs', client_dbs := dbs'\<rparr>) i =
      insert_chunks ?E f (map chunk_meta (c # cs)) (client_view env st i)"
    using IH(3) unfolding st1 view1 by (simp add: insert_chunks_def c chunk_meta_def d_def)
  have others: "\<forall>i'. i' \<noteq> i \<longrightarrow> dbs' i' = client_dbs st i'"
    using IH(4) by (simp add: st1_def)
  have dirs: "short_dirs ?R (disk st) fs'"
    using short_dirs_trans [OF fs1(4)] IH(6) by (simp add: st1_def)
  have frame: "\<forall>q. (\<forall>k. q \<noteq> chunk_place ?R k) \<longrightarrow> files_of fs' q = files_of (disk st) q"
    using IH(7) fs1(5) by (simp add: st1_def)
  have "store_chunks env i f (c # cs) st = (Inr True, st\<lparr>disk := fs', client_dbs := dbs'\<rparr>)"
    using IH(1) fs1(1) by (simp add: c seq_def st1_def)
  then show ?case using IH(2) view others same dirs frame unfolding st1 by blast
qed

subsection \<open>Assembling a file\<close>

lemma client_place_not_chunk: "client_place R i f \<noteq> chunk_place R k"
  by (simp add: client_place_def chunk_place_def)

lemma client_place_last:
  "client_place R i f = (R @ [''clients'', i] @ butlast (components f)) @ [last (components f)]"
  by (simp add: client_place_def)

lemma layout_ok_file:
  assumes "layout_ok R fs" and "length R + 2 < length q"
  shows "layout_ok R (fs(q \<mapsto> Regular bs))"
  using assms(1)
proof (rule layout_ok_frame)
  show "files_of (fs(q \<mapsto> Regular bs)) q' = files_of fs q'" if "length q' \<le> length R + 2" for q'
    using assms(2) that by (auto simp: files_of_upd)
  show "fs (R @ [''chunks'', w, v]) = Some Directory"
    if "(fs(q \<mapsto> Regular bs)) (R @ [''chunks'', w, v]) = Some Directory" for w v
    using that by (auto split: if_splits)
qed

lemma client_place_deep: "length R + 2 < length (client_place R i f)"
proof -
  have "0 < length (components f)" by simp
  then show ?thesis by (simp add: client_place_def)
qed

text \<open>A chunk the assembly can use: it is stored and not empty.\<close>

definition usable :: "'c env \<times> storage \<Rightarrow> string \<Rightarrow> bool" where
  "usable s k \<longleftrightarrow> chunk_get s k \<noteq> None \<and> chunk_get s k \<noteq> Some []"

definition chunk_data_of :: "'c env \<times> storage \<Rightarrow> string \<Rightarrow> bytes" where
  "chunk_data_of s k = (case chunk_get s k of None \<Rightarrow> [] | Some bs \<Rightarrow> bs)"

lemma copy_chunk_once:
  assumes "healthy (env_host env)" and "storage_root st \<noteq> []" and "layout_ok (root_path env st) (disk st)"
    and "resolve (cwd (env_host env)) t = T" and "\<And>k. T \<noteq> chunk_place (root_path env st) k"
    and "length (root_path env st) + 2 < length T"
    and "files_of (disk st) T = Some acc" and "chunk_name k" and use: "usable (env, st) k"
  shows "\<exists>fs2. seq (getChunk env k) (\<lambda>bs. if bs = [] then ret False else seq (write_temp env t bs) (\<lambda>_. m)) st = m (st\<lparr>disk := fs2\<rparr>) \<and>
    files_of fs2 = (files_of (disk st))(T \<mapsto> acc @ chunk_data_of (env, st) k) \<and>
    short_dirs (root_path env st) (disk st) fs2 \<and> layout_ok (root_path env st) fs2 \<and>
    chunk_get (env, st\<lparr>disk := fs2\<rparr>) = chunk_get (env, st)"
proof -
  let ?R = "root_path env st" and ?s = "(env, st)"
  obtain fs1 where fs1: "getChunk env k st = (Inr (chunk_data_of ?s k), st\<lparr>disk := fs1\<rparr>)"
    "files_of fs1 = files_of (disk st)" "adds_dirs (disk st) fs1 (?R @ [''chunks'', take 2 k])" "layout_ok ?R fs1"
    using getChunk_healthy [OF assms(1,2,8,3)] by (auto simp: chunk_data_of_def chunk_get_def)
  define fs2 where "fs2 = fs1(T \<mapsto> Regular (acc @ chunk_data_of ?s k))"
  have "fs1 T = Some (Regular acc)" using assms(7) by (simp add: fs1(2) flip: files_of_Some)
  then have wr: "stream_write (env_host env) fs1 t (chunk_data_of ?s k) = fs2"
    using assms(1,4) by (simp add: stream_write_def fs2_def healthyD)
  have files2: "files_of fs2 = (files_of (disk st))(T \<mapsto> acc @ chunk_data_of ?s k)"
    by (simp add: fs2_def files_of_upd fs1(2))
  have "chunk_data_of ?s k \<noteq> []" using use by (auto simp: chunk_data_of_def usable_def)
  then have "seq (getChunk env k) (\<lambda>bs. if bs = [] then ret False else seq (write_temp env t bs) (\<lambda>_. m)) st = m (st\<lparr>disk := fs2\<rparr>)"
    by (simp add: seq_def fs1(1) write_temp_def wr)
  moreover have "layout_ok ?R fs2" unfolding fs2_def by (rule layout_ok_file [OF fs1(4) assms(6)])
  moreover have "short_dirs ?R (disk st) fs2"
    using adds_dirs_short [OF fs1(3)] by (auto simp: short_dirs_def fs2_def)
  moreover have "chunk_get (env, st\<lparr>disk := fs2\<rparr>) = chunk_get ?s"
    using assms(5) [symmetric] by (intro ext) (simp add: chunk_get_def files2)
  ultimately show ?thesis using files2 by blast
qed

lemma copy_chunks_healthy:
  assumes "healthy (env_host env)" and "storage_root st \<noteq> []" and "layout_ok (root_path env st) (disk st)"
    and "resolve (cwd (env_host env)) t = T" and "\<And>k. T \<noteq> chunk_place (root_path env st) k"
    and "length (root_path env st) + 2 < length T"
    and "files_of (disk st) T = Some acc" and "\<forall>k \<in> set ks. chunk_name k"
  shows "\<exists>fs'. copy_chunks env t ks st = (Inr (\<forall>k \<in> set ks. usable (env, st) k), st\<lparr>disk := fs'\<rparr>) \<and>
    files_of fs' = (files_of (disk st))
      (T \<mapsto> acc @ concat (map (chunk_data_of (env, st)) (takeWhile (usable (env, st)) ks))) \<and>
    short_dirs (root_path env st) (disk st) fs' \<and> layout_ok (root_path env st) fs'"
  using assms
proof (induction ks arbitrary: st acc)
  case Nil
  then have "files_of (disk st) = (files_of (disk st))(T \<mapsto> acc)" by (auto simp: fun_eq_iff)
  with Nil show ?case
    by (intro exI [of _ "disk st"]) (simp add: ret_def short_dirs_def)
next
  case (Cons k ks)
  let ?R = "root_path env st" and ?s = "(env, st)"
  have k: "chunk_name k" and ks: "\<forall>k \<in> set ks. chunk_name k" using Cons.prems(8) by auto
  show ?case
  proof (cases "usable ?s k")
    case False
    obtain fs1 where fs1: "getChunk env k st = (Inr (chunk_data_of ?s k), st\<lparr>disk := fs1\<rparr>)"
      "files_of fs1 = files_of (disk st)" "adds_dirs (disk st) fs1 (?R @ [''chunks'', take 2 k])" "layout_ok ?R fs1"
      using getChunk_healthy [OF Cons.prems(1,2) k Cons.prems(3)]
      by (auto simp: chunk_data_of_def chunk_get_def)
    have "chunk_data_of ?s k = []"
      using False by (auto simp: chunk_data_of_def usable_def split: option.splits)
    then have "copy_chunks env t (k # ks) st = (Inr False, st\<lparr>disk := fs1\<rparr>)"
      by (simp add: seq_def fs1(1) ret_def)
    moreover have "files_of (disk st) = (files_of (disk st))(T \<mapsto> acc)"
      using Cons.prems(7) by (auto simp: fun_eq_iff)
    ultimately show ?thesis using False fs1(2,4) adds_dirs_short [OF fs1(3)] by auto
  next
    case True
    obtain fs2 where fs2: "copy_chunks env t (k # ks) st = copy_chunks env t ks (st\<lparr>disk := fs2\<rparr>)"
      "files_of fs2 = (files_of (disk st))(T \<mapsto> acc @ chunk_data_of ?s k)" "short_dirs ?R (disk st) fs2" "layout_ok ?R fs2"
      "chunk_get (env, st\<lparr>disk := fs2\<rparr>) = chunk_get ?s"
      using copy_chunk_once [OF Cons.prems(1-7) k True] unfolding copy_chunks.simps by blast
    define st2 where "st2 = st\<lparr>disk := fs2\<rparr>"
    have use2: "usable (env, st2) = usable ?s" "chunk_data_of (env, st2) = chunk_data_of ?s"
      by (intro ext, simp add: usable_def chunk_data_of_def st2_def fs2(5))+
    have root2: "root_path env st2 = ?R" "storage_root st2 = storage_root st" "disk st2 = fs2"
      by (simp_all add: st2_def)
    obtain fs' where IH: "copy_chunks env t ks st2 = (Inr (\<forall>k \<in> set ks. usable ?s k), st2\<lparr>disk := fs'\<rparr>)"
      "files_of fs' = (files_of fs2)(T \<mapsto> (acc @ chunk_data_of ?s k) @
         concat (map (chunk_data_of ?s) (takeWhile (usable ?s) ks)))"
      "short_dirs ?R fs2 fs'" "layout_ok ?R fs'"
    proof -
      have "files_of fs2 T = Some (acc @ chunk_data_of ?s k)" by (simp add: fs2(2))
      from Cons.IH [of st2, unfolded root2 use2, OF Cons.prems(1,2) fs2(4) Cons.prems(4-6) this ks]
      show ?thesis using that by blast
    qed
    have "copy_chunks env t (k # ks) st = (Inr (\<forall>k \<in> set (k # ks). usable ?s k), st\<lparr>disk := fs'\<rparr>)"
      using True IH(1) unfolding fs2(1) st2_def [symmetric] by (simp add: st2_def)
    moreover have "files_of fs' = (files_of (disk st))(T \<mapsto> acc @
        concat (map (chunk_data_of ?s) (takeWhile (usable ?s) (k # ks))))"
      using True by (simp add: IH(2) fs2(2))
    ultimately show ?thesis using short_dirs_trans [OF fs2(3) IH(3)] IH(4) by blast
  qed
qed

lemma parent_prefixes:
  assumes "layout_ok R fs" and "file_place_ok R i f fs"
  shows "files_of fs (take n (R @ [''clients'', i] @ butlast (components f))) = None"
proof (cases "n \<le> length R + 2")
  case True
  then have "take n ((R @ [''clients'', i]) @ butlast (components f)) = take n (R @ [''clients'', i])"
    by (subst take_append) simp
  then show ?thesis by (metis append_assoc layout_prefixes(2) [OF assms(1)])
next
  case False
  define m where "m = n - (length R + 2)"
  have n: "n = length (R @ [''clients'', i]) + m"
    using False by (simp add: m_def)
  define l where "l = min m (length (butlast (components f)))"
  have "0 < length (components f)" by simp
  moreover have "l \<le> length (components f) - 1" unfolding l_def by simp
  ultimately have l: "l < length (components f)" by linarith
  have "take m (butlast (components f)) = take l (components f)"
    by (simp add: l_def butlast_conv_take)
  then have "take n (R @ [''clients'', i] @ butlast (components f)) = R @ [''clients'', i] @ take l (components f)"
    by (simp add: n)
  then show ?thesis using assms(2) l by (simp add: file_place_ok_def)
qed

text \<open>The directories made for a file leave its place free, and the layout as it was.\<close>

lemma make_parent_healthy:
  assumes "healthy (env_host env)" and "storage_root st \<noteq> []" and "plain_name i" and "safe_path f"
    and "layout_ok (root_path env st) (disk st)" and "file_place_ok (root_path env st) i f (disk st)"
    and t: "t = (storage_root st @ ''/clients/'' @ i) @ ''/'' @ f"
  shows "\<exists>fs'. make_directories env (parent_path t) st = (Inr (), st\<lparr>disk := fs'\<rparr>) \<and>
    files_of fs' = files_of (disk st) \<and> layout_ok (root_path env st) fs' \<and>
    open_out (env_host env) fs' t = Some (fs'(client_place (root_path env st) i f \<mapsto> Regular [])) \<and>
    adds_dirs (disk st) fs' (root_path env st @ [''clients'', i] @ butlast (components f))"
proof -
  let ?R = "root_path env st" and ?T = "client_place (root_path env st) i f"
  let ?ws = "?R @ [''clients'', i] @ butlast (components f)"
  have res: "resolve (cwd (env_host env)) (parent_path t) = ?ws"
    unfolding t root_path_def by (rule resolve_client_parent [OF assms(2-4)])
  have T: "resolve (cwd (env_host env)) t = ?T"
    unfolding t root_path_def by (rule resolve_client_file [OF assms(2-4)])
  obtain fs' where fs': "make_directories env (parent_path t) st = (Inr (), st\<lparr>disk := fs'\<rparr>)"
    "files_of fs' = files_of (disk st)" "adds_dirs (disk st) fs' ?ws"
    using make_directories_healthy [where st = st, OF assms(1) res parent_prefixes [OF assms(5,6)]] by blast
  have "layout_ok ?R fs'"
    using assms(5)
  proof (rule layout_ok_frame)
    show "files_of fs' q = files_of (disk st) q" for q by (simp add: fs'(2))
    fix w v assume dir: "fs' (?R @ [''chunks'', w, v]) = Some Directory"
    have "?R @ [''chunks'', w, v] \<noteq> take n ?ws" for n
    proof
      assume eq: "?R @ [''chunks'', w, v] = take n ?ws"
      have "length ?R < n" using arg_cong [OF eq, of length] by simp
      with arg_cong [OF eq, of "\<lambda>xs. xs ! length ?R"] show False
        by (simp add: nth_append)
    qed
    with dir fs'(3) show "disk st (?R @ [''chunks'', w, v]) = Some Directory"
      unfolding adds_dirs_def by blast
  qed
  moreover have "fs' ?T \<noteq> Some Directory"
  proof
    assume dir: "fs' ?T = Some Directory"
    have "?T \<noteq> take n ?ws" for n
    proof
      assume "?T = take n ?ws"
      then have "length ?T \<le> length ?ws" by (metis length_take min.cobounded1)
      then show False by (simp add: client_place_last)
    qed
    then show False
      using dir fs'(3) assms(6) unfolding adds_dirs_def file_place_ok_def by blast
  qed
  then have "open_out (env_host env) fs' t = Some (fs'(?T \<mapsto> Regular []))"
    unfolding client_place_last using T fs'(3)
    by (intro open_out_healthy [OF assms(1)]) (simp_all add: client_place_last adds_dirs_def)
  ultimately show ?thesis using fs' by blast
qed

text \<open>
  The directories that assembling a file may add: those above the clients' files, and those that lead to
  the file.
\<close>

definition file_dirs :: "path \<Rightarrow> string \<Rightarrow> string \<Rightarrow> store \<Rightarrow> store \<Rightarrow> bool" where
  "file_dirs R i f fs fs' \<longleftrightarrow> (\<forall>q. fs' q = Some Directory \<longrightarrow> fs q = Some Directory \<or> length q \<le> length R + 2 \<or>
     (\<exists>n. q = take n (R @ [''clients'', i] @ butlast (components f))))"

text \<open>The record \<open>finalizeFile\<close> stores for contents \<open>bs\<close>.\<close>

definition final_record :: "'c env \<Rightarrow> int \<Rightarrow> int \<Rightarrow> string \<Rightarrow> bytes \<Rightarrow> file_record" where
  "final_record env now junk f bs =
     \<lparr>fr_path = f, fr_size = int (length bs), fr_modified_time = now, fr_hash = sha256 (env_sha env) bs,
      fr_version = 1, fr_is_directory = False, fr_deleted = False, fr_last_sync_time = junk\<rparr>"

text \<open>Up to the assembly \<open>finalizeFile\<close> reads the chunk list and makes directories.\<close>

lemma finalizeFile_prepares:
  assumes ok: "server_ok env st" and i: "plain_name i" and f: "safe_path f"
    and place: "file_place_ok (root_path env st) i f (disk st)"
    and ks: "ks = getFileChunks (env_engine env) f (client_view env st i)" and n_chunks: "to_size_t n_chunks = length ks"
  shows "\<exists>t fs'. (\<forall>now junk. finalizeFile env now junk i f n_chunks st = assemble_file env now junk i f ks (client_view env st i) t
      (st\<lparr>disk := fs', client_dbs := (client_dbs st)(i \<mapsto> client_view env st i)\<rparr>)) \<and>
    resolve (cwd (env_host env)) t = client_place (root_path env st) i f \<and> files_of fs' = files_of (disk st) \<and>
    layout_ok (root_path env st) fs' \<and> file_dirs (root_path env st) i f (disk st) fs' \<and>
    open_out (env_host env) fs' t = Some (fs'(client_place (root_path env st) i f \<mapsto> Regular []))"
proof -
  let ?R = "root_path env st" and ?T = "client_place (root_path env st) i f"
  let ?h = "env_host env" and ?d = "client_view env st i"
  define dbs where "dbs = (client_dbs st)(i \<mapsto> ?d)"
  define t where "t = (storage_root st @ ''/clients/'' @ i) @ ''/'' @ f"
  note h = server_okD(1) [OF ok] and root = server_okD(3) [OF ok]
  have T: "resolve (cwd ?h) t = ?T"
    unfolding t_def root_path_def by (rule resolve_client_file [OF root i f])
  obtain fs1 where fs1: "getClientDB env i st = (Inr (Some ?d), st\<lparr>disk := fs1, client_dbs := dbs\<rparr>)"
    "files_of fs1 = files_of (disk st)" "short_dirs ?R (disk st) fs1" "layout_ok ?R fs1"
    using getClientDB_healthy [OF ok i] unfolding dbs_def by blast
  define st1 where "st1 = st\<lparr>disk := fs1, client_dbs := dbs\<rparr>"
  have R1: "root_path env st1 = ?R" "storage_root st1 = storage_root st" "disk st1 = fs1" by (simp_all add: st1_def)
  obtain fs2 where fs2: "getClientStoragePath env i st1 = (Inr (storage_root st @ ''/clients/'' @ i), st1\<lparr>disk := fs2\<rparr>)"
    "files_of fs2 = files_of fs1" "short_dirs ?R fs1 fs2" "layout_ok ?R fs2"
    using getClientStoragePath_healthy [where env = env and st = st1, unfolded R1, OF h root i fs1(4)] by blast
  define st2 where "st2 = st1\<lparr>disk := fs2\<rparr>"
  have R2: "root_path env st2 = ?R" "storage_root st2 = storage_root st" "disk st2 = fs2"
    by (simp_all add: st2_def st1_def)
  note short = short_dirs_trans [OF fs1(3) fs2(3)]
  have place2: "file_place_ok ?R i f fs2"
    using place short by (rule file_place_short) (use place in \<open>simp add: fs1(2) fs2(2) file_place_ok_def\<close>)
  obtain fs3 where fs3: "make_directories env (parent_path t) st2 = (Inr (), st2\<lparr>disk := fs3\<rparr>)"
    "files_of fs3 = files_of fs2" "layout_ok ?R fs3" "open_out ?h fs3 t = Some (fs3(?T \<mapsto> Regular []))"
    "adds_dirs fs2 fs3 (?R @ [''clients'', i] @ butlast (components f))"
    using make_parent_healthy [where env = env and st = st2, unfolded R2, OF h root i f fs2(4) place2 t_def] by blast
  have dirs: "file_dirs ?R i f (disk st) fs3"
    using fs3(5) short unfolding adds_dirs_def short_dirs_def file_dirs_def by blast
  define st3 where "st3 = st\<lparr>disk := fs3, client_dbs := dbs\<rparr>"
  have "st2\<lparr>disk := fs3\<rparr> = st3" by (simp add: st2_def st1_def st3_def)
  moreover have "getTempFilePath env i f st1 = (Inr t, st2)"
    unfolding getTempFilePath_def seq_def fs2(1) by (simp add: ret_def t_def st2_def)
  ultimately have "finalizeFile env now junk i f n_chunks st = assemble_file env now junk i f ks ?d t st3" for now junk
    unfolding finalizeFile_def seq_def fs1(1) [folded st1_def]
    by (simp add: Let_def ks [symmetric] n_chunks fs3(1))
  then show ?thesis using T fs1(2) fs2(2) fs3(2-4) dirs unfolding dbs_def st3_def
    by (intro exI [of _ t] exI [of _ fs3]) simp
qed

text \<open>
  The outcome of \<open>finalizeFile\<close> once the number of chunks fits: the file holds the chunks
  up to the first unusable one; only if there is none the record is stored.
\<close>

lemma finalizeFile_healthy:
  assumes ok: "server_ok env st" and sha: "sha_documented (env_sha env)"
    and i: "plain_name i" and f: "safe_path f"
    and place: "file_place_ok (root_path env st) i f (disk st)"
    and ks: "ks = getFileChunks (env_engine env) f (client_view env st i)"
    and names: "\<forall>k \<in> set ks. chunk_name k" and n_chunks: "to_size_t n_chunks = length ks"
  defines "content \<equiv> concat (map (chunk_data_of (env, st)) (takeWhile (usable (env, st)) ks))"
    and "whole \<equiv> \<forall>k \<in> set ks. usable (env, st) k"
  shows "\<exists>fs'. finalizeFile env now junk i f n_chunks st = (Inr whole, st\<lparr>disk := fs', client_dbs := (client_dbs st)
      (i \<mapsto> (if whole then snd (insertOrUpdateFile (env_engine env) (final_record env now junk f content) (client_view env st i))
            else client_view env st i))\<rparr>) \<and>
    files_of fs' = (files_of (disk st))(client_place (root_path env st) i f \<mapsto> content) \<and>
    layout_ok (root_path env st) fs' \<and> file_dirs (root_path env st) i f (disk st) fs'"
proof -
  let ?R = "root_path env st" and ?T = "client_place (root_path env st) i f"
  let ?h = "env_host env" and ?E = "env_engine env" and ?d = "client_view env st i"
  define dbs where "dbs = (client_dbs st)(i \<mapsto> ?d)"
  note h = server_okD(1) [OF ok] and root = server_okD(3) [OF ok]
  obtain t fs3 where fs3: "finalizeFile env now junk i f n_chunks st = assemble_file env now junk i f ks ?d t (st\<lparr>disk := fs3, client_dbs := dbs\<rparr>)"
    "resolve (cwd ?h) t = ?T" "files_of fs3 = files_of (disk st)" "layout_ok ?R fs3"
    "open_out ?h fs3 t = Some (fs3(?T \<mapsto> Regular []))" "file_dirs ?R i f (disk st) fs3"
    using finalizeFile_prepares [OF ok i f place ks n_chunks] unfolding dbs_def by blast
  define st4 where "st4 = st\<lparr>disk := fs3(?T \<mapsto> Regular []), client_dbs := dbs\<rparr>"
  have disk3: "disk (st\<lparr>disk := fs3, client_dbs := dbs\<rparr>) = fs3" by simp
  have st4': "st\<lparr>disk := fs3, client_dbs := dbs, disk := fs3(?T \<mapsto> Regular [])\<rparr> = st4" by (simp add: st4_def)
  have files4: "files_of (disk st4) = (files_of (disk st))(?T \<mapsto> [])"
    by (simp add: st4_def files_of_upd fs3(3))
  have R4: "root_path env st4 = ?R" "storage_root st4 = storage_root st" by (simp_all add: st4_def)
  have "chunk_get (env, st4) = chunk_get (env, st)"
    using client_place_not_chunk [symmetric]
    by (intro ext) (simp add: chunk_get_def files4 R4)
  then have use4: "usable (env, st4) = usable (env, st)" "chunk_data_of (env, st4) = chunk_data_of (env, st)"
    by (intro ext, simp add: usable_def chunk_data_of_def)+
  have layout4: "layout_ok ?R (disk st4)"
    unfolding st4_def using layout_ok_file [OF fs3(4) client_place_deep] by simp
  have acc: "files_of (disk st4) ?T = Some []" by (simp add: files4)
  obtain fs5 where fs5: "copy_chunks env t ks st4 = (Inr whole, st4\<lparr>disk := fs5\<rparr>)"
    "files_of fs5 = (files_of (disk st))(?T \<mapsto> content)" "layout_ok ?R fs5" "short_dirs ?R (disk st4) fs5"
    using copy_chunks_healthy [where env = env and st = st4, unfolded R4 use4, OF h root layout4 fs3(2) client_place_not_chunk client_place_deep acc names]
    unfolding whole_def content_def by (auto simp: files4)
  have "fs5 ?T = Some (Regular content)"
    by (simp add: fs5(2) flip: files_of_Some)
  then have size: "file_size env t (st4\<lparr>disk := fs5\<rparr>) = (Inr (int (length content)), st4\<lparr>disk := fs5\<rparr>)"
    by (simp add: file_size_def fs3(2))
  have hash: "sha256File (env_sha env) ?h fs5 t = sha256 (env_sha env) content"
    by (simp add: sha256File_eq [OF sha] read_file_healthy [OF h] fs3(2) fs5(2))
  define d' where "d' = snd (insertOrUpdateFile ?E (final_record env now junk f content) ?d)"
  have ins: "insertOrUpdateFile ?E (final_record env now junk f content) ?d = (True, d')"
    unfolding d'_def insertOrUpdateFile_def
    by (simp add: run_write_healthy [OF server_okD(2) [OF ok] client_view_ok(1) [OF ok]])
  have rec: "store_record env now junk i f t ?d (st4\<lparr>disk := fs5\<rparr>) =
      (Inr True, st4\<lparr>disk := fs5, client_dbs := (client_dbs st4)(i \<mapsto> d')\<rparr>)"
    unfolding store_record_def seq_def size
    using hash ins by (simp add: final_record_def Let_def put_client_db_def ret_def)
  have run: "finalizeFile env now junk i f n_chunks st =
      (if whole then (Inr True, st\<lparr>disk := fs5, client_dbs := (client_dbs st)(i \<mapsto> d')\<rparr>)
       else (Inr False, st\<lparr>disk := fs5, client_dbs := dbs\<rparr>))"
    unfolding fs3(1) assemble_file_def disk3 fs3(5) option.case st4' seq_def fs5(1)
    using rec by (simp add: ret_def) (simp add: st4_def dbs_def)
  have dirs: "file_dirs ?R i f (disk st) fs5"
    using fs3(6) fs5(4) unfolding file_dirs_def short_dirs_def st4_def
    by (auto split: if_splits)
  show ?thesis
    using fs5(2,3) dirs by (intro exI [of _ fs5]) (simp add: run d'_def dbs_def)
qed

end
