(* ===== verification/Storage_Properties.thy ===== *)
theory Storage_Properties
  imports Storage_Manager "HOL-Library.List_Lexorder" "HOL-Library.Char_ord"
begin

text \<open>
  What the chunk store and the assembly of files promise, and where they do not keep it: the
  hash of a chunk is believed, a failed assembly destroys the previous file, names taken from
  the request lead outside the directories they are meant for.
\<close>

subsection \<open>The server of the witnesses\<close>

definition plain_env :: "bytes env" where
  "plain_env = \<lparr>env_host = plain_host, env_engine = plain_engine, env_sha = toy_sha\<rparr>"

definition fresh_server :: storage where
  "fresh_server = StorageManager ''/srv'' (\<lambda>_. None)"

lemma plain_env_simps [simp]:
  "env_host plain_env = plain_host" "env_engine plain_env = plain_engine" "env_sha plain_env = toy_sha"
  by (simp_all add: plain_env_def)

lemma fresh_server_simps [simp]:
  "storage_root fresh_server = ''/srv''" "client_dbs fresh_server i = None" "disk fresh_server q = None"
  by (simp_all add: fresh_server_def StorageManager_def)

lemma fresh_root: "root_path plain_env fresh_server = [''srv'']"
  by (simp add: root_path_def resolve_def)

lemma fresh_files: "files_of (disk fresh_server) q = None"
  by (simp add: files_of_def)

lemma fresh_server_ok: "server_ok plain_env fresh_server"
  by (simp add: server_ok_def plain_host_healthy plain_engine_healthy layout_ok_def fresh_files)
    (simp add: plain_engine_def keys_unique_empty)

lemma fresh_place: "file_place_ok R i f (disk fresh_server)"
  by (simp add: file_place_ok_def fresh_files)

lemma fresh_view: "client_view plain_env fresh_server i =
    (MetadataDB (client_db_path fresh_server i))\<lparr>db_open := True\<rparr>"
  by (simp add: client_view_def initialize_def executeSQL_def plain_engine_def MetadataDB_def)

lemma fresh_chunk: "chunk_get (plain_env, fresh_server) k = None"
  by (simp add: chunk_get_def fresh_files)

lemma chunk_nameI: "plain_name k \<Longrightarrow> plain_name (take 2 k) \<Longrightarrow> chunk_name k"
  by (simp add: chunk_name_def)

subsection \<open>Reading the chunk store\<close>

lemma getChunk_view:
  assumes "chunks_ok (env, st)" and "chunk_name k"
  shows "fst (getChunk env k st) = Inr (chunk_data_of (env, st) k)"
  using getChunk_healthy [of env st k] assms
  by (auto simp: chunks_ok_def chunk_data_of_def chunk_get_def)

lemma hasStoredChunk_view:
  assumes "chunks_ok (env, st)" and "chunk_name k"
  shows "fst (hasStoredChunk env k st) = Inr (chunk_get (env, st) k \<noteq> None)"
proof -
  let ?P = "chunk_place (root_path env st) k"
  obtain fs' p where p: "getChunkPath env k st = (Inr p, st\<lparr>disk := fs'\<rparr>)"
    "resolve (cwd (env_host env)) p = ?P" "files_of fs' = files_of (disk st)" "layout_ok (root_path env st) fs'"
    using getChunkPath_healthy [of env st k] assms unfolding chunks_ok_def by auto
  have "fs' ?P \<noteq> Some Directory" and "?P \<noteq> []"
    using p(4) by (simp_all add: layout_ok_def chunk_place_def)
  then have "path_exists (env_host env) fs' p \<longleftrightarrow> files_of fs' ?P \<noteq> None"
    by (auto simp: path_exists_def p(2) files_of_def split: option.splits node.splits)
  then show ?thesis
    unfolding hasStoredChunk_def seq_def p(1) by (simp add: chunk_get_def p(3))
qed

lemma same_chunks_get:
  "same_chunks s s' \<Longrightarrow> chunk_name k \<Longrightarrow> chunk_get s k = Some v \<longleftrightarrow> chunk_get s' k = Some v"
  by (simp add: same_chunks_def)

lemma chunk_data_Some: "chunk_get s k = Some bs \<Longrightarrow> chunk_data_of s k = bs"
  by (simp add: chunk_data_of_def)

text \<open>The chunks of a run are all found if equal names come with equal bytes, also with those stored before.\<close>

definition consistent_chunks :: "'c env \<times> storage \<Rightarrow> (int \<times> bytes \<times> string) list \<Rightarrow> bool" where
  "consistent_chunks s cs \<longleftrightarrow> (\<forall>(j, data, k) \<in> set cs. chunk_name k) \<and>
     single_valued (set (map chunk_pair cs)) \<and>
     (\<forall>(j, data, k) \<in> set cs. chunk_get s k = None \<or> chunk_get s k = Some data)"

lemma consistent_names: "consistent_chunks s cs \<Longrightarrow> \<forall>(j, data, k) \<in> set cs. chunk_name k"
  by (simp add: consistent_chunks_def)

lemma put_all_consistent:
  assumes "consistent_chunks (env, st) cs" and "chunks_ok (env, st)" and "(j, data, k) \<in> set cs"
  shows "chunk_get (chunk_files.put_all (map chunk_pair cs) (env, st)) k = Some data"
proof (rule chunk_files.get_put_all [OF assms(2)])
  show "\<forall>(k, v) \<in> set (map chunk_pair cs). chunk_name k"
    and "\<forall>(k, v) \<in> set (map chunk_pair cs). chunk_get (env, st) k = None \<or> chunk_get (env, st) k = Some v"
    and "single_valued (set (map chunk_pair cs))"
    using assms(1) by (auto simp: consistent_chunks_def chunk_pair_def)
  show "(k, data) \<in> set (map chunk_pair cs)"
    using assms(3) by (force simp: chunk_pair_def)
qed

subsection \<open>Properties\<close>

text \<open>Every chunk of a run that was stored successfully is found again with exactly its bytes, whether
  it was new or already there, as long as a name always comes with the same bytes.\<close>

theorem stored_chunks_are_found:
  assumes "server_ok env st" and "plain_name i" and "consistent_chunks (env, st) cs" and "(j, data, k) \<in> set cs"
  shows "case store_chunks env i f cs st of (r, st') \<Rightarrow>
    r = Inr True \<and> fst (getChunk env k st') = Inr data \<and> fst (hasStoredChunk env k st') = Inr True"
proof -
  obtain fs' dbs' where run: "store_chunks env i f cs st = (Inr True, st\<lparr>disk := fs', client_dbs := dbs'\<rparr>)"
    "server_ok env (st\<lparr>disk := fs', client_dbs := dbs'\<rparr>)"
    "same_chunks (env, st\<lparr>disk := fs', client_dbs := dbs'\<rparr>) (chunk_files.put_all (map chunk_pair cs) (env, st))"
    using store_chunks_healthy [OF assms(1,2) consistent_names [OF assms(3)], of f] by blast
  have k: "chunk_name k" using consistent_names [OF assms(3)] assms(4) by auto
  have "chunk_get (env, st\<lparr>disk := fs', client_dbs := dbs'\<rparr>) k = Some data"
    using same_chunks_get [OF run(3) k] put_all_consistent [OF assms(3) server_okD(5) [OF assms(1)] assms(4)]
    by simp
  then show ?thesis
    using getChunk_view [OF server_okD(5) [OF run(2)] k] hasStoredChunk_view [OF server_okD(5) [OF run(2)] k]
    by (simp add: run(1) chunk_data_Some)
qed

theorem stored_chunks_are_found_witness:
  "case store_chunks plain_env ''al'' ''f'' [(1, [7, 8], ''abcd''), (0, [9], ''beef''), (2, [7, 8], ''abcd'')] fresh_server
   of (r, st') \<Rightarrow> r = Inr True \<and> fst (getChunk plain_env ''abcd'' st') = Inr [7, 8] \<and>
     fst (hasStoredChunk plain_env ''abcd'' st') = Inr True"
proof (rule stored_chunks_are_found [OF fresh_server_ok])
  show "plain_name ''al''" by (simp add: plain_name_def)
  show "(1, [7, 8], ''abcd'') \<in> set [(1, [7, 8], ''abcd''), (0, [9], ''beef''), (2, [7, 8], ''abcd'')]"
    by simp
  show "consistent_chunks (plain_env, fresh_server) [(1, [7, 8], ''abcd''), (0, [9], ''beef''), (2, [7, 8], ''abcd'')]"
    by (auto simp: consistent_chunks_def chunk_name_def plain_name_def chunk_pair_def single_valued_def fresh_chunk)
qed

text \<open>A digest in hexadecimal is a chunk name.\<close>

lemma hex_plain: "set w \<subseteq> set ''0123456789abcdef'' \<Longrightarrow> w \<noteq> [] \<Longrightarrow> plain_name w"
  by (auto simp: plain_name_def)

lemma chunk_name_sha256:
  assumes "sha_documented api"
  shows "chunk_name (sha256 api bs)"
proof (rule chunk_nameI)
  show "plain_name (sha256 api bs)"
    using sha256_chars sha256_nonempty [OF assms] by (rule hex_plain)
  have "set (take 2 (sha256 api bs)) \<subseteq> set ''0123456789abcdef''"
    using set_take_subset sha256_chars by (rule order_trans)
  moreover have "take 2 (sha256 api bs) \<noteq> []"
    using sha256_nonempty [OF assms, of bs] by simp
  ultimately show "plain_name (take 2 (sha256 api bs))"
    by (rule hex_plain)
qed

lemma storeChunk_as_run: "store_chunks env i f [(j, data, k)] st =
    (case storeChunk env i f j data k st of (Inl e, st') \<Rightarrow> (Inl e, st') | (Inr ok, st') \<Rightarrow> (Inr ok, st'))"
  by (simp add: seq_def ret_def split: sum.splits prod.splits)

lemma storeChunk_effect:
  assumes "server_ok env st" and "plain_name i" and "chunk_name k"
  shows "\<exists>st'. storeChunk env i f j data k st = (Inr True, st') \<and> server_ok env st' \<and>
    same_chunks (env, st') (chunk_put k data (env, st))"
proof -
  have "\<forall>(j, data, k) \<in> set [(j, data, k)]. chunk_name k" using assms(3) by simp
  from store_chunks_healthy [OF assms(1,2) this, of f] obtain st' where
    run: "store_chunks env i f [(j, data, k)] st = (Inr True, st')" and "server_ok env st'"
    "same_chunks (env, st') (chunk_files.put_all (map chunk_pair [(j, data, k)]) (env, st))"
    by blast
  moreover have "storeChunk env i f j data k st = (Inr True, st')"
    using run unfolding storeChunk_as_run by (auto split: sum.splits prod.splits)
  ultimately show ?thesis by (auto simp: chunk_pair_def chunk_files.put_all_simps)
qed

text \<open>The server believes the hash it is told. If a client stores any bytes under the digest of some
  contents, another client that then stores these contents under their true digest is told it succeeded,
  and reading that digest gives the first client's bytes from then on.\<close>

theorem chunk_hash_is_not_checked:
  assumes "server_ok env st" and "sha_documented (env_sha env)" and "plain_name i" and "plain_name i'"
    and "chunk_get (env, st) (sha256 (env_sha env) good) = None"
  shows "case storeChunk env i f j bad (sha256 (env_sha env) good) st of (r, st1) \<Rightarrow>
    case storeChunk env i' f' j' good (sha256 (env_sha env) good) st1 of (r', st2) \<Rightarrow>
      r = Inr True \<and> r' = Inr True \<and> fst (getChunk env (sha256 (env_sha env) good) st2) = Inr bad"
proof -
  define k where "k = sha256 (env_sha env) good"
  have k: "chunk_name k" unfolding k_def by (rule chunk_name_sha256 [OF assms(2)])
  obtain st1 where st1: "storeChunk env i f j bad k st = (Inr True, st1)" "server_ok env st1"
    "same_chunks (env, st1) (chunk_put k bad (env, st))"
    using storeChunk_effect [OF assms(1,3) k] by blast
  obtain st2 where st2: "storeChunk env i' f' j' good k st1 = (Inr True, st2)" "server_ok env st2"
    "same_chunks (env, st2) (chunk_put k good (env, st1))"
    using storeChunk_effect [OF st1(2) assms(4) k] by blast
  have "chunk_get (env, st1) k = Some bad"
    using assms(5) [folded k_def]
    by (simp add: same_chunks_get [OF st1(3) k] chunk_files.get_put [OF server_okD(5) [OF assms(1)] k k])
  then have "chunk_get (env, st2) k = Some bad"
    by (simp add: same_chunks_get [OF st2(3) k] chunk_files.get_put [OF server_okD(5) [OF st1(2)] k k])
  then show ?thesis
    unfolding k_def [symmetric] using getChunk_view [OF server_okD(5) [OF st2(2)] k]
    by (simp add: st1(1) st2(1) chunk_data_Some)
qed

theorem chunk_hash_is_not_checked_witness:
  "case storeChunk plain_env ''mal'' ''x'' 0 [6, 6, 6] (sha256 toy_sha [1, 2]) fresh_server of (r, st1) \<Rightarrow>
    case storeChunk plain_env ''al'' ''f'' 0 [1, 2] (sha256 toy_sha [1, 2]) st1 of (r', st2) \<Rightarrow>
      r = Inr True \<and> r' = Inr True \<and> fst (getChunk plain_env (sha256 toy_sha [1, 2]) st2) = Inr [6, 6, 6]"
proof -
  have "sha_documented (env_sha plain_env)" "plain_name ''mal''" "plain_name ''al''"
    "chunk_get (plain_env, fresh_server) (sha256 (env_sha plain_env) [1, 2]) = None"
    by (simp_all add: toy_sha_documented plain_name_def fresh_chunk)
  from chunk_hash_is_not_checked [OF fresh_server_ok this] show ?thesis by simp
qed

lemma finalizeFile_run:
  assumes "server_ok env st" and "sha_documented (env_sha env)" and "plain_name i" and "safe_path f"
    and "file_place_ok (root_path env st) i f (disk st)"
    and "getFileChunks (env_engine env) f (client_view env st i) = ks"
    and "\<forall>k \<in> set ks. chunk_name k" and "to_size_t n_chunks = length ks"
    and w: "(\<forall>k \<in> set ks. usable (env, st) k) = w"
    and c: "concat (map (chunk_data_of (env, st)) (takeWhile (usable (env, st)) ks)) = c"
  shows "\<exists>fs'. finalizeFile env now junk i f n_chunks st = (Inr w, st\<lparr>disk := fs', client_dbs := (client_dbs st)
      (i \<mapsto> (if w then snd (insertOrUpdateFile (env_engine env) (final_record env now junk f c) (client_view env st i))
            else client_view env st i))\<rparr>) \<and>
    files_of fs' = (files_of (disk st))(client_place (root_path env st) i f \<mapsto> c) \<and>
    layout_ok (root_path env st) fs' \<and> file_dirs (root_path env st) i f (disk st) fs'"
  unfolding w [symmetric] c [symmetric]
  by (rule finalizeFile_healthy [OF assms(1-5) assms(6) [symmetric] assms(7,8)])

text \<open>C36: assembling is not atomic. If some chunk of the file is missing or empty, \<open>finalizeFile\<close>
  answers false and the record stays as it was, but the previous contents of the file are gone: it now
  holds the chunks before the first unusable one.\<close>

theorem failed_finalize_destroys_file:
  assumes "server_ok env st" and "sha_documented (env_sha env)" and "plain_name i" and "safe_path f"
    and "file_place_ok (root_path env st) i f (disk st)"
    and "getFileChunks (env_engine env) f (client_view env st i) = ks @ k # ks'"
    and "\<forall>h \<in> set (ks @ k # ks'). chunk_name h" and "to_size_t n_chunks = length (ks @ k # ks')"
    and "\<forall>h \<in> set ks. usable (env, st) h" and "\<not> usable (env, st) k"
  shows "case finalizeFile env now junk i f n_chunks st of (r, st') \<Rightarrow>
    r = Inr False \<and> client_view env st' i = client_view env st i \<and>
    files_of (disk st') (client_place (root_path env st) i f) = Some (concat (map (chunk_data_of (env, st)) ks))"
proof -
  have "takeWhile (usable (env, st)) (ks @ k # ks') = ks"
    using assms(9,10) by (simp add: takeWhile_append2)
  then have "concat (map (chunk_data_of (env, st)) (takeWhile (usable (env, st)) (ks @ k # ks'))) =
      concat (map (chunk_data_of (env, st)) ks)" by simp
  moreover have "(\<forall>h \<in> set (ks @ k # ks'). usable (env, st) h) = False"
    using assms(10) by auto
  ultimately obtain fs' where "finalizeFile env now junk i f n_chunks st =
      (Inr False, st\<lparr>disk := fs', client_dbs := (client_dbs st)(i \<mapsto> client_view env st i)\<rparr>)"
    "files_of fs' = (files_of (disk st))
      (client_place (root_path env st) i f \<mapsto> concat (map (chunk_data_of (env, st)) ks))"
    using finalizeFile_run [OF assms(1-8), where w = False and now = now and junk = junk]
    unfolding if_False by blast
  then show ?thesis by simp
qed

definition missing_engine :: sqlite where
  "missing_engine = plain_engine\<lparr>opens := \<lambda>_. Some (empty_database\<lparr>chunks_table :=
     [\<lparr>cr_file_path = ''f'', cr_chunk_index = 0, cr_hash = ''abcd'', cr_offset = 0, cr_size = 2\<rparr>]\<rparr>)\<rparr>"

definition old_file_server :: storage where
  "old_file_server = StorageManager ''/srv'' [[''srv'', ''clients'', ''al'', ''f''] \<mapsto> Regular [1, 2, 3]]"

lemma missing_engine_healthy: "engine_healthy missing_engine"
  by (simp add: missing_engine_def engine_healthy_def plain_engine_def)

lemma old_file_server_simps:
  "storage_root old_file_server = ''/srv''" "client_dbs old_file_server i = None"
  "root_path env old_file_server = [''srv'']"
  by (simp_all add: old_file_server_def StorageManager_def root_path_def resolve_def)

lemma old_file_server_files:
  "files_of (disk old_file_server) q = (if q = [''srv'', ''clients'', ''al'', ''f''] then Some [1, 2, 3] else None)"
  by (simp add: old_file_server_def StorageManager_def files_of_def)

lemma old_file_server_dirs: "disk old_file_server q \<noteq> Some Directory"
  by (simp add: old_file_server_def StorageManager_def)

lemma old_file_server_ok: "server_ok (plain_env\<lparr>env_engine := missing_engine\<rparr>) old_file_server"
proof -
  have len: "take n [''srv''] \<noteq> [''srv'', ''clients'', ''al'', ''f'']" for n
  proof
    assume "take n [''srv''] = [''srv'', ''clients'', ''al'', ''f'']"
    from arg_cong [OF this, of length] show False by simp
  qed
  then show ?thesis
    by (simp add: server_ok_def plain_host_healthy missing_engine_healthy layout_ok_def
        old_file_server_simps old_file_server_files old_file_server_dirs)
      (simp add: missing_engine_def plain_engine_def keys_unique_def empty_database_def)
qed

lemma old_file_server_chunks:
  "getFileChunks missing_engine ''f'' (client_view (plain_env\<lparr>env_engine := missing_engine\<rparr>) old_file_server i) = [''abcd'']"
  by (simp add: getFileChunks_def run_select_def client_view_def old_file_server_simps initialize_def
      executeSQL_def missing_engine_def plain_engine_def MetadataDB_def c_str_def empty_database_def)

lemma components_f: "components ''f'' = [''f'']"
  by simp

theorem failed_finalize_destroys_file_witness:
  "case finalizeFile (plain_env\<lparr>env_engine := missing_engine\<rparr>) 9 0 ''al'' ''f'' 1 old_file_server of (r, st') \<Rightarrow>
    r = Inr False \<and>
    files_of (disk old_file_server) [''srv'', ''clients'', ''al'', ''f''] = Some [1, 2, 3] \<and>
    files_of (disk st') [''srv'', ''clients'', ''al'', ''f''] = Some []"
proof -
  let ?env = "plain_env\<lparr>env_engine := missing_engine\<rparr>"
  have "case finalizeFile ?env 9 0 ''al'' ''f'' 1 old_file_server of (r, st') \<Rightarrow>
    r = Inr False \<and> client_view ?env st' ''al'' = client_view ?env old_file_server ''al'' \<and>
    files_of (disk st') (client_place (root_path ?env old_file_server) ''al'' ''f'') =
      Some (concat (map (chunk_data_of (?env, old_file_server)) []))"
  proof (rule failed_finalize_destroys_file [OF old_file_server_ok])
    show "getFileChunks (env_engine ?env) ''f'' (client_view ?env old_file_server ''al'') = [] @ ''abcd'' # []"
      by (simp add: old_file_server_chunks)
    show "file_place_ok (root_path ?env old_file_server) ''al'' ''f'' (disk old_file_server)"
      by (simp add: file_place_ok_def old_file_server_files old_file_server_dirs old_file_server_simps)
    show "\<not> usable (?env, old_file_server) ''abcd''"
      by (simp add: usable_def chunk_get_def old_file_server_files old_file_server_simps chunk_place_def)
  qed (simp_all add: toy_sha_documented plain_name_def safe_path_def chunk_name_def to_size_t_def)
  then show ?thesis
    by (simp add: old_file_server_files old_file_server_simps client_place_def split: prod.splits)
qed

text \<open>The name of a file can collide with the server's own: a file called \<open>metadata.db\<close> is
  assembled on top of the client's database file, and a successful upload replaces the bytes of the
  database by its own.\<close>

theorem file_named_metadata_db_overwrites_database:
  assumes "server_ok env st" and "sha_documented (env_sha env)" and "plain_name i"
    and "file_place_ok (root_path env st) i ''metadata.db'' (disk st)"
    and "getFileChunks (env_engine env) ''metadata.db'' (client_view env st i) = ks"
    and "\<forall>k \<in> set ks. chunk_name k \<and> usable (env, st) k" and "to_size_t n_chunks = length ks"
  shows "case finalizeFile env now junk i ''metadata.db'' n_chunks st of (r, st') \<Rightarrow> r = Inr True \<and>
    files_of (disk st') (resolve (cwd (env_host env)) (client_db_path st i)) =
      Some (concat (map (chunk_data_of (env, st)) ks))"
proof -
  define f where "f = ''metadata.db''"
  have f: "safe_path f" unfolding f_def by (simp add: safe_path_def plain_name_def)
  have "takeWhile (usable (env, st)) ks = ks"
    using assms(6) by (intro takeWhile_eq_all_conv [THEN iffD2]) blast
  then have "concat (map (chunk_data_of (env, st)) (takeWhile (usable (env, st)) ks)) =
      concat (map (chunk_data_of (env, st)) ks)" by (rule arg_cong)
  moreover have "(\<forall>k \<in> set ks. usable (env, st) k) = True" and "\<forall>k \<in> set ks. chunk_name k"
    using assms(6) by blast+
  ultimately obtain st' where st': "finalizeFile env now junk i f n_chunks st = (Inr True, st')"
    "files_of (disk st') = (files_of (disk st))
      (client_place (root_path env st) i f \<mapsto> concat (map (chunk_data_of (env, st)) ks))"
    using finalizeFile_run [OF assms(1-3) f assms(4,5) [folded f_def] _ assms(7), where w = True]
    unfolding if_True by (smt (verit) storage.select_convs(3) storage.surjective storage.update_convs(2,3))
  have "client_db_path st i = (storage_root st @ ''/clients/'' @ i) @ ''/'' @ f"
    by (simp add: client_db_path_def f_def)
  then have "resolve (cwd (env_host env)) (client_db_path st i) = client_place (root_path env st) i f"
    using resolve_client_file [OF server_okD(3) [OF assms(1)] assms(3) f] by (simp add: root_path_def)
  then show ?thesis unfolding f_def [symmetric] st'(1) by (simp add: st'(2))
qed

theorem file_named_metadata_db_overwrites_database_witness:
  "case finalizeFile plain_env 9 0 ''al'' ''metadata.db'' 0 fresh_server of (r, st') \<Rightarrow> r = Inr True \<and>
    files_of (disk st') (resolve [] ''/srv/clients/al/metadata.db'') = Some []"
proof -
  have "case finalizeFile plain_env 9 0 ''al'' ''metadata.db'' 0 fresh_server of (r, st') \<Rightarrow> r = Inr True \<and>
    files_of (disk st') (resolve (cwd (env_host plain_env)) (client_db_path fresh_server ''al'')) =
      Some (concat (map (chunk_data_of (plain_env, fresh_server)) []))"
  proof (rule file_named_metadata_db_overwrites_database [OF fresh_server_ok])
    show "getFileChunks (env_engine plain_env) ''metadata.db'' (client_view plain_env fresh_server ''al'') = []"
      by (simp add: getFileChunks_healthy plain_engine_healthy fresh_view MetadataDB_def)
  qed (simp_all add: toy_sha_documented fresh_place to_size_t_def plain_name_def)
  then show ?thesis by (simp add: client_db_path_def)
qed

subsection \<open>Names that climb out of the store\<close>

lemma components_up_up: "components (''../../'' @ x) = ''..'' # ''..'' # components x"
  by simp

lemma resolve_climbing_hash:
  assumes "s \<noteq> []" and "plain_name x"
  shows "resolve c ((s @ ''/chunks/..'') @ ''/'' @ (''../../'' @ x)) = butlast (butlast (resolve c s)) @ [x]"
proof -
  have "resolve c (s @ CHR ''/'' # (''chunks/..'' @ ''/'' @ (''../../'' @ x))) =
      rev (walk (rev (resolve c s)) (components (''chunks/../../../'' @ x)))"
    using resolve_append_slash [OF assms(1), of c "''chunks/../../../'' @ x"] by simp
  also have "components (''chunks/../../../'' @ x) = ''chunks'' # ''..'' # ''..'' # ''..'' # [x]"
    using assms(2) by (simp add: components_plain plain_name_def)
  also have "rev (walk (rev (resolve c s)) (''chunks'' # ''..'' # ''..'' # ''..'' # [x])) =
      butlast (butlast (resolve c s)) @ [x]"
    using assms(2) by (simp add: plain_name_def flip: butlast_rev)
  finally show ?thesis by simp
qed

text \<open>C37: a chunk hash is used as a path without a check: the hash \<open>../../x\<close> names the file
  \<open>x\<close> in the directory above the storage root, and storing a chunk under it, when that file does
  not exist, creates it there with the bytes of the request.\<close>

theorem chunk_hash_escapes_root:
  assumes "healthy (env_host env)" and "storage_root st \<noteq> []" and "plain_name x"
    and "root_path env st = up @ [a, b]"
    and "\<forall>n. files_of (disk st) (take n (root_path env st)) = None"
    and "is_dir (disk st) up" and "disk st (up @ [x]) = None" and "x \<noteq> a"
  shows "case write_chunk_file env (''../../'' @ x) data st of (r, st') \<Rightarrow>
    r = Inr True \<and> files_of (disk st') (up @ [x]) = Some data"
proof -
  let ?h = "env_host env" and ?R = "root_path env st"
  define d where "d = storage_root st @ ''/chunks/..''"
  have d: "resolve (cwd ?h) d = ?R"
    using resolve_append_slash [OF assms(2), of "cwd ?h" "''chunks/..''"] by (simp add: d_def root_path_def)
  define p where "p = d @ ''/'' @ (''../../'' @ x)"
  have "resolve (cwd ?h) p = butlast (butlast ?R) @ [x]"
    unfolding p_def d_def root_path_def by (rule resolve_climbing_hash [OF assms(2,3)])
  then have p: "resolve (cwd ?h) p = up @ [x]" by (simp add: assms(4) butlast_append)
  obtain fs' where fs': "make_directories env d st = (Inr (), st\<lparr>disk := fs'\<rparr>)"
    "files_of fs' = files_of (disk st)" "adds_dirs (disk st) fs' ?R"
    using make_directories_healthy [where st = st, OF assms(1) d] assms(5) by blast
  have path: "getChunkPath env (''../../'' @ x) st = (Inr p, st\<lparr>disk := fs'\<rparr>)"
    using fs'(1) by (simp add: getChunkPath_def d_def p_def seq_def ret_def)
  have nodir: "fs' (up @ [x]) \<noteq> Some Directory"
  proof
    assume "fs' (up @ [x]) = Some Directory"
    then obtain n where n: "up @ [x] = take n (up @ [a, b])"
      using fs'(3) assms(4,7) unfolding adds_dirs_def by auto
    from arg_cong [OF n, of length] have "n = Suc (length up)" by simp
    with n assms(8) show False by simp
  qed
  have "files_of fs' (up @ [x]) = None" using assms(7) by (simp add: fs'(2) files_of_def)
  with nodir have none: "fs' (up @ [x]) = None"
    by (cases "fs' (up @ [x])") (auto simp: files_of_def split: node.splits)
  have "create_directories ?h (disk st) d = Some fs'"
    using fs'(1) by (auto simp: make_directories_def split: option.splits dest: arg_cong [where f = disk])
  then have "is_dir fs' up"
    using assms(6) create_directories_keeps [of ?h "disk st" d fs' up Directory]
    by (auto simp: is_dir_def)
  then have op: "open_out ?h fs' p = Some (fs'(up @ [x] \<mapsto> Regular []))"
    using p nodir by (intro open_out_healthy [OF assms(1)])
  have wr: "stream_write ?h (fs'(up @ [x] \<mapsto> Regular [])) p data = fs'(up @ [x] \<mapsto> Regular data)"
    using read_after_write [OF op] by (simp add: p healthyD [OF assms(1)])
  have "\<not> path_exists ?h fs' p" using none by (simp add: path_exists_def p)
  then have "write_chunk_file env (''../../'' @ x) data st = (Inr True, st\<lparr>disk := fs'(up @ [x] \<mapsto> Regular data)\<rparr>)"
    unfolding write_chunk_file_def seq_def path by (simp add: op wr)
  then show ?thesis by (simp add: files_of_upd)
qed

theorem chunk_hash_escapes_root_witness:
  "case write_chunk_file plain_env ''../../crontab'' [1, 2]
      (StorageManager ''/var/lib/box'' [[''var''] \<mapsto> Directory]) of (r, st') \<Rightarrow>
    r = Inr True \<and> files_of (disk st') [''var'', ''crontab''] = Some [1, 2]"
proof -
  let ?st = "StorageManager ''/var/lib/box'' [[''var''] \<mapsto> Directory]"
  have root: "root_path plain_env ?st = [''var''] @ [''lib'', ''box'']"
    by (simp add: root_path_def StorageManager_def resolve_def)
  have "case write_chunk_file plain_env (''../../'' @ ''crontab'') [1, 2] ?st of (r, st') \<Rightarrow>
      r = Inr True \<and> files_of (disk st') ([''var''] @ [''crontab'']) = Some [1, 2]"
    by (rule chunk_hash_escapes_root [OF _ _ _ root])
      (simp_all add: plain_host_healthy plain_name_def is_dir_def StorageManager_def files_of_def)
  then show ?thesis by simp
qed

subsection \<open>Statistics of the store\<close>

definition regular_below :: "store \<Rightarrow> path \<Rightarrow> path set" where
  "regular_below fs p = {q. files_of fs q \<noteq> None \<and> (\<exists>ws. ws \<noteq> [] \<and> q = p @ ws)}"

definition size_at :: "store \<Rightarrow> path \<Rightarrow> nat" where
  "size_at fs q = (case files_of fs q of None \<Rightarrow> 0 | Some bs \<Rightarrow> length bs)"

lemma count_entries:
  "foldl (count_entry fs) stats qs =
     stats\<lparr>stored_chunks := stored_chunks stats + length (filter (\<lambda>q. files_of fs q \<noteq> None) qs),
       total_bytes := total_bytes stats + sum_list (map (size_at fs) qs)\<rparr>"
proof (induction qs arbitrary: stats)
  case Nil
  then show ?case by simp
next
  case (Cons q qs)
  then show ?case
    by (cases "fs q")
      (auto simp: count_entry_def files_of_def size_at_def split: node.splits)
qed

text \<open>The statistics count each regular file below the chunk directory once and add up the sizes,
  so that chunks shared between files count once; the other two numbers are always 0.\<close>

theorem stats_count_stored_chunks:
  assumes "iterator_documented (env_host env)" and "finite {q. disk st q \<noteq> None}" and "storage_root st \<noteq> []"
    and "is_dir (disk st) (root_path env st @ [''chunks''])"
  defines "F \<equiv> regular_below (disk st) (root_path env st @ [''chunks''])"
  shows "getStats env st = (Inr \<lparr>total_files = 0, stored_chunks = card F,
    total_bytes = (\<Sum>q \<in> F. size_at (disk st) q), deduplicated_bytes = 0\<rparr>, st)"
proof -
  let ?D = "root_path env st @ [''chunks'']" and ?fs = "disk st"
  define qs where "qs = entries_below (env_host env) ?fs ?D"
  have qs: "distinct qs" "set qs = {q. ?fs q \<noteq> None \<and> (\<exists>ws. ws \<noteq> [] \<and> q = ?D @ ws)}"
    using assms(1,2) unfolding iterator_documented_def qs_def by blast+
  have D: "resolve (cwd (env_host env)) (storage_root st @ ''/chunks'') = ?D"
    using resolve_child [OF assms(3), of "''chunks''" "cwd (env_host env)"] by (simp add: root_path_def)
  have F: "F = set (filter (\<lambda>q. files_of ?fs q \<noteq> None) qs)"
    by (auto simp: F_def regular_below_def qs(2) files_of_def split: option.splits)
  have card: "length (filter (\<lambda>q. files_of ?fs q \<noteq> None) qs) = card F"
    unfolding F by (rule distinct_card [symmetric]) (simp add: qs(1))
  have "sum_list (map (size_at ?fs) qs) = sum (size_at ?fs) (set qs)"
    using qs(1) by (simp add: sum_list_distinct_conv_sum_set)
  also have "\<dots> = sum (size_at ?fs) F"
    unfolding F by (rule sum.mono_neutral_right) (auto simp: size_at_def)
  finally have "sum_list (map (size_at ?fs) qs) = sum (size_at ?fs) F" .
  then show ?thesis
    using assms(4) card by (simp add: getStats_def D Let_def count_entries qs_def [symmetric])
qed

definition listing_host :: host where
  "listing_host = plain_host\<lparr>entries_below := (\<lambda>fs p.
     sorted_list_of_set {q. fs q \<noteq> None \<and> (\<exists>ws. ws \<noteq> [] \<and> q = p @ ws)})\<rparr>"

lemma listing_host_documented: "iterator_documented listing_host"
  unfolding iterator_documented_def
proof (intro allI impI)
  fix fs :: store and p
  assume "finite {q. fs q \<noteq> None}"
  then have "finite {q. fs q \<noteq> None \<and> (\<exists>ws. ws \<noteq> [] \<and> q = p @ ws)}"
    by (rule rev_finite_subset) auto
  then show "distinct (entries_below listing_host fs p) \<and>
      set (entries_below listing_host fs p) = {q. fs q \<noteq> None \<and> (\<exists>ws. ws \<noteq> [] \<and> q = p @ ws)}"
    by (simp add: listing_host_def)
qed

theorem stats_count_stored_chunks_witness:
  "getStats (plain_env\<lparr>env_host := listing_host\<rparr>) (StorageManager ''/srv''
      [[''srv''] \<mapsto> Directory, [''srv'', ''chunks''] \<mapsto> Directory,
       [''srv'', ''chunks'', ''ab'', ''abcd''] \<mapsto> Regular [1, 2, 3]]) =
    (Inr \<lparr>total_files = 0, stored_chunks = 1, total_bytes = 3, deduplicated_bytes = 0\<rparr>, StorageManager ''/srv''
      [[''srv''] \<mapsto> Directory, [''srv'', ''chunks''] \<mapsto> Directory,
       [''srv'', ''chunks'', ''ab'', ''abcd''] \<mapsto> Regular [1, 2, 3]])"
proof -
  define fs :: store where "fs = [[''srv''] \<mapsto> Directory, [''srv'', ''chunks''] \<mapsto> Directory,
       [''srv'', ''chunks'', ''ab'', ''abcd''] \<mapsto> Regular [1, 2, 3]]"
  let ?env = "plain_env\<lparr>env_host := listing_host\<rparr>" and ?st = "StorageManager ''/srv'' fs"
  have st: "disk ?st = fs" "storage_root ?st = ''/srv''" by (simp_all add: StorageManager_def)
  have root: "root_path ?env ?st = [''srv'']" by (simp add: root_path_def st resolve_def)
  have below: "regular_below fs [''srv'', ''chunks''] = {[''srv'', ''chunks'', ''ab'', ''abcd'']}"
    by (auto simp: regular_below_def files_of_def fs_def split: if_splits)
  have "dom fs = {[''srv''], [''srv'', ''chunks''], [''srv'', ''chunks'', ''ab'', ''abcd'']}"
    by (auto simp: fs_def dom_def split: if_splits)
  then have fin: "finite {q. fs q \<noteq> None}" unfolding dom_def by simp
  have "size_at fs [''srv'', ''chunks'', ''ab'', ''abcd''] = 3"
    by (simp add: size_at_def files_of_def fs_def)
  then show ?thesis
    using stats_count_stored_chunks [of ?env ?st, unfolded root st] fin listing_host_documented
    by (simp add: below is_dir_def fs_def [symmetric]) (simp add: fs_def)
qed

end
