(* ===== verification/Chunker.thy ===== *)
theory Chunker
  imports Hashing
begin

text \<open>
  \<open>include/common/chunker.h\<close> and \<open>src/common/chunker.cpp\<close>: content-defined chunking.
  The loop of \<open>chunkData\<close> is modelled byte by byte on its own variables
  (\<open>chunk_state\<close>); the specification it is proved against is the recursion
  \<open>cut_up\<close>, which consumes the data chunk by chunk and knows neither offsets nor
  statistics. Indices and sizes are \<open>nat\<close>: they are bounded by the size of a vector.
  \<open>avg_size\<close>, a \<open>double\<close> in the code, is the exact quotient.
\<close>

subsection \<open>Data\<close>

record chunk_info =
  ci_offset :: nat
  ci_size :: nat
  ci_hash :: string

record chunk_stats =
  total_chunks :: nat
  min_chunk :: nat
  max_chunk :: nat
  avg_size :: real

definition kMinChunkSize :: nat where
  "kMinChunkSize = 4 * 1024"

definition kAvgChunkSize :: nat where
  "kAvgChunkSize = 64 * 1024"

definition kMaxChunkSize :: nat where
  "kMaxChunkSize = 1024 * 1024"

definition kMaskBits :: nat where
  "kMaskBits = 16"

definition kMask :: u64 where
  "kMask = push_bit kMaskBits 1 - 1"

definition normalized_chunk_size :: nat where
  "normalized_chunk_size = kMinChunkSize + (kAvgChunkSize - kMinChunkSize) div 2"

text \<open>The object: its only state are the statistics of the last run.\<close>

record chunker =
  last_stats :: chunk_stats

subsection \<open>The loop of chunkData\<close>

record chunk_state =
  chunks :: "chunk_info list"
  chunk_start :: nat
  rolling_state :: rolling_hash
  run_min :: nat
  run_max :: nat
  run_total :: nat

text \<open>The two masks of the loop: the smaller one below the normalised size.\<close>

definition loop_boundary :: "u64 \<Rightarrow> nat \<Rightarrow> bool" where
  "loop_boundary h chunk_size =
     (if kMinChunkSize \<le> chunk_size \<and> chunk_size < normalized_chunk_size
      then h AND drop_bit 1 kMask = 0
      else if normalized_chunk_size \<le> chunk_size then h AND kMask = 0
      else False)"

definition emit_chunk :: "'c sha_api \<Rightarrow> bytes \<Rightarrow> nat \<Rightarrow> chunk_state \<Rightarrow> chunk_state" where
  "emit_chunk api data i st =
     (let chunk_data = slice (chunk_start st) (i + 1) data;
          chunk = \<lparr>ci_offset = chunk_start st, ci_size = length chunk_data,
                   ci_hash = sha256 api chunk_data\<rparr>
      in st\<lparr>chunks := chunks st @ [chunk],
            run_min := (if run_min st = 0 \<or> ci_size chunk < run_min st
                        then ci_size chunk else run_min st),
            run_max := (if run_max st < ci_size chunk then ci_size chunk else run_max st),
            run_total := run_total st + ci_size chunk,
            chunk_start := i + 1,
            rolling_state := rh_reset (rolling_state st)\<rparr>)"

definition chunk_step :: "'c sha_api \<Rightarrow> bytes \<Rightarrow> chunk_state \<Rightarrow> nat \<Rightarrow> chunk_state" where
  "chunk_step api data st i =
     (let st = st\<lparr>rolling_state := rh_append (rolling_state st) (data ! i)\<rparr>;
          chunk_size = i + 1 - chunk_start st;
          is_boundary = loop_boundary (rh_hash (rolling_state st)) chunk_size;
          max_size_reached = (kMaxChunkSize \<le> chunk_size);
          is_last_byte = (i = length data - 1)
      in if is_boundary \<or> max_size_reached \<or> is_last_byte then emit_chunk api data i st else st)"

definition chunk_init :: "u64 \<Rightarrow> chunk_state" where
  "chunk_init window = \<lparr>chunks = [], chunk_start = 0, rolling_state = RollingHash window,
     run_min = 0, run_max = 0, run_total = 0\<rparr>"

definition chunk_loop :: "'c sha_api \<Rightarrow> bytes \<Rightarrow> u64 \<Rightarrow> chunk_state" where
  "chunk_loop api data window = foldl (chunk_step api data) (chunk_init window) [0..<length data]"

definition chunkData :: "'c sha_api \<Rightarrow> bytes \<Rightarrow> chunker \<Rightarrow> chunk_info list \<times> chunker" where
  "chunkData api data c =
     (if data = [] then ([], c\<lparr>last_stats := \<lparr>total_chunks = 0, min_chunk = 0, max_chunk = 0, avg_size = 0\<rparr>\<rparr>)
      else
        let st = chunk_loop api data 48 in
        (chunks st,
         c\<lparr>last_stats := \<lparr>total_chunks = length (chunks st), min_chunk = run_min st,
             max_chunk = run_max st,
             avg_size = (if chunks st = [] then 0
                         else real (run_total st) / real (length (chunks st)))\<rparr>\<rparr>))"

definition chunkFile ::
  "'c sha_api \<Rightarrow> host \<Rightarrow> store \<Rightarrow> string \<Rightarrow> chunker \<Rightarrow> chunk_info list \<times> chunker" where
  "chunkFile api h fs filepath c =
     (case read_file h fs filepath of
        None \<Rightarrow> ([], c)
      | Some data \<Rightarrow> chunkData api data c)"

definition getLastStats :: "chunker \<Rightarrow> chunk_stats" where
  "getLastStats c = last_stats c"

text \<open>A chunker that has not run yet, its statistics zero.\<close>

definition no_stats :: chunker where
  "no_stats = \<lparr>last_stats = \<lparr>total_chunks = 0, min_chunk = 0, max_chunk = 0, avg_size = 0\<rparr>\<rparr>"

text \<open>The private predicate of the class, which the loop does not call.\<close>

definition isChunkBoundary :: "u64 \<Rightarrow> nat \<Rightarrow> bool" where
  "isChunkBoundary h current_size =
     (if current_size < kMinChunkSize then False
      else if current_size < kAvgChunkSize then h AND drop_bit 1 kMask = 0
      else h AND kMask = 0)"

subsection \<open>The specification: cutting data up by a rule\<close>

text \<open>
  \<open>cut_up ends cur rest\<close> reads \<open>rest\<close>, with \<open>cur\<close> the bytes of the chunk begun
  before it: a chunk ends at the first byte after which the rule says so, or with the data.
\<close>

fun cut_up :: "('b list \<Rightarrow> bool) \<Rightarrow> 'b list \<Rightarrow> 'b list \<Rightarrow> 'b list list" where
  "cut_up ends cur [] = []"
| "cut_up ends cur (b # rest) =
     (if ends (cur @ [b]) \<or> rest = [] then (cur @ [b]) # cut_up ends [] rest
      else cut_up ends (cur @ [b]) rest)"

text \<open>Nothing before the end of a chunk was a place to cut.\<close>

definition uncut :: "('b list \<Rightarrow> bool) \<Rightarrow> 'b list \<Rightarrow> bool" where
  "uncut ends c \<longleftrightarrow> (\<forall>n. 0 < n \<and> n < length c \<longrightarrow> \<not> ends (take n c))"

locale chunking_rule =
  fixes ends :: "'b list \<Rightarrow> bool" and lo hi :: nat
  assumes lo_pos: "0 < lo" and lo_le_hi: "lo \<le> hi"
    and cut_lo: "ends c \<Longrightarrow> lo \<le> length c"
    and cut_hi: "hi \<le> length c \<Longrightarrow> ends c"
begin

lemma concat_cut_up: "rest \<noteq> [] \<or> cur = [] \<Longrightarrow> concat (cut_up ends cur rest) = cur @ rest"
  by (induction rest arbitrary: cur) auto

lemma cut_up_nonempty: "c \<in> set (cut_up ends cur rest) \<Longrightarrow> c \<noteq> []"
  by (induction rest arbitrary: cur) (auto split: if_splits)

lemma cut_up_hi: "length cur < hi \<Longrightarrow> c \<in> set (cut_up ends cur rest) \<Longrightarrow> length c \<le> hi"
proof (induction rest arbitrary: cur)
  case Nil
  then show ?case by simp
next
  case (Cons b rest)
  have "0 < hi" using lo_pos lo_le_hi by simp
  show ?case
  proof (cases "ends (cur @ [b]) \<or> rest = []")
    case True
    with Cons.prems have "c = cur @ [b] \<or> c \<in> set (cut_up ends [] rest)" by auto
    then show ?thesis using Cons.prems(1) Cons.IH [of "[]"] \<open>0 < hi\<close> by auto
  next
    case False
    then have "length (cur @ [b]) < hi" using cut_hi [of "cur @ [b]"] by force
    with False show ?thesis using Cons.IH [of "cur @ [b]"] Cons.prems(2) by simp
  qed
qed

lemma cut_up_butlast: "c \<in> set (butlast (cut_up ends cur rest)) \<Longrightarrow> ends c"
  by (induction rest arbitrary: cur) (auto split: if_splits)

lemma cut_up_lo: "c \<in> set (butlast (cut_up ends cur rest)) \<Longrightarrow> lo \<le> length c"
  by (rule cut_lo [OF cut_up_butlast])

lemma cut_up_uncut:
  "uncut ends cur \<Longrightarrow> \<not> (cur \<noteq> [] \<and> ends cur) \<Longrightarrow> c \<in> set (cut_up ends cur rest) \<Longrightarrow> uncut ends c"
proof (induction rest arbitrary: cur)
  case Nil
  then show ?case by simp
next
  case (Cons b rest)
  have snoc: "uncut ends (cur @ [b])"
    unfolding uncut_def
  proof (intro allI impI)
    fix n assume n: "0 < n \<and> n < length (cur @ [b])"
    show "\<not> ends (take n (cur @ [b]))"
    proof (cases "n = length cur")
      case True
      with n Cons.prems(2) show ?thesis by auto
    next
      case False
      with n Cons.prems(1) show ?thesis by (auto simp: uncut_def)
    qed
  qed
  have empty: "uncut ends []" by (simp add: uncut_def)
  show ?case
    using Cons.prems(3) snoc Cons.IH [of "[]", OF empty] Cons.IH [of "cur @ [b]", OF snoc]
    by (auto split: if_splits)
qed

text \<open>A chunk that ended at a cut separates the data: what follows is cut up as if alone.\<close>

lemma cut_up_append:
  "xs \<noteq> [] \<Longrightarrow> ends (last (cut_up ends cur xs)) \<Longrightarrow>
   cut_up ends cur (xs @ ys) = cut_up ends cur xs @ cut_up ends [] ys"
proof (induction xs arbitrary: cur)
  case Nil
  then show ?case by simp
next
  case (Cons b xs)
  show ?case
  proof (cases "xs = []")
    case True
    with Cons.prems show ?thesis by simp
  next
    case False
    then have ne: "cut_up ends cur' xs \<noteq> []" for cur'
      using concat_cut_up [of xs cur'] by fastforce
    show ?thesis
      using Cons False ne by auto
  qed
qed

end

subsection \<open>The rule of the loop\<close>

definition content_cut :: "bytes \<Rightarrow> bool" where
  "content_cut c \<longleftrightarrow> loop_boundary (of_nat (fingerprint c)) (length c) \<or> kMaxChunkSize \<le> length c"

lemmas chunk_sizes = kMinChunkSize_def kMaxChunkSize_def kAvgChunkSize_def normalized_chunk_size_def

interpretation content: chunking_rule content_cut kMinChunkSize kMaxChunkSize
  by unfold_locales
    (auto simp: content_cut_def loop_boundary_def chunk_sizes split: if_splits)

text \<open>The chunk records of a list of consecutive chunks.\<close>

fun chunk_infos :: "'c sha_api \<Rightarrow> nat \<Rightarrow> bytes list \<Rightarrow> chunk_info list" where
  "chunk_infos api off [] = []"
| "chunk_infos api off (c # cs) =
     \<lparr>ci_offset = off, ci_size = length c, ci_hash = sha256 api c\<rparr> # chunk_infos api (off + length c) cs"

subsection \<open>The loop implements the specification\<close>

definition loop_ok :: "bytes \<Rightarrow> nat \<Rightarrow> chunk_state \<Rightarrow> bool" where
  "loop_ok data i st \<longleftrightarrow> chunk_start st \<le> i \<and> rh_ok (rolling_state st) \<and>
     unat (rh_hash (rolling_state st)) = fingerprint (slice (chunk_start st) i data)"

lemma loop_ok_init: "loop_ok data 0 (chunk_init w)"
  by (simp add: loop_ok_def chunk_init_def rh_ok_new fingerprint_def) (simp add: RollingHash_def)

lemma step_cases:
  assumes ok: "loop_ok data i st" and i: "i < length data"
  defines "cur \<equiv> slice (chunk_start st) i data @ [data ! i]"
  shows "chunk_step api data st i =
    (if content_cut cur \<or> Suc i = length data
     then emit_chunk api data i (st\<lparr>rolling_state := rh_append (rolling_state st) (data ! i)\<rparr>)
     else st\<lparr>rolling_state := rh_append (rolling_state st) (data ! i)\<rparr>)"
proof -
  have s: "chunk_start st \<le> i" using ok by (simp add: loop_ok_def)
  have cur: "cur = slice (chunk_start st) (Suc i) data"
    unfolding cur_def using s i by (simp add: slice_Suc)
  have len: "length cur = Suc i - chunk_start st"
    unfolding cur using i by (simp add: length_slice)
  have "unat (rh_hash (rh_append (rolling_state st) (data ! i))) = fingerprint cur"
    unfolding cur_def by (rule rolling.digest_push) (use ok in \<open>simp_all add: loop_ok_def\<close>)
  then have "rh_hash (rh_append (rolling_state st) (data ! i)) = of_nat (fingerprint cur)"
    by (rule u64_of_nat)
  then show ?thesis
    using i by (auto simp: chunk_step_def Let_def content_cut_def len)
qed

lemma loop_ok_continue:
  assumes "loop_ok data i st" and "i < length data"
  shows "loop_ok data (Suc i) (st\<lparr>rolling_state := rh_append (rolling_state st) (data ! i)\<rparr>)"
  using assms rolling.digest_push [of "rolling_state st"]
  by (simp add: loop_ok_def rh_ok_append slice_Suc)

lemma loop_ok_emit:
  "rh_ok (rolling_state st) \<Longrightarrow> loop_ok data (Suc i) (emit_chunk api data i st)"
  using rolling.digest_restart [of "rolling_state st"]
  by (simp add: loop_ok_def emit_chunk_def Let_def rh_ok_reset)

lemma loop_chunks:
  assumes "loop_ok data i st" and "i \<le> length data"
  shows "chunks (foldl (chunk_step api data) st [i..<length data]) =
    chunks st @ chunk_infos api (chunk_start st)
      (cut_up content_cut (slice (chunk_start st) i data) (drop i data))"
  using assms
proof (induction "length data - i" arbitrary: i st)
  case 0
  then show ?case by simp
next
  case (Suc n)
  then have i: "i < length data" by simp
  define cur where "cur = slice (chunk_start st) i data @ [data ! i]"
  define app where "app = st\<lparr>rolling_state := rh_append (rolling_state st) (data ! i)\<rparr>"
  define nxt where "nxt = chunk_step api data st i"
  have s: "chunk_start st \<le> i" using Suc.prems(1) by (simp add: loop_ok_def)
  have cur: "slice (chunk_start st) (Suc i) data = cur"
    unfolding cur_def using s i by (simp add: slice_Suc)
  have fold: "foldl (chunk_step api data) st [i..<length data] =
      foldl (chunk_step api data) nxt [Suc i..<length data]"
    using i by (simp add: upt_conv_Cons nxt_def)
  have drop: "drop i data = data ! i # drop (Suc i) data"
    using i by (simp add: Cons_nth_drop_Suc)
  have app_ok: "loop_ok data (Suc i) app"
    unfolding app_def by (rule loop_ok_continue [OF Suc.prems(1) i])
  have start: "chunk_start app = chunk_start st" "chunks app = chunks st"
    by (simp_all add: app_def)
  show ?case
  proof (cases "content_cut cur \<or> Suc i = length data")
    case True
    then have nxt: "nxt = emit_chunk api data i app"
      using step_cases [OF Suc.prems(1) i, of api] by (simp add: nxt_def app_def cur_def)
    have "loop_ok data (Suc i) nxt"
      unfolding nxt using app_ok by (intro loop_ok_emit) (simp add: loop_ok_def)
    then have "chunks (foldl (chunk_step api data) nxt [Suc i..<length data]) =
        chunks nxt @ chunk_infos api (chunk_start nxt)
          (cut_up content_cut (slice (chunk_start nxt) (Suc i) data) (drop (Suc i) data))"
      using Suc.hyps(2) i by (intro Suc.hyps(1)) simp_all
    moreover have "chunk_start nxt = Suc i"
      and "chunks nxt = chunks st @ [\<lparr>ci_offset = chunk_start st, ci_size = length cur, ci_hash = sha256 api cur\<rparr>]"
      by (simp_all add: nxt emit_chunk_def Let_def start cur)
    moreover have "Suc i = chunk_start st + length cur"
      unfolding cur [symmetric] using i s by (simp add: length_slice)
    ultimately show ?thesis
      using True unfolding fold drop by (auto simp: cur_def [symmetric])
  next
    case False
    then have nxt: "nxt = app"
      using step_cases [OF Suc.prems(1) i, of api] by (simp add: nxt_def app_def cur_def)
    have "chunks (foldl (chunk_step api data) nxt [Suc i..<length data]) =
        chunks nxt @ chunk_infos api (chunk_start nxt)
          (cut_up content_cut (slice (chunk_start nxt) (Suc i) data) (drop (Suc i) data))"
      unfolding nxt using Suc.hyps(2) i app_ok by (intro Suc.hyps(1)) simp_all
    moreover have "drop (Suc i) data \<noteq> []" using False i by simp
    ultimately show ?thesis
      using False unfolding fold drop by (simp add: nxt start cur cur_def [symmetric])
  qed
qed

lemma chunk_loop_spec:
  "chunks (chunk_loop api data w) = chunk_infos api 0 (cut_up content_cut [] data)"
  using loop_chunks [OF loop_ok_init, of data api w]
  by (simp add: chunk_loop_def chunk_init_def)

lemma chunkData_spec: "fst (chunkData api data c) = chunk_infos api 0 (cut_up content_cut [] data)"
  by (simp add: chunkData_def Let_def chunk_loop_spec)

subsection \<open>Chunk records against the data\<close>

abbreviation chunk_bytes :: "bytes \<Rightarrow> chunk_info \<Rightarrow> bytes" where
  "chunk_bytes data k \<equiv> slice (ci_offset k) (ci_offset k + ci_size k) data"

lemma chunk_infos_sizes: "map ci_size (chunk_infos api off cs) = map length cs"
  by (induction api off cs rule: chunk_infos.induct) simp_all

lemma chunk_infos_hashes: "map ci_hash (chunk_infos api off cs) = map (sha256 api) cs"
  by (induction api off cs rule: chunk_infos.induct) simp_all

lemma length_chunk_infos [simp]: "length (chunk_infos api off cs) = length cs"
  by (induction api off cs rule: chunk_infos.induct) simp_all

lemma chunk_infos_append:
  "chunk_infos api off (cs @ ds) = chunk_infos api off cs @ chunk_infos api (off + length (concat cs)) ds"
  by (induction api off cs rule: chunk_infos.induct) (simp_all add: add.assoc)

lemma butlast_chunk_infos: "butlast (chunk_infos api off cs) = chunk_infos api off (butlast cs)"
proof (cases cs rule: rev_cases)
  case Nil
  then show ?thesis by simp
next
  case (snoc ds d)
  then show ?thesis by (simp add: chunk_infos_append)
qed

lemma chunk_infos_offsets:
  "i < length cs \<Longrightarrow> ci_offset (chunk_infos api off cs ! i) = off + length (concat (take i cs))"
proof (induction api off cs arbitrary: i rule: chunk_infos.induct)
  case (1 api off)
  then show ?case by simp
next
  case (2 api off c cs)
  then show ?case by (cases i) simp_all
qed

lemma chunk_infos_bytes:
  "map (chunk_bytes (pre @ concat cs @ post)) (chunk_infos api (length pre) cs) = cs"
proof (induction cs arbitrary: pre)
  case Nil
  then show ?case by simp
next
  case (Cons c cs)
  have "chunk_infos api (length pre + length c) cs = chunk_infos api (length (pre @ c)) cs"
    by simp
  moreover have "map (chunk_bytes ((pre @ c) @ concat cs @ post)) (chunk_infos api (length (pre @ c)) cs) = cs"
    by (rule Cons.IH)
  ultimately show ?case by (simp add: slice_def)
qed

lemma chunkData_pieces: "map (chunk_bytes data) (fst (chunkData api data c)) = cut_up content_cut [] data"
  using chunk_infos_bytes [of "[]" "cut_up content_cut [] data" "[]" api]
  by (simp add: chunkData_spec content.concat_cut_up)


lemma chunk_infos_size_in:
  "k \<in> set (chunk_infos api off cs) \<Longrightarrow> \<exists>c \<in> set cs. ci_size k = length c \<and> ci_hash k = sha256 api c"
  by (induction api off cs rule: chunk_infos.induct) auto

lemma chunk_infos_all_offsets:
  "map ci_offset (chunk_infos api 0 cs) =
    map (\<lambda>i. sum_list (map ci_size (take i (chunk_infos api 0 cs)))) [0..<length cs]"
proof (rule nth_equalityI)
  fix i assume "i < length (map ci_offset (chunk_infos api 0 cs))"
  moreover have "sum_list (map ci_size (take i (chunk_infos api 0 cs))) = length (concat (take i cs))"
    unfolding take_map [symmetric] chunk_infos_sizes by (simp add: length_concat take_map)
  ultimately show "map ci_offset (chunk_infos api 0 cs) ! i =
      map (\<lambda>i. sum_list (map ci_size (take i (chunk_infos api 0 cs)))) [0..<length cs] ! i"
    by (simp add: chunk_infos_offsets)
qed simp

lemma chunkData_size:
  assumes "k \<in> set (fst (chunkData api data c))"
  shows "ci_size k = length (chunk_bytes data k)"
proof -
  let ?ks = "fst (chunkData api data c)"
  have "map ci_size ?ks = map length (map (chunk_bytes data) ?ks)"
    unfolding chunkData_pieces by (simp add: chunkData_spec chunk_infos_sizes)
  then have "\<forall>k \<in> set ?ks. ci_size k = length (chunk_bytes data k)"
    unfolding map_map comp_def map_eq_conv .
  with assms show ?thesis by blast
qed

lemma chunkData_hashes:
  "map ci_hash (fst (chunkData api data c)) =
    map (\<lambda>k. sha256 api (chunk_bytes data k)) (fst (chunkData api data c))"
proof -
  have "map ci_hash (fst (chunkData api data c)) = map (sha256 api) (map (chunk_bytes data) (fst (chunkData api data c)))"
    unfolding chunkData_pieces by (simp add: chunkData_spec chunk_infos_hashes)
  then show ?thesis unfolding map_map comp_def .
qed

lemma chunkData_piece:
  "k \<in> set (fst (chunkData api data c)) \<Longrightarrow> chunk_bytes data k \<in> set (cut_up content_cut [] data)"
  unfolding chunkData_pieces [of data api c, symmetric] set_map by (rule imageI)

lemma chunkData_butlast_piece:
  "k \<in> set (butlast (fst (chunkData api data c))) \<Longrightarrow>
   chunk_bytes data k \<in> set (butlast (cut_up content_cut [] data))"
  unfolding chunkData_pieces [of data api c, symmetric] map_butlast [symmetric] set_map by (rule imageI)

text \<open>Zeros cut as soon as a chunk has its minimum size.\<close>

lemma fingerprint_zeros: "fingerprint (replicate n 0) = 0"
proof -
  have "poly_hash (replicate n 0) = 0"
    by (induction n) (simp_all add: poly_hash_Cons)
  then show ?thesis by (simp add: fingerprint_def)
qed

lemma zeros_cut: "content_cut (replicate 4096 0)"
  by (simp add: content_cut_def loop_boundary_def fingerprint_zeros chunk_sizes)

lemma cut_up_one_block:
  "last (cut_up content_cut [] (replicate 4096 0)) = replicate 4096 0"
proof -
  let ?cs = "cut_up content_cut [] (replicate 4096 0)"
  have all: "concat ?cs = replicate 4096 0" by (simp add: content.concat_cut_up)
  then have ne: "?cs \<noteq> []" by auto
  then have split: "concat (butlast ?cs) @ last ?cs = replicate 4096 0"
    using all by (metis append_butlast_last_id concat.simps concat_append append_Nil2)
  have "butlast ?cs = []"
  proof (rule ccontr)
    assume "butlast ?cs \<noteq> []"
    then obtain d ds where d: "butlast ?cs = d # ds" by (cases "butlast ?cs") auto
    then have "4096 \<le> length d"
      using content.cut_up_lo [of d "[]" "replicate 4096 0"] by (simp add: kMinChunkSize_def)
    moreover have "0 < length (last ?cs)"
      using content.cut_up_nonempty [OF last_in_set [OF ne]] by simp
    moreover have "length (concat (butlast ?cs)) + length (last ?cs) = 4096"
      using arg_cong [OF split, of length] by simp
    ultimately show False unfolding d concat.simps length_append by linarith
  qed
  with split show ?thesis by simp
qed

text \<open>The data of the witnesses: a block of zeros that is cut at its end, then three bytes.\<close>

definition two_chunks :: bytes where
  "two_chunks = replicate 4096 0 @ [1, 2, 3]"

lemma two_chunks_cut: "cut_up content_cut [] two_chunks = [replicate 4096 0, [1, 2, 3]]"
proof -
  have short: "\<not> content_cut [1]" "\<not> content_cut [1, 2]"
    by (simp_all add: content_cut_def loop_boundary_def chunk_sizes)
  have "cut_up content_cut [] (replicate 4096 0) = [replicate 4096 0]"
  proof -
    let ?cs = "cut_up content_cut [] (replicate 4096 0)"
    have all: "concat ?cs = replicate 4096 0" by (simp add: content.concat_cut_up)
    then have "?cs \<noteq> []" by auto
    then have cs: "?cs = butlast ?cs @ [replicate 4096 0]"
      using cut_up_one_block by (metis append_butlast_last_id)
    have "concat (butlast ?cs) @ replicate 4096 0 = replicate 4096 0"
      using all by (subst (asm) cs) simp
    then have "concat (butlast ?cs) = []" by simp
    moreover have "\<forall>c \<in> set (butlast ?cs). c \<noteq> []"
      using content.cut_up_nonempty in_set_butlastD by metis
    ultimately have "butlast ?cs = []" by (cases "butlast ?cs") auto
    with cs show ?thesis by simp
  qed
  moreover have "cut_up content_cut [] [1, 2, 3] = [[1, 2, 3]]" by (simp add: short)
  moreover have "cut_up content_cut [] two_chunks =
      cut_up content_cut [] (replicate 4096 0) @ cut_up content_cut [] [1, 2, 3]"
    unfolding two_chunks_def
    by (rule content.cut_up_append) (simp, simp only: cut_up_one_block zeros_cut)
  ultimately show ?thesis by simp
qed

lemma masks: "kMask = 0xFFFF" "drop_bit 1 kMask = 0x7FFF"
  by (simp_all add: kMask_def kMaskBits_def)

lemma masks_nested: "h AND 0xFFFF = 0 \<Longrightarrow> h AND (0x7FFF :: u64) = 0"
proof -
  assume "h AND 0xFFFF = 0"
  moreover have "h AND 0x7FFF = (h AND 0xFFFF) AND 0x7FFF"
    by (simp add: and.assoc)
  ultimately show ?thesis by simp
qed

subsection \<open>Statistics\<close>

definition pick_min :: "nat \<Rightarrow> nat \<Rightarrow> nat" where
  "pick_min m s = (if m = 0 \<or> s < m then s else m)"

definition stats_ok :: "chunk_state \<Rightarrow> bool" where
  "stats_ok st \<longleftrightarrow> run_min st = foldl pick_min 0 (map ci_size (chunks st)) \<and>
     run_max st = foldl max 0 (map ci_size (chunks st)) \<and>
     run_total st = sum_list (map ci_size (chunks st))"

lemma stats_ok_step: "stats_ok st \<Longrightarrow> stats_ok (chunk_step api data st i)"
  by (simp add: stats_ok_def chunk_step_def emit_chunk_def Let_def pick_min_def max_def)

lemma stats_ok_loop: "stats_ok (chunk_loop api data w)"
proof -
  have "stats_ok st \<Longrightarrow> stats_ok (foldl (chunk_step api data) st js)" for st js
    by (induction js arbitrary: st) (simp_all add: stats_ok_step)
  moreover have "stats_ok (chunk_init w)" by (simp add: stats_ok_def chunk_init_def)
  ultimately show ?thesis by (simp add: chunk_loop_def)
qed

lemma foldl_pick_min:
  "0 < m \<Longrightarrow> \<forall>s \<in> set ss. 0 < s \<Longrightarrow> foldl pick_min m ss = Min (insert m (set ss))"
proof (induction ss arbitrary: m)
  case Nil
  then show ?case by simp
next
  case (Cons s ss)
  have p: "pick_min m s = min m s" using Cons.prems by (auto simp: pick_min_def)
  have "foldl pick_min (min m s) ss = Min (insert (min m s) (set ss))"
    using Cons.prems by (intro Cons.IH) auto
  then show ?case
    by (cases "ss = []") (simp_all add: p min.assoc)
qed

lemma foldl_pick_min_0:
  "ss \<noteq> [] \<Longrightarrow> \<forall>s \<in> set ss. 0 < s \<Longrightarrow> foldl pick_min 0 ss = Min (set ss)"
  by (cases ss) (auto simp: pick_min_def foldl_pick_min)

lemma foldl_max_0: "ss \<noteq> [] \<Longrightarrow> foldl max (0::nat) ss = Max (set ss)"
proof (induction ss rule: rev_induct)
  case Nil
  then show ?case by simp
next
  case (snoc s ss)
  then show ?case by (cases "ss = []") (simp_all add: max.commute)
qed

lemma sum_list_chunk_sizes: "sum_list (map ci_size (fst (chunkData api data c))) = length data"
proof -
  have "sum_list (map length (cut_up content_cut [] data)) = length (concat (cut_up content_cut [] data))"
    by (simp add: length_concat)
  then show ?thesis by (simp add: chunkData_spec chunk_infos_sizes content.concat_cut_up)
qed

lemma chunkData_sizes_pos: "\<forall>s \<in> set (map ci_size (fst (chunkData api data c))). 0 < s"
  unfolding chunkData_spec chunk_infos_sizes using content.cut_up_nonempty [of _ "[]" data] by auto

lemma chunkData_empty_iff: "fst (chunkData api data c) = [] \<longleftrightarrow> data = []"
proof -
  have "cut_up content_cut [] data = [] \<longleftrightarrow> data = []"
    using content.concat_cut_up [of data "[]"] by (cases data) auto
  then show ?thesis
    by (metis chunkData_spec length_chunk_infos length_0_conv)
qed

subsection \<open>Properties\<close>

text \<open>C5: the byte-by-byte loop of \<open>chunkData\<close> (rolling hash, two masks, maximum size, last byte,
  reset at every cut) produces exactly the chunk records of the specification that cuts the data up
  chunk by chunk wherever the fingerprint of the bytes since the last cut says so.\<close>

theorem chunkData_refines_cut_up:
  "fst (chunkData api data c) = chunk_infos api 0 (cut_up content_cut [] data)"
  by (rule chunkData_spec)

text \<open>C13: the chunks of a buffer cover it without gap or overlap: the byte ranges the records name,
  in order, concatenate to the buffer, each record begins where the sizes before it end, and each hash
  is the SHA-256 of its range.\<close>

theorem chunks_partition_data:
  "let ks = fst (chunkData api data c) in
     concat (map (chunk_bytes data) ks) = data \<and>
     map ci_hash ks = map (\<lambda>k. sha256 api (chunk_bytes data k)) ks \<and>
     map ci_offset ks = map (\<lambda>i. sum_list (map ci_size (take i ks))) [0..<length ks]"
proof -
  let ?cs = "cut_up content_cut [] data"
  have "map ci_hash (chunk_infos api 0 ?cs) = map (\<lambda>k. sha256 api (chunk_bytes data k)) (chunk_infos api 0 ?cs)"
    using chunkData_hashes [of api data c] unfolding chunkData_spec .
  moreover have "map ci_offset (chunk_infos api 0 ?cs) =
      map (\<lambda>i. sum_list (map ci_size (take i (chunk_infos api 0 ?cs)))) [0..<length ?cs]"
    by (rule chunk_infos_all_offsets)
  ultimately show ?thesis
    using chunkData_pieces [of data api c] content.concat_cut_up [of data "[]"]
    by (simp add: chunkData_spec)
qed

text \<open>C14: every chunk has between 1 byte and \<open>kMaxChunkSize\<close>, and every chunk but the last has at
  least \<open>kMinChunkSize\<close>, ends where the content rule cuts, and no chunk runs past a place where
  the rule cuts.\<close>

theorem chunk_sizes_bounded:
  "(\<forall>k \<in> set (fst (chunkData api data c)). 0 < ci_size k \<and> ci_size k \<le> kMaxChunkSize \<and>
      uncut content_cut (chunk_bytes data k)) \<and>
   (\<forall>k \<in> set (butlast (fst (chunkData api data c))). kMinChunkSize \<le> ci_size k \<and>
      content_cut (chunk_bytes data k))"
proof -
  have "uncut content_cut []" by (simp add: uncut_def)
  then have "uncut content_cut d" if "d \<in> set (cut_up content_cut [] data)" for d
    using content.cut_up_uncut [of "[]" d data] that by simp
  moreover have "0 < length d \<and> length d \<le> kMaxChunkSize" if "d \<in> set (cut_up content_cut [] data)" for d
    using content.cut_up_nonempty [OF that] content.cut_up_hi [OF _ that]
    by (simp add: kMaxChunkSize_def)
  ultimately have "\<forall>k \<in> set (fst (chunkData api data c)). 0 < ci_size k \<and> ci_size k \<le> kMaxChunkSize \<and>
      uncut content_cut (chunk_bytes data k)"
    using chunkData_size chunkData_piece by metis
  moreover have "\<forall>k \<in> set (butlast (fst (chunkData api data c))). kMinChunkSize \<le> ci_size k \<and>
      content_cut (chunk_bytes data k)"
    using chunkData_size chunkData_butlast_piece content.cut_up_lo content.cut_up_butlast in_set_butlastD
    by metis
  ultimately show ?thesis by blast
qed

theorem chunk_sizes_bounded_witness:
  "kMinChunkSize \<le> ci_size (fst (chunkData toy_sha two_chunks no_stats) ! 0) \<and>
    0 < ci_size (fst (chunkData toy_sha two_chunks no_stats) ! 1) \<and>
    ci_size (fst (chunkData toy_sha two_chunks no_stats) ! 1) \<le> kMaxChunkSize"
proof -
  obtain k k' where ks: "fst (chunkData toy_sha two_chunks no_stats) = [k, k']"
    by (simp add: chunkData_spec two_chunks_cut)
  then show ?thesis
    using chunk_sizes_bounded [of toy_sha two_chunks no_stats] by simp
qed

text \<open>Chunking is local. If a buffer's last chunk ends where the content rule cuts, then appending
  any bytes leaves its chunks as they are and chunks the appended bytes as if they stood alone, so their
  chunk hashes, the keys of deduplication, are the same.\<close>

theorem chunking_is_local:
  assumes "xs \<noteq> []" and "content_cut (last (cut_up content_cut [] xs))"
  shows "map ci_hash (fst (chunkData api (xs @ ys) c)) =
    map ci_hash (fst (chunkData api xs c)) @ map ci_hash (fst (chunkData api ys c))"
  using content.cut_up_append [OF assms, of ys]
  by (simp add: chunkData_spec chunk_infos_hashes)

theorem chunking_is_local_witness:
  "map ci_hash (fst (chunkData toy_sha (replicate 4096 0 @ [1, 2, 3]) no_stats)) =
    map ci_hash (fst (chunkData toy_sha (replicate 4096 0) no_stats)) @ map ci_hash (fst (chunkData toy_sha [1, 2, 3] no_stats))"
proof (rule chunking_is_local)
  show "replicate 4096 (0::u8) \<noteq> []" by simp
  show "content_cut (last (cut_up content_cut [] (replicate 4096 0)))"
    unfolding cut_up_one_block by (rule zeros_cut)
qed

text \<open>The statistics of a run are the number of chunks, their least and greatest size, and the
  average whose product with the count is the size of the data; for an empty buffer they are all 0.\<close>

theorem chunk_statistics:
  "let (ks, c') = chunkData api data c; st = getLastStats c'; sizes = set (map ci_size ks) in
     (if data = [] then ks = [] \<and> total_chunks st = 0 \<and> min_chunk st = 0 \<and> max_chunk st = 0 \<and> avg_size st = 0
      else 0 < total_chunks st \<and> total_chunks st = length ks \<and>
        min_chunk st = Min sizes \<and> max_chunk st = Max sizes \<and>
        avg_size st * real (total_chunks st) = real (length data))"
proof (cases "data = []")
  case True
  then show ?thesis by (simp add: chunkData_def getLastStats_def)
next
  case False
  let ?st = "chunk_loop api data 48"
  have ks: "fst (chunkData api data c) = chunks ?st"
    using False by (simp add: chunkData_def Let_def)
  have ne: "chunks ?st \<noteq> []"
    using chunkData_empty_iff [of api data c] False ks by simp
  have "run_min ?st = Min (set (map ci_size (chunks ?st)))"
    and "run_max ?st = Max (set (map ci_size (chunks ?st)))"
    and "run_total ?st = length data"
    using stats_ok_loop [of api data 48] ne chunkData_sizes_pos [of api data c]
      sum_list_chunk_sizes [of api data c]
    unfolding ks stats_ok_def by (simp_all add: foldl_pick_min_0 foldl_max_0)
  with False ne show ?thesis
    by (simp add: chunkData_def getLastStats_def Let_def)
qed

text \<open>The 48-byte window named in the code has no effect: the loop only ever appends, so every
  window size gives the same chunks.\<close>

theorem window_size_is_irrelevant:
  "chunks (chunk_loop api data w) = chunks (chunk_loop api data w')"
  unfolding chunk_loop_spec ..

text \<open>The class's own predicate \<open>isChunkBoundary\<close>, which nothing calls, is not the rule of the
  loop: the two differ exactly for chunks of at least the normalised size and below the average size
  whose hash has its 15 low bits clear and bit 15 set.\<close>

theorem isChunkBoundary_differs:
  "isChunkBoundary h n = loop_boundary h n \<longleftrightarrow>
    \<not> (normalized_chunk_size \<le> n \<and> n < kAvgChunkSize \<and> h AND 0x7FFF = 0 \<and> h AND 0xFFFF \<noteq> 0)"
  using masks_nested [of h]
  by (auto simp: isChunkBoundary_def loop_boundary_def chunk_sizes masks)

end
