(* ===== verification/Sync_Service.thy ===== *)
theory Sync_Service
  imports Storage_Properties Chunker
begin

text \<open>
  \<open>include/server/sync_service.h\<close>, \<open>src/server/sync_service.cpp\<close> and the messages of
  \<open>proto/sync.proto\<close> they exchange. gRPC delivers a client stream as a list of messages and
  collects the messages written; a handler is an action on the storage that ends with a status and
  a response, or with the exception of the file system that leaves it. A message field that was not set
  has the default of proto3. The clock is an argument.
\<close>

subsection \<open>Messages\<close>

record file_metadata =
  md_path :: string
  md_size :: int
  md_modified_time :: int
  md_hash :: string
  md_version :: int
  md_is_directory :: bool
  md_deleted :: bool

record chunk_message =
  cm_index :: int
  cm_offset :: int
  cm_size :: int
  cm_hash :: string
  cm_data :: bytes

datatype change_type = CREATED | MODIFIED | DELETED | RENAMED

record file_change =
  fc_path :: string
  fc_type :: change_type
  fc_old_path :: string
  fc_metadata :: "file_metadata option"

record sync_request =
  sr_client_id :: string
  sr_local_files :: "file_metadata list"
  sr_last_sync_time :: int

record sync_response =
  sp_changes :: "file_change list"
  sp_server_time :: int
  sp_conflicts :: "string list"

record upload_request =
  up_client_id :: string
  up_file_path :: string
  up_chunk :: chunk_message
  up_total_chunks :: int

record upload_response =
  ur_success :: bool
  ur_message :: string
  ur_chunks_received :: int

record download_request =
  dr_client_id :: string
  dr_file_path :: string
  dr_chunk_hashes :: "string list"

record download_response =
  dp_chunk :: "chunk_message option"
  dp_is_last :: bool

datatype strategy = KEEP_LOCAL | KEEP_REMOTE | KEEP_BOTH

record resolution_request =
  cq_client_id :: string
  cq_file_path :: string
  cq_strategy :: strategy

record resolution_response =
  cp_success :: bool
  cp_resolved_path :: string

record heartbeat_request =
  hb_client_id :: string
  hb_timestamp :: int

record heartbeat_response =
  hr_server_timestamp :: int

datatype status = Status_OK | Status_NOT_FOUND string

subsection \<open>Handlers\<close>

definition SyncServiceImpl :: "'c env \<Rightarrow> string \<Rightarrow> store \<Rightarrow> (fs_exception + bool) \<times> storage" where
  "SyncServiceImpl env dir fs = initialize_storage env (StorageManager dir fs)"

definition new_change :: "string \<Rightarrow> change_type \<Rightarrow> file_change" where
  "new_change p t = \<lparr>fc_path = p, fc_type = t, fc_old_path = [], fc_metadata = None\<rparr>"

text \<open>The inner loop of \<open>computeChanges\<close>: whether the path was found, and the changes it pushed.\<close>

fun scan_local :: "file_record \<Rightarrow> file_metadata list \<Rightarrow> bool \<times> file_change list" where
  "scan_local server_file [] = (False, [])"
| "scan_local server_file (local_file # rest) =
     (if md_path local_file = fr_path server_file
      then (True, if md_hash local_file \<noteq> fr_hash server_file
                  then [new_change (fr_path server_file) MODIFIED] else [])
      else scan_local server_file rest)"

fun changes_loop :: "file_metadata list \<Rightarrow> int \<Rightarrow> file_record list \<Rightarrow> file_change list" where
  "changes_loop local_files last_sync_time [] = []"
| "changes_loop local_files last_sync_time (server_file # rest) =
     (case scan_local server_file local_files of (found, pushed) \<Rightarrow>
        pushed @
        (if \<not> found \<and> last_sync_time < fr_modified_time server_file
         then [new_change (fr_path server_file) CREATED] else []) @
        changes_loop local_files last_sync_time rest)"

definition computeChanges ::
  "'c env \<Rightarrow> string \<Rightarrow> file_metadata list \<Rightarrow> int \<Rightarrow> file_change list action" where
  "computeChanges env client_id local_files last_sync_time =
     seq (listFiles env client_id) (\<lambda>server_files. ret (changes_loop local_files last_sync_time server_files))"

definition Sync :: "'c env \<Rightarrow> int \<Rightarrow> sync_request \<Rightarrow> (status \<times> sync_response) action" where
  "Sync env now request =
     seq (listFiles env (sr_client_id request))
       (\<lambda>_. seq (computeChanges env (sr_client_id request) (sr_local_files request) (sr_last_sync_time request))
         (\<lambda>changes. ret (Status_OK, \<lparr>sp_changes = changes, sp_server_time = now, sp_conflicts = []\<rparr>)))"

text \<open>The variables of the loop of \<open>UploadFile\<close>.\<close>

record upload =
  ul_client_id :: string
  ul_filepath :: string
  ul_total_chunks :: int
  ul_chunks_received :: int

definition new_upload :: upload where
  "new_upload = \<lparr>ul_client_id = [], ul_filepath = [], ul_total_chunks = 0, ul_chunks_received = 0\<rparr>"

definition note_request :: "upload_request \<Rightarrow> upload \<Rightarrow> upload" where
  "note_request request u =
     (if ul_client_id u = []
      then u\<lparr>ul_client_id := up_client_id request, ul_filepath := up_file_path request,
             ul_total_chunks := up_total_chunks request\<rparr>
      else u)"

fun upload_loop :: "'c env \<Rightarrow> upload \<Rightarrow> upload_request list \<Rightarrow> (bool \<times> upload) action" where
  "upload_loop env u [] = ret (True, u)"
| "upload_loop env u (request # requests) =
     (let u = note_request request u; chunk = up_chunk request in
      seq (storeChunk env (ul_client_id u) (ul_filepath u) (cm_index chunk) (cm_data chunk) (cm_hash chunk))
        (\<lambda>stored. if \<not> stored then ret (False, u)
          else upload_loop env (u\<lparr>ul_chunks_received := ul_chunks_received u + 1\<rparr>) requests))"

definition UploadFile ::
  "'c env \<Rightarrow> int \<Rightarrow> int \<Rightarrow> upload_request list \<Rightarrow> (status \<times> upload_response) action" where
  "UploadFile env now junk requests =
     seq (upload_loop env new_upload requests)
       (\<lambda>(stored, u).
         if \<not> stored
         then ret (Status_OK, \<lparr>ur_success = False, ur_message = ''Failed to store chunk'', ur_chunks_received = 0\<rparr>)
         else seq (finalizeFile env now junk (ul_client_id u) (ul_filepath u) (ul_total_chunks u))
           (\<lambda>finalized. ret (Status_OK,
              if finalized
              then \<lparr>ur_success = True, ur_message = [], ur_chunks_received = ul_chunks_received u\<rparr>
              else \<lparr>ur_success = False, ur_message = ''Failed to finalize file'', ur_chunks_received = 0\<rparr>)))"

text \<open>The status and the messages written to the stream.\<close>

definition DownloadFile :: "'c env \<Rightarrow> download_request \<Rightarrow> (status \<times> download_response list) action" where
  "DownloadFile env request =
     seq (getFileMetadata env (dr_client_id request) (dr_file_path request))
       (\<lambda>metadata. case metadata of
          None \<Rightarrow> ret (Status_NOT_FOUND ''File not found'', [])
        | Some _ \<Rightarrow> ret (Status_OK, [\<lparr>dp_chunk = None, dp_is_last = True\<rparr>]))"

definition ResolveConflict :: "resolution_request \<Rightarrow> (status \<times> resolution_response) action" where
  "ResolveConflict request =
     ret (Status_OK, \<lparr>cp_success = True, cp_resolved_path = cq_file_path request\<rparr>)"

text \<open>The loop reads every change and writes nothing.\<close>

fun StreamSync :: "file_change list \<Rightarrow> (status \<times> file_change list) action" where
  "StreamSync [] = ret (Status_OK, [])"
| "StreamSync (change # rest) = StreamSync rest"

definition Heartbeat :: "int \<Rightarrow> heartbeat_request \<Rightarrow> (status \<times> heartbeat_response) action" where
  "Heartbeat now request = ret (Status_OK, \<lparr>hr_server_timestamp = now\<rparr>)"

definition detectConflict :: "file_metadata \<Rightarrow> file_record \<Rightarrow> bool" where
  "detectConflict loc server \<longleftrightarrow>
     md_hash loc \<noteq> fr_hash server \<and> 0 < md_version loc \<and> 0 < fr_version server"

subsection \<open>The upload loop stores the chunks\<close>

definition request_chunk :: "upload_request \<Rightarrow> int \<times> bytes \<times> string" where
  "request_chunk r = (cm_index (up_chunk r), cm_data (up_chunk r), cm_hash (up_chunk r))"

lemma upload_loop_stores:
  assumes "ul_client_id u = i" and "ul_filepath u = f" and "i \<noteq> []"
    and "store_chunks env i f (map request_chunk rs) st = (Inr True, st')"
  shows "upload_loop env u rs st =
    (Inr (True, u\<lparr>ul_chunks_received := ul_chunks_received u + int (length rs)\<rparr>), st')"
  using assms
proof (induction rs arbitrary: u st)
  case Nil
  then show ?case by (simp add: ret_def)
next
  case (Cons r rs)
  have keep: "note_request r u = u" using Cons.prems(1,3) by (simp add: note_request_def)
  have r: "request_chunk r = (cm_index (up_chunk r), cm_data (up_chunk r), cm_hash (up_chunk r))"
    by (simp add: request_chunk_def)
  obtain st1 where st1: "storeChunk env i f (cm_index (up_chunk r)) (cm_data (up_chunk r)) (cm_hash (up_chunk r)) st
      = (Inr True, st1)" "store_chunks env i f (map request_chunk rs) st1 = (Inr True, st')"
    using Cons.prems(4) by (auto simp: r seq_def ret_def split: sum.splits prod.splits if_splits)
  have "upload_loop env (u\<lparr>ul_chunks_received := ul_chunks_received u + 1\<rparr>) rs st1 =
      (Inr (True, u\<lparr>ul_chunks_received := ul_chunks_received u + 1 + int (length rs)\<rparr>), st')"
    using Cons.IH [of "u\<lparr>ul_chunks_received := ul_chunks_received u + 1\<rparr>" st1] Cons.prems(1-3) st1(2) by simp
  then show ?case
    using Cons.prems(1,2) st1(1) by (simp add: Let_def keep seq_def ac_simps)
qed

text \<open>Only the first request decides for which client, which file and how many chunks.\<close>

lemma UploadFile_finalizes:
  assumes "rs \<noteq> []" and "up_client_id (hd rs) = i" and "up_file_path (hd rs) = f"
    and "up_total_chunks (hd rs) = n" and "i \<noteq> []"
    and "store_chunks env i f (map request_chunk rs) st = (Inr True, st')"
  shows "UploadFile env now junk rs st =
    seq (finalizeFile env now junk i f n)
      (\<lambda>finalized. ret (Status_OK,
         if finalized then \<lparr>ur_success = True, ur_message = [], ur_chunks_received = int (length rs)\<rparr>
         else \<lparr>ur_success = False, ur_message = ''Failed to finalize file'', ur_chunks_received = 0\<rparr>)) st'"
proof -
  define u where "u = \<lparr>ul_client_id = i, ul_filepath = f, ul_total_chunks = n, ul_chunks_received = 0\<rparr>"
  obtain r rs' where rs: "rs = r # rs'" using assms(1) by (cases rs) auto
  have "note_request r new_upload = note_request r u"
    using assms(2-5) by (simp add: rs note_request_def new_upload_def u_def)
  then have "upload_loop env new_upload rs st = upload_loop env u rs st" by (simp add: rs)
  also have "\<dots> = (Inr (True, u\<lparr>ul_chunks_received := int (length rs)\<rparr>), st')"
    using upload_loop_stores [of u i f env rs st st'] assms(5,6) by (simp add: u_def)
  finally show ?thesis
    unfolding UploadFile_def seq_def [of "upload_loop env new_upload rs"] by (simp add: u_def cong: if_cong)
qed

subsection \<open>The chunks of an upload as they arrive\<close>

text \<open>The requests that carry the chunks of a file of bytes \<open>data\<close>, in the order of the chunks.\<close>

definition chunk_request :: "'c sha_api \<Rightarrow> string \<Rightarrow> string \<Rightarrow> bytes \<Rightarrow> nat \<Rightarrow> nat \<times> chunk_info \<Rightarrow> upload_request" where
  "chunk_request api i f data n = (\<lambda>(j, k). \<lparr>up_client_id = i, up_file_path = f,
     up_chunk = \<lparr>cm_index = int j, cm_offset = int (ci_offset k), cm_size = int (ci_size k),
       cm_hash = ci_hash k, cm_data = chunk_bytes data k\<rparr>, up_total_chunks = int n\<rparr>)"

definition upload_requests :: "'c sha_api \<Rightarrow> string \<Rightarrow> string \<Rightarrow> bytes \<Rightarrow> upload_request list" where
  "upload_requests api i f data =
     (let ks = fst (chunkData api data no_stats)
      in map (chunk_request api i f data (length ks)) (enumerate 0 ks))"

lemma chunk_request_simps [simp]:
  "up_client_id (chunk_request api i f data n p) = i" "up_file_path (chunk_request api i f data n p) = f"
  "up_total_chunks (chunk_request api i f data n p) = int n"
  by (simp_all add: chunk_request_def split: prod.split)

text \<open>The pieces the data is cut into, with their indices and digests.\<close>

definition piece_chunks :: "'c sha_api \<Rightarrow> bytes list \<Rightarrow> (int \<times> bytes \<times> string) list" where
  "piece_chunks api ps = map (\<lambda>(j, p). (int j, p, sha256 api p)) (enumerate 0 ps)"

lemma enumerate_map: "enumerate n (map g xs) = map (\<lambda>(j, x). (j, g x)) (enumerate n xs)"
  by (induction xs arbitrary: n) simp_all

lemma upload_requests_chunks:
  "map request_chunk (upload_requests api i f data) = piece_chunks api (cut_up content_cut [] data)"
proof -
  define ks where "ks = fst (chunkData api data
    no_stats)"
  have "ci_hash k = sha256 api (chunk_bytes data k)" if "k \<in> set ks" for k
    using chunkData_hashes [of api data "no_stats"]
      that by (simp add: ks_def)
  then have "ci_hash (snd p) = sha256 api (chunk_bytes data (snd p))" if "p \<in> set (enumerate 0 ks)" for p
    using that by (metis enumerate_eq_zip prod.collapse set_zip_rightD)
  then show ?thesis
    unfolding upload_requests_def Let_def ks_def [symmetric] piece_chunks_def
      chunkData_pieces [of data api "no_stats", symmetric]
      enumerate_map
    by (auto simp: ks_def [symmetric] request_chunk_def chunk_request_def)
qed

lemma length_upload_requests: "length (upload_requests api i f data) = length (cut_up content_cut [] data)"
  using arg_cong [OF upload_requests_chunks [of api i f data], of length] by (simp add: piece_chunks_def)

lemma upload_requests_fields:
  assumes "r \<in> set (upload_requests api i f data)"
  shows "up_client_id r = i" "up_file_path r = f" "up_total_chunks r = int (length (upload_requests api i f data))"
  using assms by (auto simp: upload_requests_def Let_def)

text \<open>Digests of the pieces are distinct, and none of them is taken for other bytes.\<close>

definition no_collision :: "'c env \<Rightarrow> storage \<Rightarrow> bytes \<Rightarrow> bool" where
  "no_collision env st data \<longleftrightarrow> inj_on (sha256 (env_sha env)) (set (cut_up content_cut [] data)) \<and>
     (\<forall>p \<in> set (cut_up content_cut [] data). chunk_get (env, st) (sha256 (env_sha env) p) \<in> {None, Some p})"

lemma piece_chunks_set: "(j, p, k) \<in> set (piece_chunks api ps) \<Longrightarrow> p \<in> set ps \<and> k = sha256 api p"
proof -
  assume "(j, p, k) \<in> set (piece_chunks api ps)"
  then obtain m where m: "(m, p) \<in> set (enumerate 0 ps)" "k = sha256 api p"
    by (auto simp: piece_chunks_def)
  from m(1) have "p \<in> set ps" by (metis enumerate_eq_zip set_zip_rightD)
  with m(2) show ?thesis by simp
qed

lemma piece_chunks_mem: "p \<in> set ps \<Longrightarrow> \<exists>j. (j, p, sha256 api p) \<in> set (piece_chunks api ps)"
proof -
  assume "p \<in> set ps"
  then obtain m where "m < length ps" "ps ! m = p" by (auto simp: in_set_conv_nth)
  then have "(m, p) \<in> set (enumerate 0 ps)" by (auto simp: in_set_enumerate_eq)
  then show ?thesis by (force simp: piece_chunks_def)
qed

lemma piece_chunks_consistent:
  assumes "sha_documented (env_sha env)" and "no_collision env st data"
    and "set cs = set (piece_chunks (env_sha env) (cut_up content_cut [] data))"
  shows "consistent_chunks (env, st) cs"
  unfolding consistent_chunks_def
proof (intro conjI)
  have mem: "p \<in> set (cut_up content_cut [] data) \<and> k = sha256 (env_sha env) p" if "(j, p, k) \<in> set cs" for j p k
    using that piece_chunks_set unfolding assms(3) by blast
  show "\<forall>(j, p, k) \<in> set cs. chunk_name k"
    using mem chunk_name_sha256 [OF assms(1)] by blast
  show "\<forall>(j, p, k) \<in> set cs. chunk_get (env, st) k = None \<or> chunk_get (env, st) k = Some p"
    using mem assms(2) by (fastforce simp: no_collision_def)
  show "single_valued (set (map chunk_pair cs))"
    using mem assms(2) by (fastforce simp: single_valued_def chunk_pair_def no_collision_def inj_on_def)
qed

lemma chunk_meta_fst: "map fst (map chunk_meta cs) = map fst cs"
  by (auto simp: chunk_meta_def)

lemma map_enumerate:
  "map (\<lambda>c. g (fst c)) (enumerate n xs) = map g [n..<n + length xs]"
  "map (\<lambda>c. h (snd c)) (enumerate n xs) = map h xs"
proof -
  show "map (\<lambda>c. g (fst c)) (enumerate n xs) = map g [n..<n + length xs]"
    using map_map [of g fst "enumerate n xs"] by (simp add: comp_def)
  show "map (\<lambda>c. h (snd c)) (enumerate n xs) = map h xs"
    using map_map [of h snd "enumerate n xs"] by (simp add: comp_def)
qed

lemma piece_chunks_indices:
  "map fst (piece_chunks api ps) = map int [0..<length ps]"
  using map_enumerate(1) [of int 0 ps] by (simp add: piece_chunks_def comp_def case_prod_beta)

lemma sorted_ints: "sorted (map int [0..<n])" and distinct_ints: "distinct (map int [0..<n])"
  by (auto simp: sorted_map distinct_map sorted_wrt_map strict_sorted_imp_sorted)

lemma c_str_sha256: "c_str (sha256 api bs) = sha256 api bs"
  using sha256_chars [of api bs] by (intro c_str_plain) auto

lemma piece_chunks_hashes:
  "map (\<lambda>c. c_str (fst (snd c))) (map chunk_meta (piece_chunks api ps)) = map (sha256 api) ps"
  using map_enumerate(2) [of "sha256 api" 0 ps]
  by (simp add: piece_chunks_def chunk_meta_def comp_def case_prod_beta c_str_sha256)

text \<open>Whatever the order in which the chunks arrive, the database lists them in the order of the file.\<close>

lemma pieces_stored:
  assumes ok: "server_ok env st" and sha: "sha_documented (env_sha env)" and i: "plain_name i"
    and none: "getFileChunks (env_engine env) f (client_view env st i) = []"
    and coll: "no_collision env st data"
    and cs: "mset cs = mset (piece_chunks (env_sha env) (cut_up content_cut [] data))"
  shows "\<exists>st1. store_chunks env i f cs st = (Inr True, st1) \<and> server_ok env st1 \<and>
    root_path env st1 = root_path env st \<and> short_dirs (root_path env st) (disk st) (disk st1) \<and>
    (\<forall>q. (\<forall>k. q \<noteq> chunk_place (root_path env st) k) \<longrightarrow> files_of (disk st1) q = files_of (disk st) q) \<and>
    (\<forall>i'. i' \<noteq> i \<longrightarrow> client_dbs st1 i' = client_dbs st i') \<and>
    getFileChunks (env_engine env) f (client_view env st1 i) =
      map (sha256 (env_sha env)) (cut_up content_cut [] data) \<and>
    (\<forall>p \<in> set (cut_up content_cut [] data). chunk_get (env, st1) (sha256 (env_sha env) p) = Some p) \<and>
    storage_root st1 = storage_root st"
proof -
  let ?api = "env_sha env" and ?ps = "cut_up content_cut [] data" and ?E = "env_engine env"
  have set: "set cs = set (piece_chunks ?api ?ps)" using cs by (rule mset_eq_setD)
  have cons: "consistent_chunks (env, st) cs"
    by (rule piece_chunks_consistent [OF sha coll set])
  obtain fs' dbs' where run: "store_chunks env i f cs st = (Inr True, st\<lparr>disk := fs', client_dbs := dbs'\<rparr>)"
    "server_ok env (st\<lparr>disk := fs', client_dbs := dbs'\<rparr>)"
    "client_view env (st\<lparr>disk := fs', client_dbs := dbs'\<rparr>) i =
      insert_chunks ?E f (map chunk_meta cs) (client_view env st i)"
    "\<forall>i'. i' \<noteq> i \<longrightarrow> dbs' i' = client_dbs st i'"
    "same_chunks (env, st\<lparr>disk := fs', client_dbs := dbs'\<rparr>) (chunk_files.put_all (map chunk_pair cs) (env, st))"
    "short_dirs (root_path env st) (disk st) fs'"
    "\<forall>q. (\<forall>k. q \<noteq> chunk_place (root_path env st) k) \<longrightarrow> files_of fs' q = files_of (disk st) q"
    using store_chunks_healthy [OF ok i consistent_names [OF cons], of f] by blast
  let ?st1 = "st\<lparr>disk := fs', client_dbs := dbs'\<rparr>"
  have "mset (map fst cs) = mset (map fst (piece_chunks ?api ?ps))" by (simp add: cs)
  then have dist: "distinct (map fst (map chunk_meta cs))"
    unfolding chunk_meta_fst piece_chunks_indices by (metis distinct_ints mset_eq_imp_distinct_iff)
  have "sort_key fst (map chunk_meta cs) = map chunk_meta (piece_chunks ?api ?ps)"
    by (rule sort_by_index [OF dist]) (simp add: cs, simp only: chunk_meta_fst piece_chunks_indices sorted_ints)
  then have rows: "getFileChunks ?E f (client_view env ?st1 i) = map (sha256 ?api) ?ps"
    unfolding run(3) insert_chunks_fresh [OF server_okD(2) [OF ok] client_view_ok [OF ok] dist none]
    by (simp only: piece_chunks_hashes)
  have found: "chunk_get (env, ?st1) (sha256 ?api p) = Some p" if p: "p \<in> set ?ps" for p
  proof -
    obtain j where "(j, p, sha256 ?api p) \<in> set cs" using piece_chunks_mem [OF p] unfolding set by blast
    then show ?thesis
      using same_chunks_get [OF run(5) chunk_name_sha256 [OF sha]]
        put_all_consistent [OF cons server_okD(5) [OF ok]] by blast
  qed
  show ?thesis
    using run(1,2,4,6,7) rows found by (intro exI [of _ ?st1]) (simp add: root_path_def)
qed

lemma usable_all:
  assumes "\<forall>p \<in> set ps. chunk_get s (sha256 api p) = Some p" and "\<forall>p \<in> set ps. p \<noteq> []"
  shows "(\<forall>k \<in> set (map (sha256 api) ps). usable s k) = True"
    and "concat (map (chunk_data_of s) (takeWhile (usable s) (map (sha256 api) ps))) = concat ps"
proof -
  show all: "(\<forall>k \<in> set (map (sha256 api) ps). usable s k) = True"
    using assms by (auto simp: usable_def)
  then have "takeWhile (usable s) (map (sha256 api) ps) = map (sha256 api) ps"
    by (intro takeWhile_eq_all_conv [THEN iffD2]) blast
  then have "map (chunk_data_of s) (takeWhile (usable s) (map (sha256 api) ps)) =
      map (\<lambda>p. chunk_data_of s (sha256 api p)) ps" by (simp only: map_map comp_def)
  also have "\<dots> = ps" using assms(1) by (simp add: chunk_data_Some map_idI)
  finally show "concat (map (chunk_data_of s) (takeWhile (usable s) (map (sha256 api) ps))) = concat ps"
    by (rule arg_cong)
qed

lemma file_place_frame:
  assumes "file_place_ok (root_path env st) i f (disk st)"
    and "short_dirs (root_path env st) (disk st) fs'"
    and "\<forall>q. (\<forall>k. q \<noteq> chunk_place (root_path env st) k) \<longrightarrow> files_of fs' q = files_of (disk st) q"
  shows "file_place_ok (root_path env st) i f fs'"
  using assms(1,2)
proof (rule file_place_short)
  fix n assume n: "n < length (components f)"
  have "root_path env st @ [''clients'', i] @ take n (components f) \<noteq> chunk_place (root_path env st) k" for k
    by (simp add: chunk_place_def)
  then show "files_of fs' (root_path env st @ [''clients'', i] @ take n (components f)) = None"
    using assms(1,3) n by (simp add: file_place_ok_def)
qed

lemma getClientDB_known:
  "client_dbs st i = Some d \<Longrightarrow> getClientDB env i st = (Inr (Some d), st)"
  by (simp add: getClientDB_def)

lemma hd_mem_mset: "mset rs = mset rs' \<Longrightarrow> rs' \<noteq> [] \<Longrightarrow> rs \<noteq> [] \<and> hd rs \<in> set rs'"
  by (metis hd_in_set mset_eq_setD mset_zero_iff)

lemma upload_healthy:
  assumes ok: "server_ok env st" and sha: "sha_documented (env_sha env)" and i: "plain_name i" and f: "safe_path f"
    and place: "file_place_ok (root_path env st) i f (disk st)"
    and none: "getFileChunks (env_engine env) f (client_view env st i) = []"
    and coll: "no_collision env st data" and ne: "data \<noteq> []"
    and rs: "mset rs = mset (upload_requests (env_sha env) i f data)" and small: "length rs < 2 ^ 31"
  shows "\<exists>st'. UploadFile env now junk rs st =
      (Inr (Status_OK, \<lparr>ur_success = True, ur_message = [], ur_chunks_received = int (length rs)\<rparr>), st') \<and>
    server_ok env st' \<and> storage_root st' = storage_root st \<and>
    files_of (disk st') (client_place (root_path env st) i f) = Some data \<and>
    (\<exists>d. db_open d \<and> client_dbs st' i =
      Some (snd (insertOrUpdateFile (env_engine env) (final_record env now junk f data) d))) \<and>
    (\<forall>i'. i' \<noteq> i \<longrightarrow> client_dbs st' i' = client_dbs st i')"
proof -
  let ?ps = "cut_up content_cut [] data" and ?api = "env_sha env" and ?E = "env_engine env"
  have ps: "concat ?ps = data" "\<forall>p \<in> set ?ps. p \<noteq> []" "?ps \<noteq> []"
    using content.concat_cut_up [of data "[]"] content.cut_up_nonempty [of _ "[]" data] ne by auto
  have len: "length rs = length (upload_requests ?api i f data)" using rs by (rule mset_eq_length)
  have "upload_requests ?api i f data \<noteq> []"
    using ps(3) length_upload_requests [of ?api i f data] by fastforce
  from hd_mem_mset [OF rs this] have hd: "rs \<noteq> []" "hd rs \<in> set (upload_requests ?api i f data)" by blast+
  note fields = upload_requests_fields [OF hd(2), folded len]
  have "mset (map request_chunk rs) = mset (piece_chunks ?api ?ps)"
    using rs by (simp flip: upload_requests_chunks [where i = i and f = f])
  then obtain st1 where st1: "store_chunks env i f (map request_chunk rs) st = (Inr True, st1)" "server_ok env st1"
    "root_path env st1 = root_path env st" "short_dirs (root_path env st) (disk st) (disk st1)"
    "\<forall>q. (\<forall>k. q \<noteq> chunk_place (root_path env st) k) \<longrightarrow> files_of (disk st1) q = files_of (disk st) q"
    "\<forall>i'. i' \<noteq> i \<longrightarrow> client_dbs st1 i' = client_dbs st i'"
    "getFileChunks ?E f (client_view env st1 i) = map (sha256 ?api) ?ps"
    "\<forall>p \<in> set ?ps. chunk_get (env, st1) (sha256 ?api p) = Some p" "storage_root st1 = storage_root st"
    using pieces_stored [OF ok sha i none coll] by blast
  have place1: "file_place_ok (root_path env st1) i f (disk st1)"
    unfolding st1(3) by (rule file_place_frame [OF place st1(4,5)])
  have names: "\<forall>k \<in> set (map (sha256 ?api) ?ps). chunk_name k"
    using chunk_name_sha256 [OF sha] by simp
  have count: "to_size_t (int (length rs)) = length (map (sha256 ?api) ?ps)"
    using small len length_upload_requests [of ?api i f data] by (simp add: to_size_t_nat)
  note use = usable_all [OF st1(8) ps(2)]
  define d where "d = snd (insertOrUpdateFile ?E (final_record env now junk f data) (client_view env st1 i))"
  obtain fs' where fin: "finalizeFile env now junk i f (int (length rs)) st1 =
      (Inr True, st1\<lparr>disk := fs', client_dbs := (client_dbs st1)(i \<mapsto> d)\<rparr>)"
    "files_of fs' = (files_of (disk st1))(client_place (root_path env st) i f \<mapsto> data)"
    "layout_ok (root_path env st) fs'"
    using finalizeFile_run [OF st1(2) sha i f place1 st1(7) names count use, of now junk]
    unfolding if_True ps(1) st1(3) d_def by blast
  have "db_open d" "db_ok d"
    unfolding d_def using client_view_ok [OF st1(2)] by (simp_all add: insertOrUpdateFile_def run_write_frame run_write_ok)
  then have ok': "server_ok env (st1\<lparr>disk := fs', client_dbs := (client_dbs st1)(i \<mapsto> d)\<rparr>)"
    using server_ok_upd [OF st1(2), of fs' d i] fin(3) st1(3) by simp
  have "i \<noteq> []" using i by (simp add: plain_name_def)
  with UploadFile_finalizes [OF hd(1) fields this st1(1), of now junk]
  have "UploadFile env now junk rs st =
      (Inr (Status_OK, \<lparr>ur_success = True, ur_message = [], ur_chunks_received = int (length rs)\<rparr>),
       st1\<lparr>disk := fs', client_dbs := (client_dbs st1)(i \<mapsto> d)\<rparr>)"
    by (simp add: seq_def fin(1) ret_def)
  then show ?thesis
    using fin(2) st1(6) st1(9) ok' client_view_ok(1) [OF st1(2), of i] by (auto simp: d_def)
qed

lemma final_record_storable: "CHR 0x00 \<notin> set f \<Longrightarrow> storable (final_record env now junk f bs)"
proof -
  assume f: "CHR 0x00 \<notin> set f"
  have "CHR 0x00 \<notin> set (sha256 (env_sha env) bs)" using sha256_chars [of "env_sha env" bs] by auto
  with f show ?thesis by (simp add: storable_def final_record_def)
qed

lemma run_write_open: "db_open d \<Longrightarrow> db_open (snd (insertOrUpdateFile E r d))"
  by (simp add: insertOrUpdateFile_def run_write_frame)

subsection \<open>Reading the database of a client\<close>

lemma getFileMetadata_view:
  assumes "server_ok env st" and "plain_name i"
  shows "fst (getFileMetadata env i f st) = Inr (getFile (env_engine env) f (client_view env st i))"
  using getClientDB_healthy [OF assms] by (auto simp: getFileMetadata_def seq_def ret_def)

lemma listFiles_view:
  assumes "server_ok env st" and "plain_name i"
  shows "\<exists>st'. listFiles env i st = (Inr (getAllFiles (env_engine env) (client_view env st i)), st') \<and>
    server_ok env st' \<and> client_view env st' i = client_view env st i"
proof -
  obtain fs' where fs': "getClientDB env i st = (Inr (Some (client_view env st i)),
      st\<lparr>disk := fs', client_dbs := (client_dbs st)(i \<mapsto> client_view env st i)\<rparr>)"
    "layout_ok (root_path env st) fs'"
    using getClientDB_healthy [OF assms] by blast
  have "server_ok env (st\<lparr>disk := fs', client_dbs := (client_dbs st)(i \<mapsto> client_view env st i)\<rparr>)"
    using server_ok_upd [OF assms(1) fs'(2)] client_view_ok [OF assms(1)] by simp
  then show ?thesis by (simp add: listFiles_def seq_def fs'(1) ret_def)
qed

lemma client_view_frame:
  assumes "client_dbs st' i = client_dbs st i" and "storage_root st' = storage_root st"
  shows "client_view env st' i = client_view env st i"
  using assms by (simp add: client_view_def client_db_path_def split: option.split)

subsection \<open>Properties of the upload\<close>

text \<open>C1: uploading works end to end. If the chunks the chunker makes of a non-empty file arrive in any
  order, for a file the client has no chunks of, on a server where nothing fails and no digest collides,
  then the answer is success with the number of chunks, the file on the server holds exactly the bytes
  that were chunked, and its record has their length and their SHA-256.\<close>

theorem upload_stores_the_file:
  assumes "server_ok env st" and "sha_documented (env_sha env)" and "plain_name i" and "safe_path f"
    and "CHR 0x00 \<notin> set f" and "file_place_ok (root_path env st) i f (disk st)"
    and "getFileChunks (env_engine env) f (client_view env st i) = []"
    and "no_collision env st data" and "data \<noteq> []"
    and "mset rs = mset (upload_requests (env_sha env) i f data)" and "length rs < 2 ^ 31"
  shows "case UploadFile env now junk rs st of (r, st') \<Rightarrow>
    r = Inr (Status_OK, \<lparr>ur_success = True, ur_message = [], ur_chunks_received = int (length rs)\<rparr>) \<and>
    files_of (disk st') (client_place (root_path env st) i f) = Some data \<and>
    fst (getFileMetadata env i f st') = Inr (Some (final_record env now junk f data))"
proof -
  obtain st' d where st': "UploadFile env now junk rs st =
      (Inr (Status_OK, \<lparr>ur_success = True, ur_message = [], ur_chunks_received = int (length rs)\<rparr>), st')"
    "files_of (disk st') (client_place (root_path env st) i f) = Some data" "server_ok env st'" "db_open d"
    "client_dbs st' i = Some (snd (insertOrUpdateFile (env_engine env) (final_record env now junk f data) d))"
    using upload_healthy [OF assms(1-4,6-11)] by blast
  have "fr_path (final_record env now junk f data) = f" by (simp add: final_record_def)
  with getFile_insert(2) [OF server_okD(2) [OF assms(1)] st'(4) final_record_storable [OF assms(5), of env now junk data]]
  have "getFile (env_engine env) f (client_view env st' i) = Some (final_record env now junk f data)"
    by (simp add: client_view_def st'(5))
  then show ?thesis
    using getFileMetadata_view [OF st'(3) assms(3)] st'(1,2) by simp
qed

lemma two_chunks_no_collision: "no_collision plain_env fresh_server two_chunks"
proof -
  have "sha_oneshot toy_sha (replicate 4096 0) = 0 # replicate 31 0"
    by (simp add: toy_sha_def take_Cons' numeral_eq_Suc)
  moreover have "sha_oneshot toy_sha [1, 2, 3] = 1 # 2 # 3 # replicate 29 0"
    by (simp add: toy_sha_def)
  ultimately have "sha_oneshot toy_sha (replicate 4096 0) \<noteq> sha_oneshot toy_sha [1, 2, 3]"
    by simp
  then have "sha256 toy_sha (replicate 4096 0) \<noteq> sha256 toy_sha [1, 2, 3]"
    unfolding sha256_def hex_stream_inj .
  then show ?thesis
    by (auto simp: no_collision_def two_chunks_cut fresh_chunk inj_on_def)
qed

lemma fresh_no_rows: "getFileChunks plain_engine f (client_view plain_env fresh_server i) = []"
  by (simp add: getFileChunks_healthy plain_engine_healthy fresh_view MetadataDB_def)

lemma two_chunks_requests: "length (upload_requests toy_sha i f two_chunks) = 2"
  by (simp add: length_upload_requests two_chunks_cut)

theorem upload_stores_the_file_witness:
  "case UploadFile plain_env 9 0 (rev (upload_requests toy_sha ''al'' ''f'' two_chunks)) fresh_server of (r, st') \<Rightarrow>
    r = Inr (Status_OK, \<lparr>ur_success = True, ur_message = [], ur_chunks_received = 2\<rparr>) \<and>
    files_of (disk st') [''srv'', ''clients'', ''al'', ''f''] = Some two_chunks"
proof -
  have hyps: "sha_documented (env_sha plain_env)" "plain_name ''al''" "safe_path ''f''" "CHR 0x00 \<notin> set ''f''"
    "getFileChunks (env_engine plain_env) ''f'' (client_view plain_env fresh_server ''al'') = []" "two_chunks \<noteq> []"
    "mset (rev (upload_requests toy_sha ''al'' ''f'' two_chunks)) = mset (upload_requests (env_sha plain_env) ''al'' ''f'' two_chunks)"
    "length (rev (upload_requests toy_sha ''al'' ''f'' two_chunks)) < 2 ^ 31"
    by (simp_all add: toy_sha_documented plain_name_def safe_path_def fresh_no_rows two_chunks_requests)
      (simp add: two_chunks_def)
  from upload_stores_the_file [OF fresh_server_ok hyps(1-4) fresh_place hyps(5) two_chunks_no_collision hyps(6-8), where now = 9 and junk = 0]
  show ?thesis
    by (simp add: two_chunks_requests fresh_root client_place_def split: prod.splits)
qed

text \<open>Clients are isolated: the same upload changes neither the records nor the file list of any
  other client.\<close>

theorem upload_leaves_other_clients_alone:
  assumes "server_ok env st" and "sha_documented (env_sha env)" and "plain_name i" and "safe_path f"
    and "file_place_ok (root_path env st) i f (disk st)"
    and "getFileChunks (env_engine env) f (client_view env st i) = []"
    and "no_collision env st data" and "data \<noteq> []"
    and "mset rs = mset (upload_requests (env_sha env) i f data)" and "length rs < 2 ^ 31"
    and "plain_name i'" and "i' \<noteq> i"
  shows "fst (getFileMetadata env i' g (snd (UploadFile env now junk rs st))) = fst (getFileMetadata env i' g st) \<and>
    fst (listFiles env i' (snd (UploadFile env now junk rs st))) = fst (listFiles env i' st)"
proof -
  obtain st' where st': "snd (UploadFile env now junk rs st) = st'" "server_ok env st'"
    "client_dbs st' i' = client_dbs st i'" "storage_root st' = storage_root st"
    using upload_healthy [OF assms(1-10)] assms(12) by (metis snd_conv)
  have "client_view env st' i' = client_view env st i'" by (rule client_view_frame [OF st'(3,4)])
  then show ?thesis
    using getFileMetadata_view [OF _ assms(11)] listFiles_view [OF _ assms(11)] assms(1) st'(2)
    unfolding st'(1) by (metis fst_conv)
qed

theorem upload_leaves_other_clients_alone_witness:
  "fst (listFiles plain_env ''bo'' (snd (UploadFile plain_env 9 0 (upload_requests toy_sha ''al'' ''f'' two_chunks) fresh_server))) =
    fst (listFiles plain_env ''bo'' fresh_server)"
proof -
  have hyps: "sha_documented (env_sha plain_env)" "plain_name ''al''" "safe_path ''f''"
    "getFileChunks (env_engine plain_env) ''f'' (client_view plain_env fresh_server ''al'') = []" "two_chunks \<noteq> []"
    "mset (upload_requests toy_sha ''al'' ''f'' two_chunks) = mset (upload_requests (env_sha plain_env) ''al'' ''f'' two_chunks)"
    "length (upload_requests toy_sha ''al'' ''f'' two_chunks) < 2 ^ 31" "plain_name ''bo''" "''bo'' \<noteq> ''al''"
    by (simp_all add: toy_sha_documented plain_name_def safe_path_def fresh_no_rows two_chunks_requests)
      (simp add: two_chunks_def)
  from upload_leaves_other_clients_alone [OF fresh_server_ok hyps(1-3) fresh_place hyps(4) two_chunks_no_collision hyps(5-9), where now = 9 and junk = 0]
  show ?thesis by blast
qed

subsection \<open>Uploads that cannot succeed\<close>

lemma finalizeFile_incomplete:
  assumes "server_ok env st" and "plain_name i"
    and "length (getFileChunks (env_engine env) f (client_view env st i)) \<noteq> to_size_t n"
  shows "fst (finalizeFile env now junk i f n st) = Inr False"
proof -
  obtain fs' where "getClientDB env i st = (Inr (Some (client_view env st i)),
      st\<lparr>disk := fs', client_dbs := (client_dbs st)(i \<mapsto> client_view env st i)\<rparr>)"
    using getClientDB_healthy [OF assms(1,2)] by blast
  then show ?thesis using assms(3) by (simp add: finalizeFile_def seq_def Let_def ret_def)
qed

lemma insert_chunks_length:
  assumes "engine_healthy E"
  shows "db_open d \<Longrightarrow> db_ok d \<Longrightarrow>
    length (getFileChunks E p d) \<le> length (getFileChunks E p (insert_chunks E f cs d))"
proof (induction cs arbitrary: d)
  case Nil
  then show ?case by (simp add: insert_chunks_def)
next
  case (Cons c cs)
  obtain j k sz where c: "c = (j, k, sz)" by (cases c)
  define d' where "d' = snd (insertChunk E f j k 0 sz d)"
  have "db_open d'" "db_ok d'" using Cons.prems by (simp_all add: d'_def insertChunk_ok)
  from Cons.IH [OF this] insertChunk_rows [OF assms Cons.prems, of p f j k sz]
  show ?case by (simp add: insert_chunks_def c d'_def [symmetric])
qed

text \<open>C35: a file that has shrunk can never be uploaded again: nothing removes the rows of the old chunks,
  so an upload that announces fewer chunks than the file has rows is refused at the end, whatever it sends.\<close>

theorem shorter_version_is_refused:
  assumes "server_ok env st" and "plain_name i" and "requests \<noteq> []"
    and "up_client_id (hd requests) = i" and "up_file_path (hd requests) = f"
    and "\<forall>r \<in> set requests. chunk_name (cm_hash (up_chunk r))"
    and "0 \<le> up_total_chunks (hd requests)" and "up_total_chunks (hd requests) < 2 ^ 31"
    and "up_total_chunks (hd requests) < int (length (getFileChunks (env_engine env) f (client_view env st i)))"
  shows "fst (UploadFile env now junk requests st) =
    Inr (Status_OK, \<lparr>ur_success = False, ur_message = ''Failed to finalize file'', ur_chunks_received = 0\<rparr>)"
proof -
  let ?E = "env_engine env" and ?n = "up_total_chunks (hd requests)"
  have "\<forall>(j, data, k) \<in> set (map request_chunk requests). chunk_name k"
    using assms(6) by (auto simp: request_chunk_def)
  from store_chunks_healthy [OF assms(1,2) this, of f] obtain st1 where
    st1: "store_chunks env i f (map request_chunk requests) st = (Inr True, st1)" "server_ok env st1"
      "client_view env st1 i = insert_chunks ?E f (map chunk_meta (map request_chunk requests)) (client_view env st i)"
    by blast
  have "length (getFileChunks ?E f (client_view env st i)) \<le> length (getFileChunks ?E f (client_view env st1 i))"
    unfolding st1(3) by (rule insert_chunks_length [OF server_okD(2) [OF assms(1)] client_view_ok [OF assms(1)]])
  moreover have "to_size_t ?n = nat ?n" using assms(7,8) by (simp add: to_size_t_nonneg)
  ultimately have "length (getFileChunks ?E f (client_view env st1 i)) \<noteq> to_size_t ?n"
    using assms(7,9) by linarith
  then have fin: "fst (finalizeFile env now junk i f ?n st1) = Inr False"
    by (rule finalizeFile_incomplete [OF st1(2) assms(2)])
  have "i \<noteq> []" using assms(2) by (simp add: plain_name_def)
  from UploadFile_finalizes [OF assms(3-5) refl this st1(1)] fin show ?thesis
    by (cases "finalizeFile env now junk i f ?n st1") (simp add: seq_def ret_def)
qed

theorem shorter_version_is_refused_witness:
  "fst (UploadFile (plain_env\<lparr>env_engine := missing_engine\<rparr>) 9 0
      [\<lparr>up_client_id = ''al'', up_file_path = ''f'', up_chunk = \<lparr>cm_index = 0, cm_offset = 0, cm_size = 1,
         cm_hash = ''beef'', cm_data = [5]\<rparr>, up_total_chunks = 0\<rparr>] old_file_server) =
    Inr (Status_OK, \<lparr>ur_success = False, ur_message = ''Failed to finalize file'', ur_chunks_received = 0\<rparr>)"
  by (rule shorter_version_is_refused [OF old_file_server_ok, where i = "''al''" and f = "''f''"])
    (simp_all add: plain_name_def chunk_name_def old_file_server_chunks)

text \<open>The empty client name leads to the directory of all clients, which is no file.\<close>

lemma make_clients_dir:
  assumes "server_ok env st" and "resolve (cwd (env_host env)) s = root_path env st @ [''clients'']"
  shows "\<exists>fs'. make_directories env s st = (Inr (), st\<lparr>disk := fs'\<rparr>) \<and> layout_ok (root_path env st) fs' \<and>
    fs' (root_path env st @ [''clients'']) = Some Directory \<and> server_ok env (st\<lparr>disk := fs'\<rparr>)"
proof -
  let ?R = "root_path env st"
  have "files_of (disk st) (take n (?R @ [''clients''])) = None" for n
  proof (cases "n \<le> length ?R")
    case True
    then show ?thesis using server_okD(4) [OF assms(1)] by (simp add: layout_ok_def)
  next
    case False
    then show ?thesis using server_okD(4) [OF assms(1)] by (simp add: layout_ok_def)
  qed
  from make_directories_healthy [where st = st, OF server_okD(1) [OF assms(1)] assms(2) this] obtain fs' where
    fs': "make_directories env s st = (Inr (), st\<lparr>disk := fs'\<rparr>)" "files_of fs' = files_of (disk st)"
      "adds_dirs (disk st) fs' (?R @ [''clients''])" by blast
  have "short_dirs ?R (disk st) fs'"
    unfolding short_dirs_def
  proof (intro allI impI)
    fix q assume "fs' q = Some Directory"
    then consider "disk st q = Some Directory" | n where "q = take n (?R @ [''clients''])"
      using fs'(3) unfolding adds_dirs_def by blast
    then show "disk st q = Some Directory \<or> length q \<le> length ?R + 2" by cases auto
  qed
  then have "layout_ok ?R fs'" by (rule layout_ok_short [OF server_okD(4) [OF assms(1)] fs'(2)])
  moreover have "fs' (?R @ [''clients'']) = Some Directory"
    using fs'(3) by (simp add: adds_dirs_def is_dir_def)
  moreover have "server_ok env (st\<lparr>disk := fs'\<rparr>)"
    using assms(1) \<open>layout_ok ?R fs'\<close> by (simp add: server_ok_def)
  ultimately show ?thesis using fs'(1) by blast
qed

lemma clients_dir_paths:
  assumes "s \<noteq> []"
  shows "resolve c (s @ ''/clients/'') = resolve c s @ [''clients'']"
    and "resolve c (s @ ''/clients//'') = resolve c s @ [''clients'']"
    and "resolve c (parent_path (s @ ''/clients//'')) = resolve c s @ [''clients'']"
proof -
  have "parent_path (s @ ''/clients//'') = s @ CHR ''/'' # ''clients''"
    by (simp add: parent_path_def Let_def)
  then show "resolve c (parent_path (s @ ''/clients//'')) = resolve c s @ [''clients'']"
    using resolve_child [OF assms, of "''clients''" c] by simp
qed (use resolve_append_slash [OF assms, of c "''clients/''"] resolve_append_slash [OF assms, of c "''clients//''"] in \<open>simp_all\<close>)

lemma getClientDB_empty:
  assumes ok: "server_ok env st"
  shows "\<exists>st'. getClientDB env [] st = (Inr (Some (client_view env st [])), st') \<and> server_ok env st' \<and>
    storage_root st' = storage_root st \<and> root_path env st' = root_path env st"
proof (cases "client_dbs st []")
  case (Some d)
  then show ?thesis using ok by (simp add: getClientDB_def client_view_def)
next
  case None
  define p where "p = storage_root st @ ''/clients/''"
  have "resolve (cwd (env_host env)) p = root_path env st @ [''clients'']"
    unfolding p_def root_path_def by (rule clients_dir_paths [OF server_okD(3) [OF ok]])
  then obtain fs' where fs': "make_directories env p st = (Inr (), st\<lparr>disk := fs'\<rparr>)"
    "layout_ok (root_path env st) fs'"
    using make_clients_dir [OF ok] by blast
  have path: "getClientStoragePath env [] st = (Inr p, st\<lparr>disk := fs'\<rparr>)"
    using fs'(1) by (simp add: getClientStoragePath_def p_def seq_def ret_def)
  define q where "q = client_db_path st []"
  have q: "p @ ''/metadata.db'' = q" by (simp add: p_def q_def client_db_path_def)
  obtain t where t: "initialize (env_engine env) (MetadataDB q) =
      (True, (MetadataDB q)\<lparr>db_open := True, tables := t\<rparr>)"
    using initialize_healthy [OF server_okD(2) [OF ok]] by blast
  have view: "client_view env st [] = (MetadataDB q)\<lparr>db_open := True, tables := t\<rparr>"
    using None by (simp add: client_view_def q_def [symmetric] t)
  have "getClientDB env [] st = (Inr (Some (client_view env st [])),
      st\<lparr>disk := fs', client_dbs := (client_dbs st)([] \<mapsto> client_view env st [])\<rparr>)"
    unfolding getClientDB_def seq_def path using None
    by (simp only: option.case prod.case sum.case q t bool.case view)
      (simp add: ret_def put_client_db_def)
  then show ?thesis
    using server_ok_upd [OF ok fs'(2) client_view_ok [OF ok]] by (simp add: root_path_def)
qed

lemma UploadFile_no_request:
  assumes ok: "server_ok env st"
  shows "fst (UploadFile env now junk [] st) =
    Inr (Status_OK, \<lparr>ur_success = False, ur_message = ''Failed to finalize file'', ur_chunks_received = 0\<rparr>)"
proof -
  let ?h = "env_host env" and ?C = "root_path env st @ [''clients'']"
  define p where "p = storage_root st @ ''/clients/''"
  define t where "t = storage_root st @ ''/clients//''"
  have p: "resolve (cwd ?h) p = ?C" and t: "resolve (cwd ?h) t = ?C" "resolve (cwd ?h) (parent_path t) = ?C"
    unfolding p_def t_def root_path_def by (rule clients_dir_paths [OF server_okD(3) [OF ok]])+
  obtain st1 where st1: "getClientDB env [] st = (Inr (Some (client_view env st [])), st1)" "server_ok env st1"
    "storage_root st1 = storage_root st" "root_path env st1 = root_path env st"
    using getClientDB_empty [OF ok] by blast
  obtain fs2 where fs2: "make_directories env p st1 = (Inr (), st1\<lparr>disk := fs2\<rparr>)" "server_ok env (st1\<lparr>disk := fs2\<rparr>)"
    using make_clients_dir [OF st1(2)] p st1(4) by metis
  have path: "getTempFilePath env [] [] st1 = (Inr t, st1\<lparr>disk := fs2\<rparr>)"
    using fs2(1) st1(3) by (simp add: getTempFilePath_def getClientStoragePath_def p_def t_def seq_def ret_def)
  obtain fs3 where fs3: "make_directories env (parent_path t) (st1\<lparr>disk := fs2\<rparr>) = (Inr (), st1\<lparr>disk := fs3\<rparr>)"
    "fs3 ?C = Some Directory"
    using make_clients_dir [OF fs2(2)] t(2) st1(4) by force
  have "open_out ?h fs3 t = None" by (simp add: open_out_def t(1) fs3(2))
  then have "fst (finalizeFile env now junk [] [] 0 st) = Inr False"
    by (simp add: finalizeFile_def seq_def st1(1) Let_def path fs3(1) assemble_file_def ret_def)
  then show ?thesis
    by (cases "finalizeFile env now junk [] [] 0 st") (simp add: UploadFile_def seq_def ret_def new_upload_def)
qed

text \<open>A file without contents cannot be uploaded: neither a stream without messages nor one message
  with an empty chunk under a name not used before is accepted.\<close>

theorem empty_file_is_refused:
  assumes "server_ok env st" and "sha_documented (env_sha env)" and "plain_name i" and "safe_path f"
    and "file_place_ok (root_path env st) i f (disk st)"
    and "getFileChunks (env_engine env) f (client_view env st i) = []" and "CHR 0x00 \<notin> set k"
    and "chunk_name k" and "chunk_get (env, st) k = None"
  shows "fst (UploadFile env now junk [] st) =
      Inr (Status_OK, \<lparr>ur_success = False, ur_message = ''Failed to finalize file'', ur_chunks_received = 0\<rparr>) \<and>
    fst (UploadFile env now junk [\<lparr>up_client_id = i, up_file_path = f, up_chunk = \<lparr>cm_index = 0, cm_offset = 0,
        cm_size = 0, cm_hash = k, cm_data = []\<rparr>, up_total_chunks = 1\<rparr>] st) =
      Inr (Status_OK, \<lparr>ur_success = False, ur_message = ''Failed to finalize file'', ur_chunks_received = 0\<rparr>)"
proof -
  let ?E = "env_engine env" and ?cs = "[(0, [], k)] :: (int \<times> bytes \<times> string) list"
  let ?r = "\<lparr>up_client_id = i, up_file_path = f, up_chunk = \<lparr>cm_index = 0, cm_offset = 0,
        cm_size = 0, cm_hash = k, cm_data = []\<rparr>, up_total_chunks = 1\<rparr>"
  have names: "\<forall>(j, data, k) \<in> set ?cs. chunk_name k" using assms(8) by simp
  obtain fs' dbs' where run: "store_chunks env i f ?cs st = (Inr True, st\<lparr>disk := fs', client_dbs := dbs'\<rparr>)"
    "server_ok env (st\<lparr>disk := fs', client_dbs := dbs'\<rparr>)"
    "client_view env (st\<lparr>disk := fs', client_dbs := dbs'\<rparr>) i =
      insert_chunks ?E f (map chunk_meta ?cs) (client_view env st i)"
    "same_chunks (env, st\<lparr>disk := fs', client_dbs := dbs'\<rparr>) (chunk_files.put_all (map chunk_pair ?cs) (env, st))"
    "short_dirs (root_path env st) (disk st) fs'"
    "\<forall>q. (\<forall>k. q \<noteq> chunk_place (root_path env st) k) \<longrightarrow> files_of fs' q = files_of (disk st) q"
    using store_chunks_healthy [OF assms(1,3) names, of f] by blast
  define st1 where "st1 = st\<lparr>disk := fs', client_dbs := dbs'\<rparr>"
  have "getFileChunks ?E f (client_view env st1 i) =
      map (\<lambda>c. c_str (fst (snd c))) (sort_key fst (map chunk_meta ?cs))"
    unfolding run(3) [folded st1_def]
    by (rule insert_chunks_fresh [OF server_okD(2) [OF assms(1)] client_view_ok [OF assms(1)] _ assms(6)])
      (simp add: chunk_meta_def)
  then have rows: "getFileChunks ?E f (client_view env st1 i) = [k]"
    by (simp add: chunk_meta_def c_str_plain [OF assms(7)])
  have "chunk_get (env, st1) k = Some []"
    using assms(9) same_chunks_get [OF run(4) assms(8)] server_okD(5) [OF assms(1)] assms(8)
    by (simp add: st1_def chunk_pair_def chunk_files.put_all_simps chunk_files.get_put)
  then have bad: "(\<forall>k \<in> set [k]. usable (env, st1) k) = False" by (simp add: usable_def)
  have place: "file_place_ok (root_path env st1) i f (disk st1)"
    using file_place_frame [OF assms(5) run(5,6)] by (simp add: st1_def)
  have "\<forall>k \<in> set [k]. chunk_name k" and "to_size_t 1 = length [k]"
    using assms(8) by (simp_all add: to_size_t_def)
  from finalizeFile_run [OF run(2) [folded st1_def] assms(2-4) place rows this bad refl, of now junk]
  have fin: "fst (finalizeFile env now junk i f 1 st1) = Inr False" by auto
  have "i \<noteq> []" using assms(3) by (simp add: plain_name_def)
  moreover have "map request_chunk [?r] = ?cs" by (simp add: request_chunk_def)
  ultimately have "fst (UploadFile env now junk [?r] st) =
      Inr (Status_OK, \<lparr>ur_success = False, ur_message = ''Failed to finalize file'', ur_chunks_received = 0\<rparr>)"
    using UploadFile_finalizes [of "[?r]" i f 1 env st st1 now junk] run(1) fin
    by (cases "finalizeFile env now junk i f 1 st1") (simp add: st1_def [symmetric] seq_def ret_def)
  then show ?thesis using UploadFile_no_request [OF assms(1)] by blast
qed

theorem empty_file_is_refused_witness:
  "fst (UploadFile plain_env 9 0 [\<lparr>up_client_id = ''al'', up_file_path = ''f'', up_chunk = \<lparr>cm_index = 0,
       cm_offset = 0, cm_size = 0, cm_hash = ''abcd'', cm_data = []\<rparr>, up_total_chunks = 1\<rparr>] fresh_server) =
    Inr (Status_OK, \<lparr>ur_success = False, ur_message = ''Failed to finalize file'', ur_chunks_received = 0\<rparr>)"
proof -
  have hyps: "sha_documented (env_sha plain_env)" "plain_name ''al''" "safe_path ''f''"
    "getFileChunks (env_engine plain_env) ''f'' (client_view plain_env fresh_server ''al'') = []"
    "CHR 0x00 \<notin> set ''abcd''" "chunk_name ''abcd''"
    by (simp_all add: toy_sha_documented plain_name_def safe_path_def fresh_no_rows chunk_name_def)
  from empty_file_is_refused [OF fresh_server_ok hyps(1-3) fresh_place hyps(4-6) fresh_chunk] show ?thesis by blast
qed

subsection \<open>What a synchronisation reports\<close>

lemma scan_local_find:
  "scan_local sf ls = (case find (\<lambda>l. md_path l = fr_path sf) ls of
     None \<Rightarrow> (False, [])
   | Some l \<Rightarrow> (True, if md_hash l \<noteq> fr_hash sf then [new_change (fr_path sf) MODIFIED] else []))"
  by (induction ls) simp_all

text \<open>The changes that one record of the server causes: at most one, for its path.\<close>

definition change_of :: "file_metadata list \<Rightarrow> int \<Rightarrow> file_record \<Rightarrow> file_change list" where
  "change_of ls t sf = (case find (\<lambda>l. md_path l = fr_path sf) ls of
     None \<Rightarrow> (if t < fr_modified_time sf then [new_change (fr_path sf) CREATED] else [])
   | Some l \<Rightarrow> (if md_hash l \<noteq> fr_hash sf then [new_change (fr_path sf) MODIFIED] else []))"

lemma changes_loop_concat: "changes_loop ls t sfs = concat (map (change_of ls t) sfs)"
  by (induction sfs) (simp_all add: scan_local_find change_of_def split: option.split)

lemma change_of_path: "c \<in> set (change_of ls t sf) \<Longrightarrow> fc_path c = fr_path sf"
  by (auto simp: change_of_def new_change_def split: option.splits if_splits)

lemma separated: "A \<subseteq> {x} \<Longrightarrow> B \<subseteq> X \<Longrightarrow> x \<notin> X \<Longrightarrow> A \<inter> B = {}"
  by blast

lemma changes_distinct:
  "distinct (map fr_path sfs) \<Longrightarrow> distinct (map fc_path (concat (map (change_of ls t) sfs)))"
proof (induction sfs)
  case Nil
  then show ?case by simp
next
  case (Cons sf sfs)
  have "distinct (map fc_path (change_of ls t sf))"
    by (auto simp: change_of_def split: option.split)
  moreover have a: "fc_path ` set (change_of ls t sf) \<subseteq> {fr_path sf}"
    using change_of_path by auto
  moreover have b: "fc_path ` set (concat (map (change_of ls t) sfs)) \<subseteq> fr_path ` set sfs"
    by (auto dest!: change_of_path)
  moreover have c: "fr_path sf \<notin> fr_path ` set sfs" using Cons.prems by simp
  from a b c have "fc_path ` set (change_of ls t sf) \<inter> fc_path ` set (concat (map (change_of ls t) sfs)) = {}"
    by (rule separated)
  moreover have "distinct (map fc_path (concat (map (change_of ls t) sfs)))"
    using Cons.prems by (intro Cons.IH) simp
  ultimately show ?case
    using \<open>distinct (map fc_path (change_of ls t sf))\<close>
    unfolding list.map(2) concat.simps map_append distinct_append set_map by (intro conjI)
qed

lemma changes_of_one:
  "distinct (map fr_path sfs) \<Longrightarrow> sf \<in> set sfs \<Longrightarrow>
   filter (\<lambda>c. fc_path c = fr_path sf) (concat (map (change_of ls t) sfs)) = change_of ls t sf"
proof (induction sfs)
  case Nil
  then show ?case by simp
next
  case (Cons a sfs)
  have of_a: "filter (\<lambda>c. fc_path c = fr_path sf) (change_of ls t a) = (if fr_path a = fr_path sf then change_of ls t a else [])"
    using change_of_path [of _ ls t a] by (auto simp: filter_id_conv filter_empty_conv)
  show ?case
  proof (cases "sf = a")
    case True
    have "filter (\<lambda>c. fc_path c = fr_path a) (concat (map (change_of ls t) sfs)) = []"
      using Cons.prems(1) by (auto simp: filter_empty_conv image_iff dest!: change_of_path)
    then show ?thesis using True of_a by simp
  next
    case False
    then have "sf \<in> set sfs" "fr_path a \<noteq> fr_path sf" using Cons.prems by force+
    then show ?thesis using Cons of_a by simp
  qed
qed

lemma Sync_healthy:
  assumes "server_ok env st" and "plain_name (sr_client_id q)"
  shows "fst (Sync env now q st) = Inr (Status_OK,
    \<lparr>sp_changes = concat (map (change_of (sr_local_files q) (sr_last_sync_time q))
       (getAllFiles (env_engine env) (client_view env st (sr_client_id q)))),
     sp_server_time = now, sp_conflicts = []\<rparr>)"
proof -
  let ?i = "sr_client_id q" and ?all = "getAllFiles (env_engine env) (client_view env st (sr_client_id q))"
  obtain st1 where st1: "listFiles env ?i st = (Inr ?all, st1)" "server_ok env st1"
    "client_view env st1 ?i = client_view env st ?i"
    using listFiles_view [OF assms] by blast
  obtain st2 where st2: "listFiles env ?i st1 = (Inr ?all, st2)"
    using listFiles_view [OF st1(2) assms(2)] st1(3) by metis
  show ?thesis
    by (simp add: Sync_def computeChanges_def seq_def st1(1) st2 ret_def changes_loop_concat)
qed

text \<open>C22: a synchronisation reports exactly the live files of the server whose hash differs from the client's
  entry for the same path, as modified, and those the client does not list and that changed after its
  last synchronisation, as created; each path at most once, nothing else, and never a conflict.\<close>

theorem sync_reports_exactly:
  assumes "server_ok env st" and "scan_documented (env_engine env)" and "plain_name (sr_client_id q)"
  shows "\<exists>r. fst (Sync env now q st) = Inr (Status_OK, r) \<and> sp_server_time r = now \<and> sp_conflicts r = [] \<and>
    distinct (map fc_path (sp_changes r)) \<and>
    set (sp_changes r) =
      {new_change (fr_path f) MODIFIED | f l.
         f \<in> set (getAllFiles (env_engine env) (client_view env st (sr_client_id q))) \<and>
         find (\<lambda>l. md_path l = fr_path f) (sr_local_files q) = Some l \<and> md_hash l \<noteq> fr_hash f} \<union>
      {new_change (fr_path f) CREATED | f.
         f \<in> set (getAllFiles (env_engine env) (client_view env st (sr_client_id q))) \<and>
         fr_path f \<notin> md_path ` set (sr_local_files q) \<and> sr_last_sync_time q < fr_modified_time f}"
proof -
  let ?all = "getAllFiles (env_engine env) (client_view env st (sr_client_id q))"
  let ?ls = "sr_local_files q" and ?t = "sr_last_sync_time q"
  have "c \<in> set (change_of ?ls ?t f) \<longleftrightarrow>
      (\<exists>l. find (\<lambda>l. md_path l = fr_path f) ?ls = Some l \<and> md_hash l \<noteq> fr_hash f \<and> c = new_change (fr_path f) MODIFIED) \<or>
      (fr_path f \<notin> md_path ` set ?ls \<and> ?t < fr_modified_time f \<and> c = new_change (fr_path f) CREATED)" for c f
  proof (cases "find (\<lambda>l. md_path l = fr_path f) ?ls")
    case None
    then have "fr_path f \<notin> md_path ` set ?ls" by (auto simp: find_None_iff)
    with None show ?thesis by (auto simp: change_of_def)
  next
    case (Some l)
    then have "l \<in> set ?ls" "fr_path f = md_path l" by (auto simp: find_Some_iff)
    then have "fr_path f \<in> md_path ` set ?ls" by blast
    with Some show ?thesis by (auto simp: change_of_def)
  qed
  then have "set (concat (map (change_of ?ls ?t) ?all)) =
      {new_change (fr_path f) MODIFIED | f l. f \<in> set ?all \<and>
         find (\<lambda>l. md_path l = fr_path f) ?ls = Some l \<and> md_hash l \<noteq> fr_hash f} \<union>
      {new_change (fr_path f) CREATED | f. f \<in> set ?all \<and> fr_path f \<notin> md_path ` set ?ls \<and> ?t < fr_modified_time f}"
    unfolding set_concat set_map by blast
  moreover have "distinct (map fr_path ?all)"
    using getAllFiles_distinct [OF server_okD(2) [OF assms(1)] assms(2) client_view_ok [OF assms(1)]] .
  ultimately show ?thesis
    using Sync_healthy [OF assms(1,3), of now] changes_distinct by simp
qed

text \<open>A server on which the client's database already lists two files.\<close>

definition two_files_engine :: sqlite where
  "two_files_engine = plain_engine\<lparr>opens := \<lambda>_. Some (empty_database\<lparr>files_table :=
     [\<lparr>col_path = ''a'', col_size = 1, col_modified_time = 5, col_hash = ''aa'', col_version = 1,
       col_is_directory = 0, col_deleted = 0, col_last_sync_time = 0\<rparr>,
      \<lparr>col_path = ''b'', col_size = 2, col_modified_time = 7, col_hash = ''bb'', col_version = 1,
       col_is_directory = 0, col_deleted = 0, col_last_sync_time = 0\<rparr>]\<rparr>)\<rparr>"

definition two_files_env :: "bytes env" where
  "two_files_env = plain_env\<lparr>env_engine := two_files_engine\<rparr>"

lemma two_files_simps [simp]:
  "env_engine two_files_env = two_files_engine" "env_host two_files_env = plain_host" "env_sha two_files_env = toy_sha"
  by (simp_all add: two_files_env_def)

lemma two_files_engine_healthy: "engine_healthy two_files_engine"
  by (simp add: two_files_engine_def engine_healthy_def plain_engine_def)

lemma two_files_engine_scan: "scan_documented two_files_engine"
  by (simp add: two_files_engine_def scan_documented_def plain_engine_def)

lemma two_files_server_ok: "server_ok two_files_env fresh_server"
  by (simp add: server_ok_def plain_host_healthy two_files_engine_healthy layout_ok_def fresh_files)
    (simp add: two_files_engine_def keys_unique_def empty_database_def)

lemma two_files_listed:
  "getAllFiles two_files_engine (client_view two_files_env fresh_server i) =
    [\<lparr>fr_path = ''a'', fr_size = 1, fr_modified_time = 5, fr_hash = ''aa'', fr_version = 1,
       fr_is_directory = False, fr_deleted = False, fr_last_sync_time = 0\<rparr>,
     \<lparr>fr_path = ''b'', fr_size = 2, fr_modified_time = 7, fr_hash = ''bb'', fr_version = 1,
       fr_is_directory = False, fr_deleted = False, fr_last_sync_time = 0\<rparr>]"
  by (simp add: getAllFiles_def run_select_def client_view_def initialize_def executeSQL_def
      two_files_engine_def plain_engine_def MetadataDB_def empty_database_def column_file_def)

definition stale_request :: sync_request where
  "stale_request = \<lparr>sr_client_id = ''al'', sr_local_files =
     [\<lparr>md_path = ''a'', md_size = 1, md_modified_time = 4, md_hash = ''00'', md_version = 1,
       md_is_directory = False, md_deleted = False\<rparr>], sr_last_sync_time = 6\<rparr>"

lemma picked_simps:
  "{h f | f. f \<in> set [] \<and> Q f} = {}"
  "{h f | f. f \<in> set (x # xs) \<and> Q f} = (if Q x then {h x} else {}) \<union> {h f | f. f \<in> set xs \<and> Q f}"
  "{h f | f l. f \<in> set [] \<and> R f = Some l \<and> P f l} = {}"
  "{h f | f l. f \<in> set (x # xs) \<and> R f = Some l \<and> P f l} =
    (case R x of None \<Rightarrow> {} | Some l \<Rightarrow> if P x l then {h x} else {}) \<union> {h f | f l. f \<in> set xs \<and> R f = Some l \<and> P f l}"
  by (auto split: option.splits)

theorem sync_reports_exactly_witness:
  "\<exists>r. fst (Sync two_files_env 8 stale_request fresh_server) = Inr (Status_OK, r) \<and> sp_conflicts r = [] \<and>
    set (sp_changes r) = {new_change ''a'' MODIFIED, new_change ''b'' CREATED}"
proof -
  have "plain_name (sr_client_id stale_request)" by (simp add: stale_request_def plain_name_def)
  from sync_reports_exactly [OF two_files_server_ok _ this, of 8] two_files_engine_scan
  obtain r where r: "fst (Sync two_files_env 8 stale_request fresh_server) = Inr (Status_OK, r)" "sp_conflicts r = []"
    "set (sp_changes r) =
      {new_change (fr_path f) MODIFIED | f l.
         f \<in> set (getAllFiles two_files_engine (client_view two_files_env fresh_server (sr_client_id stale_request))) \<and>
         find (\<lambda>l. md_path l = fr_path f) (sr_local_files stale_request) = Some l \<and> md_hash l \<noteq> fr_hash f} \<union>
      {new_change (fr_path f) CREATED | f.
         f \<in> set (getAllFiles two_files_engine (client_view two_files_env fresh_server (sr_client_id stale_request))) \<and>
         fr_path f \<notin> md_path ` set (sr_local_files stale_request) \<and>
         sr_last_sync_time stale_request < fr_modified_time f}"
    by auto
  have "set (sp_changes r) = {new_change ''a'' MODIFIED, new_change ''b'' CREATED}"
    unfolding r(3) two_files_listed picked_simps by (simp add: stale_request_def insert_commute)
  with r show ?thesis by blast
qed

text \<open>Deletions are never announced: after a file was deleted on the server, no synchronisation of the
  client, whatever it lists and whenever it last synchronised, mentions the file.\<close>

theorem deletions_are_never_announced:
  assumes "server_ok env st" and "scan_documented (env_engine env)" and "plain_name (sr_client_id q)"
  shows "\<exists>st' r. deleteStoredFile env (sr_client_id q) f st = (Inr True, st') \<and>
    fst (Sync env now q st') = Inr (Status_OK, r) \<and> c_str f \<notin> fc_path ` set (sp_changes r)"
proof -
  let ?i = "sr_client_id q" and ?E = "env_engine env" and ?v = "client_view env st (sr_client_id q)"
  obtain fs' where fs': "getClientDB env ?i st = (Inr (Some ?v), st\<lparr>disk := fs', client_dbs := (client_dbs st)(?i \<mapsto> ?v)\<rparr>)"
    "layout_ok (root_path env st) fs'"
    using getClientDB_healthy [OF assms(1,3)] by blast
  define d where "d = snd (deleteFile ?E f ?v)"
  have del: "deleteFile ?E f ?v = (True, d)"
    unfolding d_def deleteFile_def by (simp add: run_write_healthy [OF server_okD(2) [OF assms(1)] client_view_ok(1) [OF assms(1)]])
  define st' where "st' = st\<lparr>disk := fs', client_dbs := (client_dbs st)(?i \<mapsto> d)\<rparr>"
  have run: "deleteStoredFile env ?i f st = (Inr True, st')"
    by (simp add: deleteStoredFile_def seq_def fs'(1) del put_client_db_def ret_def st'_def)
  have "db_open d" "db_ok d"
    unfolding d_def deleteFile_def using client_view_ok [OF assms(1)] by (simp_all add: run_write_frame run_write_ok)
  then have ok': "server_ok env st'"
    unfolding st'_def by (rule server_ok_upd [OF assms(1) fs'(2)])
  have view: "client_view env st' ?i = d" by (simp add: st'_def)
  have "c_str f \<noteq> fr_path r" if "r \<in> set (getAllFiles ?E d)" for r
    using deleted_not_listed [OF server_okD(2) [OF assms(1)] assms(2) client_view_ok(1) [OF assms(1)]] that
    unfolding d_def by metis
  then have "c_str f \<notin> fc_path ` set (concat (map (change_of (sr_local_files q) (sr_last_sync_time q)) (getAllFiles ?E d)))"
    using change_of_path by fastforce
  then show ?thesis
    using run Sync_healthy [OF ok' assms(3), of now] unfolding view by auto
qed

theorem deletions_are_never_announced_witness:
  "\<exists>st' r. deleteStoredFile two_files_env ''al'' ''a'' fresh_server = (Inr True, st') \<and>
    fst (Sync two_files_env 8 stale_request st') = Inr (Status_OK, r) \<and> c_str ''a'' \<notin> fc_path ` set (sp_changes r)"
proof -
  have i: "sr_client_id stale_request = ''al''" by (simp add: stale_request_def)
  have "plain_name (sr_client_id stale_request)" by (simp add: stale_request_def plain_name_def)
  from deletions_are_never_announced [OF two_files_server_ok _ this, unfolded i]
  show ?thesis by (simp add: two_files_engine_scan)
qed

text \<open>A download never delivers data: the answer is one final message without a chunk when the file has a
  record, even a deleted one, and otherwise the status that it was not found.\<close>

theorem download_delivers_no_data:
  assumes "server_ok env st" and "plain_name (dr_client_id q)"
  shows "fst (DownloadFile env q st) = Inr
    (if getFile (env_engine env) (dr_file_path q) (client_view env st (dr_client_id q)) = None
     then (Status_NOT_FOUND ''File not found'', [])
     else (Status_OK, [\<lparr>dp_chunk = None, dp_is_last = True\<rparr>]))"
  using getFileMetadata_view [OF assms, of "dr_file_path q"]
  by (cases "getFileMetadata env (dr_client_id q) (dr_file_path q) st")
    (auto simp: DownloadFile_def seq_def ret_def split: option.split)

theorem download_delivers_no_data_witness:
  "fst (DownloadFile two_files_env \<lparr>dr_client_id = ''al'', dr_file_path = ''a'', dr_chunk_hashes = []\<rparr> fresh_server) =
    Inr (Status_OK, [\<lparr>dp_chunk = None, dp_is_last = True\<rparr>])"
proof -
  have "getFile two_files_engine ''a'' (client_view two_files_env fresh_server ''al'') \<noteq> None"
    by (simp add: getFile_def run_select_def client_view_def initialize_def executeSQL_def c_str_def
        two_files_engine_def plain_engine_def MetadataDB_def empty_database_def)
  then show ?thesis
    using download_delivers_no_data [OF two_files_server_ok,
        of "\<lparr>dr_client_id = ''al'', dr_file_path = ''a'', dr_chunk_hashes = []\<rparr>"]
    by (simp add: plain_name_def)
qed

end
