(* ===== verification/Logger.thy ===== *)
theory Logger
  imports Host_Files
begin

text \<open>
  \<open>include/common/logger.h\<close> and \<open>src/common/logger.cpp\<close>: the logger, with its level, the console and
  an optional log file.

  The console is the text written to it. The log file is opened to append and written through the file
  store of \<open>Host_Files\<close>. The calendar time that \<open>std::localtime\<close> computes is an argument, because it
  depends on the time zone of the machine. A line is written under the mutex, so a call is one step.
\<close>

datatype log_level = DEBUG | INFO | WARNING | ERROR

text \<open>The enumerators are ordered by their values.\<close>

fun level_value :: "log_level \<Rightarrow> nat" where
  "level_value DEBUG = 0"
| "level_value INFO = 1"
| "level_value WARNING = 2"
| "level_value ERROR = 3"

lemma level_value_inj: "level_value a = level_value b \<Longrightarrow> a = b"
  by (cases a; cases b) simp_all

instantiation log_level :: linorder
begin

definition less_eq_log_level :: "log_level \<Rightarrow> log_level \<Rightarrow> bool" where
  "less_eq_log_level a b \<longleftrightarrow> level_value a \<le> level_value b"

definition less_log_level :: "log_level \<Rightarrow> log_level \<Rightarrow> bool" where
  "less_log_level a b \<longleftrightarrow> level_value a < level_value b"

instance
  by standard (auto simp: less_eq_log_level_def less_log_level_def intro: level_value_inj)

end

subsection \<open>State\<close>

text \<open>\<open>log_file\<close> is the file stream, if there is one: its path and whether it is open.\<close>

record logger =
  min_level :: log_level
  log_file :: "(string \<times> bool) option"
  console :: string

definition Logger :: logger where
  "Logger = \<lparr>min_level = INFO, log_file = None, console = []\<rparr>"

record local_time =
  year :: nat
  month :: nat
  day :: nat
  hour :: nat
  minute :: nat
  sec :: nat
  millis :: nat

subsection \<open>Operations\<close>

definition setLevel :: "log_level \<Rightarrow> logger \<Rightarrow> logger" where
  "setLevel l lg = lg\<lparr>min_level := l\<rparr>"

definition setLogFile :: "host \<Rightarrow> string \<Rightarrow> logger \<times> store \<Rightarrow> logger \<times> store" where
  "setLogFile h filepath = (\<lambda>(lg, fs).
     case open_append h fs filepath of
       None \<Rightarrow> (lg\<lparr>log_file := Some (filepath, False)\<rparr>, fs)
     | Some fs \<Rightarrow> (lg\<lparr>log_file := Some (filepath, True)\<rparr>, fs))"

definition log_stamp :: "local_time \<Rightarrow> string" where
  "log_stamp t =
     zero_padded 4 (year t) @ ''-'' @ zero_padded 2 (month t) @ ''-'' @ zero_padded 2 (day t) @ '' '' @
     zero_padded 2 (hour t) @ '':'' @ zero_padded 2 (minute t) @ '':'' @ zero_padded 2 (sec t) @ ''.'' @
     zero_padded 3 (millis t)"

fun level_str :: "log_level \<Rightarrow> string" where
  "level_str DEBUG = ''DEBUG''"
| "level_str INFO = ''INFO''"
| "level_str WARNING = ''WARN''"
| "level_str ERROR = ''ERROR''"

definition log_line :: "local_time \<Rightarrow> log_level \<Rightarrow> string \<Rightarrow> string" where
  "log_line t l message = log_stamp t @ '' ['' @ level_str l @ ''] '' @ message"

definition endl :: string where
  "endl = [CHR 0x0A]"

definition log_message :: "host \<Rightarrow> local_time \<Rightarrow> log_level \<Rightarrow> string \<Rightarrow> logger \<times> store \<Rightarrow> logger \<times> store" where
  "log_message h now l message = (\<lambda>(lg, fs).
     if l < min_level lg then (lg, fs)
     else let line = log_line now l message; lg' = lg\<lparr>console := console lg @ line @ endl\<rparr>
          in case log_file lg of
               Some (filepath, True) \<Rightarrow> (lg', stream_write h fs filepath (map of_char (line @ endl)))
             | _ \<Rightarrow> (lg', fs))"

definition log_debug :: "host \<Rightarrow> local_time \<Rightarrow> string \<Rightarrow> logger \<times> store \<Rightarrow> logger \<times> store" where
  "log_debug h now = log_message h now DEBUG"

definition log_info :: "host \<Rightarrow> local_time \<Rightarrow> string \<Rightarrow> logger \<times> store \<Rightarrow> logger \<times> store" where
  "log_info h now = log_message h now INFO"

definition log_warning :: "host \<Rightarrow> local_time \<Rightarrow> string \<Rightarrow> logger \<times> store \<Rightarrow> logger \<times> store" where
  "log_warning h now = log_message h now WARNING"

definition log_error :: "host \<Rightarrow> local_time \<Rightarrow> string \<Rightarrow> logger \<times> store \<Rightarrow> logger \<times> store" where
  "log_error h now = log_message h now ERROR"

subsection \<open>A sequence of messages\<close>

fun log_messages :: "host \<Rightarrow> (local_time \<times> log_level \<times> string) list \<Rightarrow> logger \<times> store \<Rightarrow> logger \<times> store" where
  "log_messages h [] s = s"
| "log_messages h ((now, l, message) # ms) s = log_messages h ms (log_message h now l message s)"

text \<open>The text of the messages that are not below the level.\<close>

definition log_text :: "log_level \<Rightarrow> (local_time \<times> log_level \<times> string) list \<Rightarrow> string" where
  "log_text lvl ms = concat (map (\<lambda>(now, l, message). log_line now l message @ endl) (filter (\<lambda>(now, l, message). lvl \<le> l) ms))"

lemma log_message_file:
  assumes "healthy h" and "log_file lg = Some (filepath, True)"
    and "fs (resolve (cwd h) filepath) = Some (Regular old)"
  shows "log_message h now l message (lg, fs) =
    (lg\<lparr>console := console lg @ log_text (min_level lg) [(now, l, message)]\<rparr>,
     fs(resolve (cwd h) filepath \<mapsto> Regular (old @ map of_char (log_text (min_level lg) [(now, l, message)]))))"
  using assms by (auto simp: log_message_def log_text_def stream_write_def healthyD Let_def not_less)

lemma log_text_Cons: "log_text lvl (m # ms) = log_text lvl [m] @ log_text lvl ms"
  by (cases m) (simp add: log_text_def)

lemma log_messages_file:
  assumes "healthy h"
  shows "log_file lg = Some (filepath, True) \<Longrightarrow> fs (resolve (cwd h) filepath) = Some (Regular old) \<Longrightarrow>
    log_messages h ms (lg, fs) =
      (lg\<lparr>console := console lg @ log_text (min_level lg) ms\<rparr>,
       fs(resolve (cwd h) filepath \<mapsto> Regular (old @ map of_char (log_text (min_level lg) ms))))"
proof (induction ms arbitrary: lg fs old)
  case Nil
  then show ?case by (auto simp: log_text_def)
next
  case (Cons m ms)
  obtain now l message where m: "m = (now, l, message)" by (cases m)
  show ?case
    using Cons.prems Cons.IH
    by (simp add: m log_message_file [OF assms] log_text_Cons [of _ "(now, l, message)" ms] fun_eq_iff)
qed

subsection \<open>Reading a line back\<close>

definition calendar :: "local_time \<Rightarrow> bool" where
  "calendar t \<longleftrightarrow> year t < 10 ^ 4 \<and> month t < 10 ^ 2 \<and> day t < 10 ^ 2 \<and> hour t < 10 ^ 2 \<and> minute t < 10 ^ 2 \<and>
     sec t < 10 ^ 2 \<and> millis t < 10 ^ 3"

lemma log_stamp_inj:
  assumes "calendar t" and "calendar u" and "log_stamp t @ x = log_stamp u @ y"
  shows "t = u" and "x = y"
  using assms by (auto simp: log_stamp_def calendar_def length_padded append_eq_append_conv
      intro!: local_time.equality dest: zero_padded_inj)

lemma level_str_inj: "level_str l @ ''] '' @ x = level_str l' @ ''] '' @ y \<Longrightarrow> l = l' \<and> x = y"
  by (cases l; cases l') simp_all


subsection \<open>Properties\<close>

text \<open>C30: Once a log file is open, every sequence of messages adds the same text to the console and to the
  file: the messages that are not below the level, each as one line, in their order; what the file contained
  before \<open>setLogFile\<close> stays, and no other file changes.
\<close>

theorem log_file_follows_console:
  assumes "healthy h" and "open_append h fs filepath = Some fs'" and "fs (resolve (cwd h) filepath) = Some (Regular old)"
  shows "log_messages h ms (setLogFile h filepath (lg, fs)) =
    (lg\<lparr>log_file := Some (filepath, True), console := console lg @ log_text (min_level lg) ms\<rparr>,
     fs(resolve (cwd h) filepath \<mapsto> Regular (old @ map of_char (log_text (min_level lg) ms))))"
proof -
  have "fs' = fs" using assms(2,3) by (auto simp: open_append_def Let_def split: if_splits)
  then have "setLogFile h filepath (lg, fs) = (lg\<lparr>log_file := Some (filepath, True)\<rparr>, fs)"
    using assms(2) by (simp add: setLogFile_def)
  then show ?thesis
    using log_messages_file [OF assms(1), of "lg\<lparr>log_file := Some (filepath, True)\<rparr>" filepath fs old ms] assms(3)
    by simp
qed

text \<open>A line determines the time, the level and the message it was written for.\<close>

theorem log_lines_are_unambiguous:
  assumes "calendar t" and "calendar u" and "log_line t l x = log_line u k y"
  shows "t = u \<and> l = k \<and> x = y"
proof -
  have line: "log_stamp t @ '' ['' @ level_str l @ ''] '' @ x = log_stamp u @ '' ['' @ level_str k @ ''] '' @ y"
    using assms(3) by (simp add: log_line_def)
  have "level_str l @ ''] '' @ x = level_str k @ ''] '' @ y"
    using log_stamp_inj(2) [OF assms(1,2) line] by simp
  then show ?thesis using log_stamp_inj(1) [OF assms(1,2) line] level_str_inj by blast
qed

subsection \<open>Witnesses\<close>

definition noon :: local_time where
  "noon = \<lparr>year = 2024, month = 5, day = 1, hour = 12, minute = 0, sec = 7, millis = 42\<rparr>"

theorem log_file_follows_console_witness:
  "console (fst (log_messages plain_host [(noon, DEBUG, ''x''), (noon, ERROR, ''disk'')]
     (setLogFile plain_host ''s.log'' (Logger, [[''s.log''] \<mapsto> Regular [65]])))) =
   ''2024-05-01 12:00:07.042 [ERROR] disk'' @ endl"
proof -
  have path: "resolve [] ''s.log'' = [''s.log'']" by (simp add: resolve_def)
  have op: "open_append plain_host [[''s.log''] \<mapsto> Regular [65]] ''s.log'' = Some [[''s.log''] \<mapsto> Regular [65]]"
    by (simp add: open_append_def path is_dir_def)
  have line: "log_text INFO [(noon, DEBUG, ''x''), (noon, ERROR, ''disk'')] = ''2024-05-01 12:00:07.042 [ERROR] disk'' @ endl"
    by (simp add: log_text_def log_line_def log_stamp_def noon_def zero_padded_def decimal.simps decimal_digit_def
        less_eq_log_level_def)
  have old: "[[''s.log''] \<mapsto> Regular [65]] (resolve (cwd plain_host) ''s.log'') = Some (Regular [65])"
    by (simp add: path)
  show ?thesis
    unfolding log_file_follows_console [OF plain_host_healthy op old]
    using line by (simp add: Logger_def)
qed

theorem log_lines_are_unambiguous_witness: "log_line noon INFO ''a'' \<noteq> log_line noon WARNING ''a''"
proof
  assume eq: "log_line noon INFO ''a'' = log_line noon WARNING ''a''"
  have "calendar noon" by (simp add: calendar_def noon_def)
  then show False using log_lines_are_unambiguous [OF _ _ eq] by simp
qed

end
