(* ===== verification/Server_Main.thy ===== *)
theory Server_Main
  imports Sync_Service Logger
begin

text \<open>
  \<open>src/server/main.cpp\<close>: the server process, from its arguments to its exit code, with what it logs and
  the service it creates.

  Whether gRPC can listen on an address is the parameter \<open>starts\<close>, what the handlers do while the server
  runs is \<open>serve\<close>, \<open>clock\<close> is the time of the n-th message, and \<open>signals\<close> says for each round of the waiting loop
  whether a signal arrived before its test. An exception of the service's constructor is not caught and terminates the process.
  The usage text on \<open>stderr\<close> is not modelled.
\<close>

datatype main_outcome = Exit nat | Terminated | Still_Running

definition signalHandler :: "bool \<Rightarrow> bool" where
  "signalHandler running = False"

text \<open>Whether the waiting loop has ended after these rounds.\<close>

fun main_loop :: "bool \<Rightarrow> bool list \<Rightarrow> bool" where
  "main_loop running [] = False"
| "main_loop running (signal # rest) =
     (let running = (if signal then signalHandler running else running)
      in if running then main_loop running rest else True)"

definition server_address :: "string \<Rightarrow> string" where
  "server_address port = ''0.0.0.0:'' @ port"

definition startup :: "host \<Rightarrow> (nat \<Rightarrow> local_time) \<Rightarrow> string \<Rightarrow> string \<Rightarrow> store \<Rightarrow> logger \<times> store" where
  "startup h clock root_dir port fs =
     (let s = setLogFile h ''dropbox_server.log'' (setLevel INFO Logger, fs);
          s = log_info h (clock 0) ''Starting Dropbox Lite Server'' s;
          s = log_info h (clock 1) (''Storage root: '' @ root_dir) s
      in log_info h (clock 2) (''Listening on: '' @ server_address port) s)"

definition server_main ::
  "'c env \<Rightarrow> string list \<Rightarrow> (nat \<Rightarrow> local_time) \<Rightarrow> (string \<Rightarrow> bool) \<Rightarrow> (storage \<Rightarrow> storage) \<Rightarrow> bool list \<Rightarrow> store \<Rightarrow>
     main_outcome \<times> logger \<times> store" where
  "server_main env argv clock starts serve signals fs =
     (if length argv < 3 then (Exit 1, Logger, fs)
      else let h = env_host env; s = startup h clock (argv ! 1) (argv ! 2) fs
        in case SyncServiceImpl env (argv ! 1) (snd s) of
             (Inl e, st) \<Rightarrow> (Terminated, fst s, disk st)
           | (Inr _, st) \<Rightarrow>
               if \<not> starts (server_address (argv ! 2))
               then (Exit 1, log_error h (clock 3) ''Failed to start server'' (fst s, disk st))
               else let s = log_info h (clock 3) ''Server started successfully'' (fst s, disk st);
                        fs = disk (serve (st\<lparr>disk := snd s\<rparr>))
                 in if main_loop True signals
                    then (Exit 0, log_info h (clock 4) ''Shutting down server...'' (fst s, fs))
                    else (Still_Running, fst s, fs))"

subsection \<open>The service is created in a state where the handlers work\<close>

lemma make_directories_keeps_layout:
  assumes "healthy (env_host env)" and "dir \<noteq> []" and "layout_ok R (disk st)"
    and "R = resolve (cwd (env_host env)) dir" and "s = dir \<or> s = dir @ ''/chunks''"
  shows "\<exists>fs. make_directories env s st = (Inr (), st\<lparr>disk := fs\<rparr>) \<and> layout_ok R fs \<and> files_of fs = files_of (disk st) \<and>
    is_dir fs (resolve (cwd (env_host env)) s) \<and> (\<forall>q. is_dir (disk st) q \<longrightarrow> is_dir fs q)"
proof -
  let ?h = "env_host env"
  have "plain_name ''chunks''" by (simp add: plain_name_def)
  from resolve_child [OF assms(2) this, of "cwd ?h"]
  have place: "resolve (cwd ?h) s = R \<or> resolve (cwd ?h) s = R @ [''chunks'']" using assms(4,5) by auto
  have free: "files_of (disk st) (take n R) = None" "files_of (disk st) (R @ [''chunks'']) = None" for n
    using assms(3) by (simp_all add: layout_ok_def)
  have prefix: "take n (resolve (cwd ?h) s) = take n R \<or> take n (resolve (cwd ?h) s) = R @ [''chunks'']" for n
    using place by (cases "n \<le> length R") auto
  then have "files_of (disk st) (take n (resolve (cwd ?h) s)) = None" for n
    using free by metis
  from create_directories_healthy [OF assms(1) this] obtain fs where fs:
    "create_directories ?h (disk st) s = Some fs" "files_of fs = files_of (disk st)" "is_dir fs (resolve (cwd ?h) s)"
    "\<forall>q. fs q = Some Directory \<longrightarrow> disk st q = Some Directory \<or> (\<exists>n. q = take n (resolve (cwd ?h) s))"
    by blast
  have "take n (resolve (cwd ?h) s) \<noteq> R @ [''chunks'', w, v]" for n w v
  proof
    assume eq: "take n (resolve (cwd ?h) s) = R @ [''chunks'', w, v]"
    have "length (resolve (cwd ?h) s) \<le> length R + 1" using place by auto
    then have "length (take n (resolve (cwd ?h) s)) \<le> length R + 1" by simp
    then show False unfolding eq by simp
  qed
  then have "layout_ok R fs" using assms(3) fs(2,4) unfolding layout_ok_def by metis
  moreover have "\<forall>q. is_dir (disk st) q \<longrightarrow> is_dir fs q"
    using create_directories_keeps [OF fs(1)] by (auto simp: is_dir_def)
  ultimately show ?thesis using fs by (intro exI [of _ fs]) (simp add: make_directories_def)
qed

text \<open>
  The constructor of the service establishes what the handlers rely on: on a host and an engine where nothing
  fails, and in a store where no file stands in the way, it succeeds, changes no file, and leaves the
  directories of the storage and the invariant of the server.
\<close>

lemma service_created:
  assumes "healthy (env_host env)" and "engine_healthy (env_engine env)"
    and "\<forall>p t. opens (env_engine env) p = Some t \<longrightarrow> keys_unique t"
    and "dir \<noteq> []" and "layout_ok (resolve (cwd (env_host env)) dir) fs"
  shows "\<exists>st. SyncServiceImpl env dir fs = (Inr True, st) \<and> server_ok env st \<and> files_of (disk st) = files_of fs \<and>
    is_dir (disk st) (root_path env st) \<and> is_dir (disk st) (root_path env st @ [''chunks''])"
proof -
  let ?R = "resolve (cwd (env_host env)) dir" and ?st = "StorageManager dir fs"
  have st: "disk ?st = fs" "storage_root ?st = dir" "client_dbs ?st = (\<lambda>_. None)" by (simp_all add: StorageManager_def)
  obtain fs1 where fs1: "make_directories env dir ?st = (Inr (), ?st\<lparr>disk := fs1\<rparr>)" "layout_ok ?R fs1"
    "files_of fs1 = files_of fs" "is_dir fs1 ?R"
    using make_directories_keeps_layout [OF assms(1,4), of ?R ?st dir] assms(5) by (auto simp: st)
  obtain fs2 where fs2: "make_directories env (dir @ ''/chunks'') (?st\<lparr>disk := fs1\<rparr>) = (Inr (), ?st\<lparr>disk := fs2\<rparr>)"
    "layout_ok ?R fs2" "files_of fs2 = files_of fs1" "is_dir fs2 (resolve (cwd (env_host env)) (dir @ ''/chunks''))"
    "\<forall>q. is_dir fs1 q \<longrightarrow> is_dir fs2 q"
    using make_directories_keeps_layout [OF assms(1,4), of ?R "?st\<lparr>disk := fs1\<rparr>" "dir @ ''/chunks''"] fs1(2) by auto
  have "plain_name ''chunks''" by (simp add: plain_name_def)
  from resolve_child [OF assms(4) this] have "is_dir fs2 (?R @ [''chunks''])" using fs2(4) by simp
  moreover have "SyncServiceImpl env dir fs = (Inr True, ?st\<lparr>disk := fs2\<rparr>)"
    by (simp add: SyncServiceImpl_def initialize_storage_def seq_def ret_def st fs1(1) fs2(1))
  moreover have "server_ok env (?st\<lparr>disk := fs2\<rparr>)"
    using assms fs2(2) by (simp add: server_ok_def root_path_def st)
  ultimately show ?thesis
    using fs1 fs2 by (auto simp: root_path_def st)
qed


subsection \<open>The process\<close>

lemma log_message_console:
  "console (fst (log_message h now l message s)) = console (fst s) @ log_text (min_level (fst s)) [(now, l, message)]"
  "min_level (fst (log_message h now l message s)) = min_level (fst s)"
  by (auto simp: log_message_def log_text_def Let_def not_less split: prod.split option.split bool.split)

lemma main_loop_ends: "main_loop True signals \<longleftrightarrow> True \<in> set signals"
  by (induction signals) (auto simp: signalHandler_def)

lemma setLogFile_console:
  "console (fst (setLogFile h f s)) = console (fst s)" "min_level (fst (setLogFile h f s)) = min_level (fst s)"
  by (simp_all add: setLogFile_def split: prod.split option.split)

lemmas console_simps = log_message_console setLogFile_console log_info_def log_error_def

text \<open>On a host and an engine where nothing fails, and in a store where no file stands in the way, the service is created
  with its invariant, and the process exits with 1 exactly if the server does not start, with 0
  exactly if it starts and a signal arrives, and otherwise runs on; the console has the messages of that course, in order.
\<close>

theorem main_exit_code:
  assumes "healthy (env_host env)" and "engine_healthy (env_engine env)"
    and "\<forall>p t. opens (env_engine env) p = Some t \<longrightarrow> keys_unique t" and "dir \<noteq> []"
    and "layout_ok (resolve (cwd (env_host env)) dir) (snd (startup (env_host env) clock dir port fs))"
    and "server_main env (prog # dir # port # args) clock starts serve signals fs = (outcome, lg, fs')"
  shows "(\<exists>st. SyncServiceImpl env dir (snd (startup (env_host env) clock dir port fs)) = (Inr True, st) \<and>
      server_ok env st) \<and>
    outcome = (if \<not> starts (server_address port) then Exit 1
      else if True \<in> set signals then Exit 0 else Still_Running) \<and>
    console lg = log_text INFO ([(clock 0, INFO, ''Starting Dropbox Lite Server''),
      (clock 1, INFO, ''Storage root: '' @ dir), (clock 2, INFO, ''Listening on: '' @ server_address port)] @
     (if \<not> starts (server_address port) then [(clock 3, ERROR, ''Failed to start server'')]
      else (clock 3, INFO, ''Server started successfully'') #
        (if True \<in> set signals then [(clock 4, INFO, ''Shutting down server...'')] else [])))"
proof -
  obtain st where st: "SyncServiceImpl env dir (snd (startup (env_host env) clock dir port fs)) = (Inr True, st)"
    "server_ok env st"
    using service_created [OF assms(1-5)] by blast
  have start: "console (fst (startup (env_host env) clock dir port fs)) =
      log_text INFO [(clock 0, INFO, ''Starting Dropbox Lite Server''), (clock 1, INFO, ''Storage root: '' @ dir),
        (clock 2, INFO, ''Listening on: '' @ server_address port)]"
    "min_level (fst (startup (env_host env) clock dir port fs)) = INFO"
    by (simp_all add: startup_def console_simps setLevel_def Logger_def log_text_Cons [of _ _ "_ # _"])
  have result: "outcome = fst (server_main env (prog # dir # port # args) clock starts serve signals fs)"
    "lg = fst (snd (server_main env (prog # dir # port # args) clock starts serve signals fs))"
    using assms(6) by simp_all
  show ?thesis
    unfolding result using st
    by (simp add: server_main_def main_loop_ends console_simps start log_text_def Let_def less_eq_log_level_def)
qed


subsection \<open>Witness\<close>

lemma log_message_frame:
  "log_file (fst (log_message h now l message s)) = log_file (fst s)"
  "log_file (fst s) = Some (f, b) \<Longrightarrow> q \<noteq> resolve (cwd h) f \<Longrightarrow> snd (log_message h now l message s) q = snd s q"
  by (auto simp: log_message_def stream_write_def Let_def split: prod.splits option.splits bool.splits node.splits)

lemma startup_frame: "q \<noteq> resolve (cwd h) ''dropbox_server.log'' \<Longrightarrow> snd (startup h clock dir port fs) q = fs q"
proof -
  obtain b where "log_file (fst (setLogFile h ''dropbox_server.log'' (setLevel INFO Logger, fs))) = Some (''dropbox_server.log'', b)"
    by (cases "open_append h fs ''dropbox_server.log''") (auto simp: setLogFile_def)
  moreover assume "q \<noteq> resolve (cwd h) ''dropbox_server.log''"
  moreover from this have "snd (setLogFile h ''dropbox_server.log'' (setLevel INFO Logger, fs)) q = fs q"
    by (auto simp: setLogFile_def open_append_def Let_def split: option.splits if_splits)
  ultimately show ?thesis
    by (simp add: startup_def log_info_def log_message_frame(1) log_message_frame(2))
qed

theorem main_exit_code_witness:
  "fst (server_main plain_env [''server'', ''/srv'', ''50051''] (\<lambda>_. noon) (\<lambda>_. True) id [False, True] (\<lambda>_. None)) = Exit 0"
proof -
  let ?s = "startup plain_host (\<lambda>_. noon) ''/srv'' ''50051'' (\<lambda>_. None)"
  have log: "resolve [] ''dropbox_server.log'' = [''dropbox_server.log'']" by (simp add: resolve_def)
  have root: "resolve [] ''/srv'' = [''srv'']" by (simp add: resolve_def)
  have "snd ?s q = None" if "q \<noteq> [''dropbox_server.log'']" for q
    using startup_frame [of q plain_host] that by (simp add: log)
  moreover have "take n [''srv''] \<noteq> [''dropbox_server.log'']" for n by (cases n) simp_all
  ultimately have layout: "layout_ok (resolve (cwd (env_host plain_env)) ''/srv'') (snd (startup (env_host plain_env) (\<lambda>_. noon) ''/srv'' ''50051'' (\<lambda>_. None)))"
    by (simp add: layout_ok_def files_of_def root)
  have engine: "healthy (env_host plain_env)" "engine_healthy (env_engine plain_env)" "''/srv'' \<noteq> []"
    "\<forall>p t. opens (env_engine plain_env) p = Some t \<longrightarrow> keys_unique t"
    using server_okD(1,2) [OF fresh_server_ok] fresh_server_ok by (auto simp: server_ok_def)
  obtain out lg fs' where main: "server_main plain_env [''server'', ''/srv'', ''50051''] (\<lambda>_. noon) (\<lambda>_. True) id [False, True] (\<lambda>_. None) = (out, lg, fs')"
    by (metis prod_cases3)
  from main_exit_code [OF engine(1,2,4,3) layout main] show ?thesis by (simp add: main)
qed

end
