(* ===== verification/Database_Types.thy ===== *)
theory Database_Types
  imports Metadata_DB
begin

text \<open>
  The types of the metadata database. SQLite does not enforce the types of columns; that a column always holds what
  the struct \<open>FileRecord\<close> and the signatures of \<open>include/core/metadata_db.h\<close> can carry is a
  property of the statements.
\<close>

subsection \<open>Typed values, rows and tables\<close>

definition int64 :: "int \<Rightarrow> bool" where
  "int64 x \<longleftrightarrow> - (2 ^ 63) \<le> x \<and> x < 2 ^ 63"

definition int32 :: "int \<Rightarrow> bool" where
  "int32 x \<longleftrightarrow> - (2 ^ 31) \<le> x \<and> x < 2 ^ 31"

text \<open>Text that ends at its first zero byte.\<close>

definition text_ok :: "string \<Rightarrow> bool" where
  "text_ok s \<longleftrightarrow> CHR 0x00 \<notin> set s"

text \<open>What a \<open>FileRecord\<close> can hold, whatever its strings.\<close>

definition typed_record :: "file_record \<Rightarrow> bool" where
  "typed_record r \<longleftrightarrow> int64 (fr_size r) \<and> int64 (fr_modified_time r) \<and> int32 (fr_version r) \<and> int64 (fr_last_sync_time r)"

definition typed_file :: "file_row \<Rightarrow> bool" where
  "typed_file w \<longleftrightarrow> text_ok (col_path w) \<and> int64 (col_size w) \<and> int64 (col_modified_time w) \<and> text_ok (col_hash w) \<and>
     int32 (col_version w) \<and> col_is_directory w \<in> {0, 1} \<and> col_deleted w \<in> {0, 1} \<and> int64 (col_last_sync_time w)"

definition typed_chunk :: "chunk_row \<Rightarrow> bool" where
  "typed_chunk w \<longleftrightarrow> text_ok (cr_file_path w) \<and> int32 (cr_chunk_index w) \<and> text_ok (cr_hash w) \<and>
     int64 (cr_offset w) \<and> int32 (cr_size w)"

definition typed_database :: "database \<Rightarrow> bool" where
  "typed_database t \<longleftrightarrow> (\<forall>w \<in> set (files_table t). typed_file w) \<and> (\<forall>w \<in> set (chunks_table t). typed_chunk w) \<and>
     (\<forall>kv \<in> set (sync_table t). int64 (snd kv))"

definition typed_db :: "metadata_db \<Rightarrow> bool" where
  "typed_db d \<longleftrightarrow> typed_database (tables d) \<and> (case saved d of None \<Rightarrow> True | Some t \<Rightarrow> typed_database t)"

text \<open>Calls with arguments of their C++ types.\<close>

fun typed_op :: "db_op \<Rightarrow> bool" where
  "typed_op (Op_Insert_File r) \<longleftrightarrow> typed_record r"
| "typed_op (Op_Insert_Chunk p i h off sz) \<longleftrightarrow> int32 i \<and> int64 off \<and> int32 sz"
| "typed_op (Op_Update_Sync t) \<longleftrightarrow> int64 t"
| "typed_op _ \<longleftrightarrow> True"

subsection \<open>Statements keep the types\<close>

fun typed_sql :: "sql \<Rightarrow> bool" where
  "typed_sql (Insert_File w) \<longleftrightarrow> typed_file w"
| "typed_sql (Insert_Chunk w) \<longleftrightarrow> typed_chunk w"
| "typed_sql (Insert_Sync v) \<longleftrightarrow> int64 v"
| "typed_sql _ \<longleftrightarrow> True"

lemma c_str_text [simp]: "text_ok (c_str s)"
  by (auto simp: text_ok_def c_str_def dest: set_takeWhileD)

lemma bind_typed: "typed_record r \<Longrightarrow> typed_file (bind_file r)"
  by (simp add: typed_record_def typed_file_def bind_file_def)

text \<open>What is read from a typed row can be stored again as it is.\<close>

lemma column_typed: "typed_file w \<Longrightarrow> typed_record (column_file w) \<and> storable (column_file w)"
  by (auto simp: typed_record_def typed_file_def column_file_def storable_def text_ok_def int32_def to_int32_id)

lemma upsert_mem: "x \<in> set (upsert key r rows) \<Longrightarrow> x = r \<or> x \<in> set rows"
  by (auto simp: upsert_def)

lemma mark_typed: "typed_file w \<Longrightarrow> typed_file (w\<lparr>col_deleted := 1\<rparr>)"
  by (simp add: typed_file_def)

lemma sql_effect_typed: "typed_database t \<Longrightarrow> typed_sql st \<Longrightarrow> typed_database (sql_effect st t)"
  by (cases st) (auto simp: typed_database_def mark_typed dest!: upsert_mem)

lemma run_write_typed: "typed_db d \<Longrightarrow> typed_sql st \<Longrightarrow> typed_db (snd (run_write E st d))"
  by (auto simp: run_write_def typed_db_def sql_effect_typed)

lemma executeSQL_typed: "typed_db d \<Longrightarrow> typed_sql st \<Longrightarrow> typed_db (snd (executeSQL E st d))"
  using sql_effect_typed [of "tables d" st]
  by (cases st) (auto simp: executeSQL_def typed_db_def simp del: sql_effect.simps split: option.splits)

lemma initialize_typed:
  assumes "typed_db d" and "\<And>p t. opens E p = Some t \<Longrightarrow> typed_database t"
  shows "typed_db (snd (initialize E d))"
proof (cases "opens E (c_str (db_path d))")
  case None
  with assms(1) show ?thesis by (simp add: initialize_def)
next
  case (Some t)
  have "typed_db (d\<lparr>db_open := True, tables := t\<rparr>)"
    using assms Some by (simp add: typed_db_def)
  then show ?thesis using Some by (simp add: initialize_def executeSQL_typed)
qed

lemma run_op_typed:
  assumes "typed_db d" and "\<And>p t. opens E p = Some t \<Longrightarrow> typed_database t" and "typed_op op"
  shows "typed_db (snd (run_op E op d))"
  using assms
  by (cases op)
    (simp_all add: db_writes run_write_typed bind_typed typed_chunk_def beginTransaction_def commit_db_def rollback_db_def
      executeSQL_typed initialize_typed)

lemma run_ops_typed:
  assumes "\<And>p t. opens E p = Some t \<Longrightarrow> typed_database t"
  shows "typed_db d \<Longrightarrow> \<forall>op \<in> set ops. typed_op op \<Longrightarrow> typed_db (run_ops E ops d)"
  unfolding run_ops_def using assms by (induction ops arbitrary: d) (simp_all add: run_op_typed)

subsection \<open>Queries deliver typed values\<close>

lemma getFile_typed:
  assumes "typed_db d" and "getFile E p d = Some r"
  shows "typed_record r \<and> storable r"
proof -
  let ?rows = "run_select E (Select_File (c_str p)) d (filter (\<lambda>w. col_path w = c_str p) (files_table (tables d)))"
  from assms(2) obtain w ws where w: "?rows = w # ws" "r = column_file w"
    by (auto simp: getFile_def split: list.splits)
  have "w \<in> set ?rows" by (simp add: w(1))
  then have "w \<in> set (files_table (tables d))" using run_select_subset by fastforce
  then show ?thesis using assms(1) column_typed w(2) by (simp add: typed_db_def typed_database_def)
qed

lemma scanned_typed:
  assumes "typed_db d" and "scan_documented E" and "r \<in> set (map column_file (run_select E st d (scan E (filter Q (files_table (tables d))))))"
  shows "typed_record r \<and> storable r"
proof -
  from assms(3) obtain w where w: "w \<in> set (run_select E st d (scan E (filter Q (files_table (tables d)))))" "r = column_file w"
    by auto
  then have "w \<in> set (files_table (tables d))"
    using run_select_subset scan_set [OF assms(2)] by fastforce
  then show ?thesis using assms(1) column_typed w(2) by (simp add: typed_db_def typed_database_def)
qed

lemma getLastSyncTime_typed: "typed_db d \<Longrightarrow> int64 (getLastSyncTime E d)"
proof -
  assume d: "typed_db d"
  let ?rows = "run_select E Select_Sync d (filter (\<lambda>kv. fst kv = last_sync_key) (sync_table (tables d)))"
  have "int64 (snd kv)" if "kv \<in> set ?rows" for kv
    using that d run_select_subset by (fastforce simp: typed_db_def typed_database_def)
  then show "int64 (getLastSyncTime E d)"
    unfolding getLastSyncTime_def by (cases ?rows) (simp_all add: int64_def)
qed

lemma getFileChunks_typed:
  assumes "typed_db d" and "h \<in> set (getFileChunks E p d)"
  shows "text_ok h"
proof -
  from assms(2) obtain w where w: "h = cr_hash w" "w \<in> set (run_select E (Select_Hashes (c_str p)) d
      (sort_key cr_chunk_index (filter (\<lambda>w. cr_file_path w = c_str p) (chunks_table (tables d)))))"
    by (auto simp: getFileChunks_def)
  then have "w \<in> set (chunks_table (tables d))" using run_select_subset by fastforce
  then show ?thesis using assms(1) w(1) by (simp add: typed_db_def typed_database_def typed_chunk_def)
qed

text \<open>C17: 
  The database is well typed: if the files that are opened are, then whatever operations are called with values
  of their types, on an engine that may fail anywhere, every column of every table, also of the tables a transaction
  would go back to, holds a value of its type, and so does everything the queries deliver; every record
  they deliver can be stored again and comes back the same.
\<close>

theorem database_stays_typed:
  assumes "\<forall>p t. opens E p = Some t \<longrightarrow> typed_database t" and "\<forall>op \<in> set ops. typed_op op" and "scan_documented E"
  shows "let d = run_ops E ops (MetadataDB p) in typed_db d \<and>
    (\<forall>q r. getFile E q d = Some r \<longrightarrow> typed_record r \<and> storable r) \<and>
    (\<forall>r \<in> set (getAllFiles E d). typed_record r \<and> storable r) \<and>
    (\<forall>t. \<forall>r \<in> set (getModifiedSince E t d). typed_record r \<and> storable r) \<and>
    int64 (getLastSyncTime E d) \<and> (\<forall>q. \<forall>h \<in> set (getFileChunks E q d). text_ok h)"
proof -
  have "typed_db (MetadataDB p)"
    by (simp add: typed_db_def MetadataDB_def typed_database_def empty_database_def)
  from run_ops_typed [OF _ this assms(2)] assms(1) have d: "typed_db (run_ops E ops (MetadataDB p))" by blast
  show ?thesis
    unfolding Let_def getAllFiles_def getModifiedSince_def
    using d getFile_typed [OF d] scanned_typed [OF d assms(3)] getLastSyncTime_typed [OF d] getFileChunks_typed [OF d]
    by blast
qed

theorem database_stays_typed_witness:
  "typed_db (run_ops plain_engine [Op_Initialize, Op_Update_Sync 9, Op_Begin, Op_Insert_Chunk ''f'' 0 ''ab'' 0 1, Op_Rollback]
    (MetadataDB ''m.db''))"
proof -
  have "\<forall>p t. opens plain_engine p = Some t \<longrightarrow> typed_database t"
    by (simp add: plain_engine_def typed_database_def empty_database_def)
  from database_stays_typed [OF this _ plain_engine_scan,
      of "[Op_Initialize, Op_Update_Sync 9, Op_Begin, Op_Insert_Chunk ''f'' 0 ''ab'' 0 1, Op_Rollback]" "''m.db''"]
  show ?thesis by (simp add: int32_def int64_def Let_def)
qed
end
