(* ===== verification/Database_Maps.thy ===== *)
theory Database_Maps
  imports Database_Types
begin

text \<open>
  What the interface of \<open>MetadataDB\<close> (\<open>include/core/metadata_db.h\<close>) promises its callers, without SQL: a map from paths to records, a map from paths and indices to
  digests, a number, and, while a transaction is open, a copy of them to go back to. Any sequence of calls, of whatever
  arguments the C++ types admit, answers as these maps do.
\<close>

subsection \<open>Tables as maps\<close>

definition rows_of :: "metadata_db \<Rightarrow> string \<Rightarrow> int \<Rightarrow> string option" where
  "rows_of d f j = map_option cr_hash (find (\<lambda>w. chunk_key w = (f, j)) (chunks_table (tables d)))"

definition record_of :: "metadata_db \<Rightarrow> string \<Rightarrow> file_record option" where
  "record_of d f = map_option column_file (find (\<lambda>w. col_path w = f) (files_table (tables d)))"

text \<open>The names of the chunks of a file, by index.\<close>

definition listed :: "(int \<Rightarrow> string option) \<Rightarrow> string list" where
  "listed m = map (\<lambda>j. the (m j)) (sorted_list_of_set (dom m))"

lemma find_upsert: "find (\<lambda>w. key w = k) (upsert key r rows) = (if k = key r then Some r else find (\<lambda>w. key w = k) rows)"
proof -
  have "find (\<lambda>w. key w = k) (filter (\<lambda>x. key x \<noteq> key r) rows @ [r]) =
      (if k = key r then Some r else find (\<lambda>w. key w = k) rows)"
    by (induction rows) auto
  then show ?thesis by (simp add: upsert_def)
qed

lemma find_unique: "distinct (map key rows) \<Longrightarrow> w \<in> set rows \<Longrightarrow> find (\<lambda>x. key x = key w) rows = Some w"
  by (induction rows) (auto simp: image_iff)

lemma find_filter: "find P rows = (case filter P rows of [] \<Rightarrow> None | w # _ \<Rightarrow> Some w)"
  by (induction rows) auto

lemma find_mapped: "(\<And>w. key (g w) = key w) \<Longrightarrow> find (\<lambda>w. key w = k) (map g rows) = map_option g (find (\<lambda>w. key w = k) rows)"
  by (induction rows) auto

lemma rows_of_dom:
  "dom (rows_of d f) = cr_chunk_index ` {w \<in> set (chunks_table (tables d)). cr_file_path w = f}"
  by (force simp: rows_of_def chunk_key_def dom_def find_None_iff find_Some_iff in_set_conv_nth)

text \<open>Under the primary key, the sorted query lists the map.\<close>

lemma hashes_listed:
  assumes "distinct (map chunk_key rows)" and "rows = chunks_table (tables d)"
  shows "map cr_hash (sort_key cr_chunk_index (filter (\<lambda>w. cr_file_path w = f) rows)) = listed (rows_of d f)"
proof -
  let ?S = "filter (\<lambda>w. cr_file_path w = f) rows" and ?m = "rows_of d f"
  have "inj_on cr_chunk_index (set ?S)"
    using assms(1) by (auto simp: distinct_map inj_on_def chunk_key_def)
  then have dist: "distinct (map cr_chunk_index ?S)"
    using assms(1) by (simp add: distinct_map)
  have "sorted_list_of_set (set (map cr_chunk_index ?S)) = sort (map cr_chunk_index ?S)"
    by (simp only: sorted_list_of_set_sort_remdups distinct_remdups_id [OF dist])
  also have "\<dots> = map cr_chunk_index (sort_key cr_chunk_index ?S)"
    by (rule properties_for_sort) simp_all
  finally have idx: "sorted_list_of_set (dom ?m) = map cr_chunk_index (sort_key cr_chunk_index ?S)"
    by (simp add: rows_of_dom assms(2))
  have "the (?m (cr_chunk_index w)) = cr_hash w" if "w \<in> set ?S" for w
  proof -
    have "chunk_key w = (f, cr_chunk_index w)" "w \<in> set rows" using that by (simp_all add: chunk_key_def)
    then show ?thesis using find_unique [OF assms(1), of w] by (simp add: rows_of_def assms(2))
  qed
  then show ?thesis unfolding listed_def idx by (simp add: comp_def)
qed

lemma getFileChunks_listed:
  assumes "engine_healthy E" and "db_open d" and "db_ok d" and "CHR 0x00 \<notin> set f"
  shows "getFileChunks E f d = listed (rows_of d f)"
  using hashes_listed [of "chunks_table (tables d)" d f] assms
  by (simp add: getFileChunks_healthy c_str_plain db_ok_def keys_unique_def)

lemma getFile_record_of:
  assumes "engine_healthy E" and "db_open d" and "CHR 0x00 \<notin> set f"
  shows "getFile E f d = record_of d f"
  using assms
  by (simp add: getFile_healthy c_str_plain record_of_def find_filter split: list.split)

subsection \<open>The interface\<close>

datatype db_call =
    Db_Insert_File file_record
  | Db_Get_File string
  | Db_All_Files
  | Db_Modified_Since int
  | Db_Delete_File string
  | Db_Insert_Chunk string int string int int
  | Db_File_Chunks string
  | Db_Has_Chunk string
  | Db_Update_Sync int
  | Db_Get_Sync
  | Db_Begin
  | Db_Commit
  | Db_Rollback

datatype db_reply =
    Db_Bool bool
  | Db_File "file_record option"
  | Db_Files "file_record list"
  | Db_Hashes "string list"
  | Db_Time int

definition answer_bool :: "bool \<times> metadata_db \<Rightarrow> db_reply \<times> metadata_db" where
  "answer_bool r = (Db_Bool (fst r), snd r)"

fun run_db :: "sqlite \<Rightarrow> db_call \<Rightarrow> metadata_db \<Rightarrow> db_reply \<times> metadata_db" where
  "run_db E (Db_Insert_File r) d = answer_bool (insertOrUpdateFile E r d)"
| "run_db E (Db_Get_File p) d = (Db_File (getFile E p d), d)"
| "run_db E Db_All_Files d = (Db_Files (getAllFiles E d), d)"
| "run_db E (Db_Modified_Since t) d = (Db_Files (getModifiedSince E t d), d)"
| "run_db E (Db_Delete_File p) d = answer_bool (deleteFile E p d)"
| "run_db E (Db_Insert_Chunk p i h off sz) d = answer_bool (insertChunk E p i h off sz d)"
| "run_db E (Db_File_Chunks p) d = (Db_Hashes (getFileChunks E p d), d)"
| "run_db E (Db_Has_Chunk h) d = (Db_Bool (hasChunk E h d), d)"
| "run_db E (Db_Update_Sync t) d = answer_bool (updateLastSyncTime E t d)"
| "run_db E Db_Get_Sync d = (Db_Time (getLastSyncTime E d), d)"
| "run_db E Db_Begin d = answer_bool (beginTransaction E d)"
| "run_db E Db_Commit d = answer_bool (commit_db E d)"
| "run_db E Db_Rollback d = answer_bool (rollback_db E d)"

fun run_db_calls :: "sqlite \<Rightarrow> db_call list \<Rightarrow> metadata_db \<Rightarrow> db_reply list \<times> metadata_db" where
  "run_db_calls E [] d = ([], d)"
| "run_db_calls E (c # cs) d =
     (case run_db E c d of (r, d') \<Rightarrow> (case run_db_calls E cs d' of (rs, d'') \<Rightarrow> (r # rs, d'')))"

fun typed_call :: "db_call \<Rightarrow> bool" where
  "typed_call (Db_Insert_File r) \<longleftrightarrow> typed_record r"
| "typed_call (Db_Insert_Chunk p i h off sz) \<longleftrightarrow> int32 i \<and> int64 off \<and> int32 sz"
| "typed_call (Db_Update_Sync t) \<longleftrightarrow> int64 t"
| "typed_call _ \<longleftrightarrow> True"

subsection \<open>The maps\<close>

record db_maps =
  m_records :: "string \<Rightarrow> file_record option"
  m_chunks :: "string \<Rightarrow> int \<Rightarrow> string option"
  m_sync :: int

record db_view =
  current :: db_maps
  undo :: "db_maps option"

text \<open>A record as it comes back: its strings end at their first zero byte.\<close>

definition as_stored :: "file_record \<Rightarrow> file_record" where
  "as_stored r = r\<lparr>fr_path := c_str (fr_path r), fr_hash := c_str (fr_hash r)\<rparr>"

fun view_write :: "db_call \<Rightarrow> db_maps \<Rightarrow> db_maps" where
  "view_write (Db_Insert_File r) m = m\<lparr>m_records := (m_records m)(c_str (fr_path r) \<mapsto> as_stored r)\<rparr>"
| "view_write (Db_Delete_File p) m =
     m\<lparr>m_records := (m_records m)(c_str p := map_option (fr_deleted_update (\<lambda>_. True)) (m_records m (c_str p)))\<rparr>"
| "view_write (Db_Insert_Chunk p i h off sz) m =
     m\<lparr>m_chunks := (m_chunks m)(c_str p := (m_chunks m (c_str p))(i \<mapsto> c_str h))\<rparr>"
| "view_write (Db_Update_Sync t) m = m\<lparr>m_sync := t\<rparr>"
| "view_write _ m = m"

fun view_next :: "db_call \<Rightarrow> db_view \<Rightarrow> db_view" where
  "view_next Db_Begin v = (case undo v of None \<Rightarrow> v\<lparr>undo := Some (current v)\<rparr> | Some _ \<Rightarrow> v)"
| "view_next Db_Commit v = v\<lparr>undo := None\<rparr>"
| "view_next Db_Rollback v = (case undo v of None \<Rightarrow> v | Some m \<Rightarrow> v\<lparr>current := m, undo := None\<rparr>)"
| "view_next c v = v\<lparr>current := view_write c (current v)\<rparr>"

text \<open>A list of records without a path twice, of exactly the records of the map that satisfy the condition.\<close>

definition lists_records :: "(file_record \<Rightarrow> bool) \<Rightarrow> db_maps \<Rightarrow> file_record list \<Rightarrow> bool" where
  "lists_records Q m rs \<longleftrightarrow> distinct (map fr_path rs) \<and> set rs = {x. \<exists>f. m_records m f = Some x \<and> Q x}"

fun view_answers :: "db_view \<Rightarrow> db_call \<Rightarrow> db_reply \<Rightarrow> bool" where
  "view_answers v (Db_Get_File p) r \<longleftrightarrow> r = Db_File (m_records (current v) (c_str p))"
| "view_answers v Db_All_Files r \<longleftrightarrow> (\<exists>rs. r = Db_Files rs \<and> lists_records (\<lambda>x. \<not> fr_deleted x) (current v) rs)"
| "view_answers v (Db_Modified_Since t) r \<longleftrightarrow>
     (\<exists>rs. r = Db_Files rs \<and> lists_records (\<lambda>x. t < fr_modified_time x) (current v) rs)"
| "view_answers v (Db_File_Chunks p) r \<longleftrightarrow> r = Db_Hashes (listed (m_chunks (current v) (c_str p)))"
| "view_answers v (Db_Has_Chunk h) r \<longleftrightarrow> r = Db_Bool (\<exists>f j. m_chunks (current v) f j = Some (c_str h))"
| "view_answers v Db_Get_Sync r \<longleftrightarrow> r = Db_Time (m_sync (current v))"
| "view_answers v Db_Begin r \<longleftrightarrow> r = Db_Bool (undo v = None)"
| "view_answers v Db_Commit r \<longleftrightarrow> r = Db_Bool (undo v \<noteq> None)"
| "view_answers v Db_Rollback r \<longleftrightarrow> r = Db_Bool (undo v \<noteq> None)"
| "view_answers v _ r \<longleftrightarrow> r = Db_Bool True"

fun view_replies :: "db_view \<Rightarrow> db_call list \<Rightarrow> db_reply list \<Rightarrow> bool" where
  "view_replies v [] rs \<longleftrightarrow> rs = []"
| "view_replies v (c # cs) rs \<longleftrightarrow> (\<exists>r rs'. rs = r # rs' \<and> view_answers v c r \<and> view_replies (view_next c v) cs rs')"

definition view_run :: "db_call list \<Rightarrow> db_view \<Rightarrow> db_view" where
  "view_run cs v = foldl (\<lambda>v c. view_next c v) v cs"

text \<open>The view of a connection.\<close>

definition maps_of :: "database \<Rightarrow> db_maps" where
  "maps_of t = \<lparr>m_records = (\<lambda>f. map_option column_file (find (\<lambda>w. col_path w = f) (files_table t))),
     m_chunks = (\<lambda>f j. map_option cr_hash (find (\<lambda>w. chunk_key w = (f, j)) (chunks_table t))),
     m_sync = (case find (\<lambda>kv. fst kv = last_sync_key) (sync_table t) of None \<Rightarrow> 0 | Some kv \<Rightarrow> snd kv)\<rparr>"

lemma maps_of_tables: "record_of d = m_records (maps_of (tables d))" "rows_of d = m_chunks (maps_of (tables d))"
  by (simp_all add: maps_of_def record_of_def rows_of_def fun_eq_iff)

definition view_of :: "metadata_db \<Rightarrow> db_view" where
  "view_of d = \<lparr>current = maps_of (tables d), undo = map_option maps_of (saved d)\<rparr>"

subsection \<open>Statements on the maps\<close>

lemma column_bind_stored: "typed_record r \<Longrightarrow> column_file (bind_file r) = as_stored r"
  by (cases r) (simp add: typed_record_def int32_def as_stored_def column_file_def bind_file_def to_int32_id)

lemma maps_insert_file: "maps_of (sql_effect (Insert_File w) t) =
    (maps_of t)\<lparr>m_records := (m_records (maps_of t))(col_path w \<mapsto> column_file w)\<rparr>"
  by (simp add: maps_of_def find_upsert fun_eq_iff)

lemma maps_mark: "maps_of (sql_effect (Mark_Deleted p) t) =
    (maps_of t)\<lparr>m_records := (m_records (maps_of t))(p := map_option (fr_deleted_update (\<lambda>_. True)) (m_records (maps_of t) p))\<rparr>"
proof -
  define mark where "mark = (\<lambda>w :: file_row. if col_path w = p then w\<lparr>col_deleted := 1\<rparr> else w)"
  have find: "find (\<lambda>w. col_path w = f) (map mark ws) = map_option mark (find (\<lambda>w. col_path w = f) ws)" for f ws
    by (rule find_mapped) (simp add: mark_def)
  have "map_option column_file (find (\<lambda>w. col_path w = f) (map mark ws)) =
      (if f = p then map_option (fr_deleted_update (\<lambda>_. True)) (map_option column_file (find (\<lambda>w. col_path w = p) ws))
       else map_option column_file (find (\<lambda>w. col_path w = f) ws))" for f ws
  proof (cases "find (\<lambda>w. col_path w = f) ws")
    case (Some w)
    then have "col_path w = f" by (auto simp: find_Some_iff)
    with Some show ?thesis unfolding find by (auto simp: mark_def column_file_def)
  qed (auto simp: find)
  then show ?thesis by (simp add: maps_of_def mark_def [symmetric] fun_eq_iff)
qed

lemma maps_insert_chunk: "maps_of (sql_effect (Insert_Chunk w) t) =
    (maps_of t)\<lparr>m_chunks := (m_chunks (maps_of t))(cr_file_path w :=
      (m_chunks (maps_of t) (cr_file_path w))(cr_chunk_index w \<mapsto> cr_hash w))\<rparr>"
proof -
  have "chunk_key w = (cr_file_path w, cr_chunk_index w)" by (simp add: chunk_key_def)
  then show ?thesis by (auto simp: maps_of_def find_upsert fun_eq_iff)
qed

lemma maps_insert_sync: "maps_of (sql_effect (Insert_Sync v) t) = (maps_of t)\<lparr>m_sync := v\<rparr>"
  by (simp add: maps_of_def find_upsert)

lemmas maps_effect = maps_insert_file maps_mark maps_insert_chunk maps_insert_sync

lemma map_records_iff:
  assumes "distinct (map col_path (files_table t))"
  shows "(\<exists>f. m_records (maps_of t) f = Some x) \<longleftrightarrow> x \<in> column_file ` set (files_table t)"
proof
  assume "\<exists>f. m_records (maps_of t) f = Some x"
  then show "x \<in> column_file ` set (files_table t)"
    by (auto simp: maps_of_def find_Some_iff)
next
  assume "x \<in> column_file ` set (files_table t)"
  then obtain w where w: "w \<in> set (files_table t)" "x = column_file w" by blast
  then have "m_records (maps_of t) (col_path w) = Some x" using find_unique [OF assms] by (simp add: maps_of_def)
  then show "\<exists>f. m_records (maps_of t) f = Some x" by blast
qed

lemma scan_lists_records:
  assumes "scan_documented E" and "keys_unique t" and "\<And>w. w \<in> set (files_table t) \<Longrightarrow> P w = Q (column_file w)"
  shows "lists_records Q (maps_of t) (map column_file (scan E (filter P (files_table t))))"
proof -
  have keys: "distinct (map col_path (files_table t))" using assms(2) by (simp add: keys_unique_def)
  have "set (map column_file (scan E (filter P (files_table t)))) = {x. x \<in> column_file ` set (files_table t) \<and> Q x}"
    using assms(3) by (auto simp: scan_set [OF assms(1)])
  then show ?thesis
    using scanned_paths_distinct [OF keys assms(1), of P] map_records_iff [OF keys]
    unfolding lists_records_def by simp
qed

lemma has_chunk_maps:
  assumes "keys_unique t"
  shows "(\<exists>f j. m_chunks (maps_of t) f j = Some h) \<longleftrightarrow> filter (\<lambda>w. cr_hash w = h) (chunks_table t) \<noteq> []"
proof -
  have keys: "distinct (map chunk_key (chunks_table t))" using assms by (simp add: keys_unique_def)
  show ?thesis
  proof
    assume "\<exists>f j. m_chunks (maps_of t) f j = Some h"
    then show "filter (\<lambda>w. cr_hash w = h) (chunks_table t) \<noteq> []"
      by (auto simp: maps_of_def find_Some_iff filter_empty_conv)
  next
    assume "filter (\<lambda>w. cr_hash w = h) (chunks_table t) \<noteq> []"
    then obtain w where w: "w \<in> set (chunks_table t)" "cr_hash w = h" by (auto simp: filter_empty_conv)
    then have "m_chunks (maps_of t) (cr_file_path w) (cr_chunk_index w) = Some h"
      using find_unique [OF keys w(1)] by (simp add: maps_of_def chunk_key_def)
    then show "\<exists>f j. m_chunks (maps_of t) f j = Some h" by blast
  qed
qed

subsection \<open>Every call is a step of the maps\<close>

definition db_good :: "metadata_db \<Rightarrow> bool" where
  "db_good d \<longleftrightarrow> db_open d \<and> db_ok d \<and> typed_db d"

lemma db_goodD:
  assumes "db_good d"
  shows "db_open d" "db_ok d" "typed_db d" "keys_unique (tables d)" "w \<in> set (files_table (tables d)) \<Longrightarrow> typed_file w"
  using assms by (auto simp: db_good_def db_ok_def typed_db_def typed_database_def)

definition answered :: "sqlite \<Rightarrow> metadata_db \<Rightarrow> db_call \<Rightarrow> bool" where
  "answered E d c \<longleftrightarrow> (case run_db E c d of (r, d') \<Rightarrow>
     view_answers (view_of d) c r \<and> view_of d' = view_next c (view_of d) \<and> db_good d')"

lemma view_of_tables: "view_of (d\<lparr>tables := t\<rparr>) = (view_of d)\<lparr>current := maps_of t\<rparr>"
  by (simp add: view_of_def)

lemma write_good:
  assumes "engine_healthy E" and "db_good d" and "typed_sql st"
  shows "run_write E st d = (True, d\<lparr>tables := sql_effect st (tables d)\<rparr>)" and "db_good (d\<lparr>tables := sql_effect st (tables d)\<rparr>)"
proof -
  note d = db_goodD [OF assms(2)]
  show w: "run_write E st d = (True, d\<lparr>tables := sql_effect st (tables d)\<rparr>)" by (rule run_write_healthy [OF assms(1) d(1)])
  show "db_good (d\<lparr>tables := sql_effect st (tables d)\<rparr>)"
    using run_write_ok [OF d(2), of E st] run_write_typed [OF d(3) assms(3), of E] d(1) by (simp add: db_good_def w)
qed

lemma answered_writes:
  assumes "engine_healthy E" and "db_good d"
  shows "typed_record r \<Longrightarrow> answered E d (Db_Insert_File r)" and "answered E d (Db_Delete_File p)"
    and "int32 i \<Longrightarrow> int64 off \<Longrightarrow> int32 sz \<Longrightarrow> answered E d (Db_Insert_Chunk p i h off sz)"
    and "int64 t \<Longrightarrow> answered E d (Db_Update_Sync t)"
proof -
  note w = write_good [OF assms] and defs = answered_def answer_bool_def db_writes view_of_tables maps_effect
  show "answered E d (Db_Insert_File r)" if "typed_record r"
    using w [of "Insert_File (bind_file r)"] bind_typed [OF that] column_bind_stored [OF that]
    by (simp add: defs del: sql_effect.simps) (simp add: view_of_def bind_file_def)
  show "answered E d (Db_Delete_File p)"
    using w [of "Mark_Deleted (c_str p)"] by (simp add: defs del: sql_effect.simps) (simp add: view_of_def)
  show "answered E d (Db_Insert_Chunk p i h off sz)" if "int32 i" "int64 off" "int32 sz"
    using w [of "Insert_Chunk \<lparr>cr_file_path = c_str p, cr_chunk_index = i, cr_hash = c_str h, cr_offset = off, cr_size = sz\<rparr>"] that
    by (simp add: defs typed_chunk_def del: sql_effect.simps) (simp add: view_of_def)
  show "answered E d (Db_Update_Sync t)" if "int64 t"
    using w [of "Insert_Sync t"] that by (simp add: defs del: sql_effect.simps) (simp add: view_of_def)
qed

lemma answered_reads:
  assumes "engine_healthy E" and "scan_documented E" and "db_good d"
  shows "answered E d (Db_Get_File p)" and "answered E d Db_All_Files" and "answered E d (Db_Modified_Since t)"
    and "answered E d (Db_File_Chunks p)" and "answered E d (Db_Has_Chunk h)" and "answered E d Db_Get_Sync"
proof -
  note d = db_goodD [OF assms(3)]
  have del: "(col_deleted w = 0) = (\<not> fr_deleted (column_file w))" if "w \<in> set (files_table (tables d))" for w
    using d(5) [OF that] by (auto simp: typed_file_def column_file_def)
  note defs = answered_def view_of_def assms(3) run_select_healthy [OF assms(1) d(1)]
  show "answered E d (Db_Get_File p)"
    using getFile_healthy [OF assms(1) d(1), of p] by (simp add: defs maps_of_def find_filter split: list.split)
  show "answered E d Db_All_Files"
    using scan_lists_records [OF assms(2) d(4), of "\<lambda>w. col_deleted w = 0" "\<lambda>x. \<not> fr_deleted x"] del
    by (simp add: defs getAllFiles_def)
  show "answered E d (Db_Modified_Since t)"
    using scan_lists_records [OF assms(2) d(4), of "\<lambda>w. t < col_modified_time w" "\<lambda>x. t < fr_modified_time x"]
    by (simp add: defs getModifiedSince_def column_file_def)
  show "answered E d (Db_File_Chunks p)"
    using hashes_listed [OF _ refl, of d "c_str p"] d(4) by (simp add: defs getFileChunks_def keys_unique_def maps_of_tables)
  show "answered E d (Db_Has_Chunk h)"
    using has_chunk_maps [OF d(4), of "c_str h"] by (simp add: defs hasChunk_def)
  show "answered E d Db_Get_Sync"
    by (simp add: defs getLastSyncTime_def maps_of_def find_filter split: list.split)
qed

lemma answered_transactions:
  assumes "engine_healthy E" and "db_good d"
  shows "answered E d Db_Begin" and "answered E d Db_Commit" and "answered E d Db_Rollback"
  using db_goodD [OF assms(2)] assms(2)
  by (auto simp: answered_def answer_bool_def beginTransaction_def commit_db_def rollback_db_def transaction_healthy [OF assms(1)]
      view_of_def db_good_def db_ok_def typed_db_def split: option.split)

lemma call_answered:
  "engine_healthy E \<Longrightarrow> scan_documented E \<Longrightarrow> db_good d \<Longrightarrow> typed_call c \<Longrightarrow> answered E d c"
  by (cases c) (simp_all add: answered_writes answered_reads answered_transactions)

text \<open>C4: 
  The database is the maps: on an engine on which nothing fails, any sequence of calls with arguments of their C++ types
  answers as the maps do, transactions included, and leaves the tables that represent the maps after it.
\<close>

theorem database_refines_maps:
  assumes "engine_healthy E" and "scan_documented E"
  shows "db_good d \<Longrightarrow> \<forall>c \<in> set cs. typed_call c \<Longrightarrow>
    case run_db_calls E cs d of (rs, d') \<Rightarrow>
      view_replies (view_of d) cs rs \<and> view_of d' = view_run cs (view_of d) \<and> db_good d'"
proof (induction cs arbitrary: d)
  case Nil
  then show ?case by (simp add: view_run_def)
next
  case (Cons c cs)
  obtain r d1 where run: "run_db E c d = (r, d1)" by fastforce
  have step: "view_answers (view_of d) c r" "view_of d1 = view_next c (view_of d)" "db_good d1"
    using call_answered [OF assms Cons.prems(1), of c] Cons.prems(2) by (simp_all add: answered_def run)
  obtain rs d2 where rest: "run_db_calls E cs d1 = (rs, d2)" by fastforce
  show ?case using Cons.IH [OF step(3)] Cons.prems(2) step by (simp add: run rest view_run_def)
qed

theorem database_refines_maps_witness:
  "case run_db_calls plain_engine [Db_Insert_Chunk ''f'' 1 ''bb'' 0 5, Db_Begin, Db_Insert_Chunk ''f'' 0 ''aa'' 0 5,
      Db_File_Chunks ''f'', Db_Rollback, Db_File_Chunks ''f'', Db_Update_Sync 7, Db_Get_Sync] open_empty of (rs, d') \<Rightarrow>
    rs = [Db_Bool True, Db_Bool True, Db_Bool True, Db_Hashes [''aa'', ''bb''], Db_Bool True, Db_Hashes [''bb''], Db_Bool True, Db_Time 7]"
proof -
  let ?cs = "[Db_Insert_Chunk ''f'' 1 ''bb'' 0 5, Db_Begin, Db_Insert_Chunk ''f'' 0 ''aa'' 0 5,
      Db_File_Chunks ''f'', Db_Rollback, Db_File_Chunks ''f'', Db_Update_Sync 7, Db_Get_Sync]"
  have "db_good open_empty"
    using open_empty_ok by (simp add: db_good_def typed_db_def typed_database_def)
  moreover have "\<forall>c \<in> set ?cs. typed_call c" by (simp add: int32_def int64_def)
  ultimately have run: "case run_db_calls plain_engine ?cs open_empty of (rs, d') \<Rightarrow>
      view_replies (view_of open_empty) ?cs rs \<and> view_of d' = view_run ?cs (view_of open_empty) \<and> db_good d'"
    by (rule database_refines_maps [OF plain_engine_healthy plain_engine_scan])
  have empty: "m_chunks (maps_of empty_database) f = Map.empty" for f by (simp add: maps_of_def)
  have "listed [1 \<mapsto> ''bb''] = [''bb'']" "listed [0 \<mapsto> ''aa'', 1 \<mapsto> ''bb''] = [''aa'', ''bb'']" by (simp_all add: listed_def)
  moreover have "[1 \<mapsto> ''bb'', 0 \<mapsto> ''aa''] = [0 \<mapsto> ''aa'', 1 :: int \<mapsto> ''bb'']" by (simp add: fun_upd_twist)
  ultimately show ?thesis
    using run by (auto simp: view_of_def empty c_str_def simp del: run_db_calls.simps)
qed

end
