(* ===== verification/File_Catalogue.thy ===== *)
theory File_Catalogue
  imports Sync_Service Database_Maps
begin

text \<open>
  What the storage manager promises, without files, directories, tables and connections: a catalogue of
  blobs by name and, for each client and path, of the chunks, the record and the contents. Every call of the
  storage manager is simulated by one step of the catalogue, so that a property of sequences of calls
  is proved on the catalogue and holds of the code.

  The calls are the methods of \<open>StorageManager\<close> as the handlers make them; a handler is a
  sequence of calls, and handlers that run at the same time are an interleaving of their sequences.
\<close>

subsection \<open>Calls and replies\<close>

datatype call =
    Store_Chunk string string int bytes string
  | Finalize int int string string int
  | Delete_File string string
  | Get_Record string string
  | List_Files string
  | Get_Chunk string
  | Has_Chunk string

datatype reply =
    Answer_Bool bool
  | Answer_Record "file_record option"
  | Answer_Files "file_record list"
  | Answer_Bytes bytes

fun run_call :: "'c env \<Rightarrow> call \<Rightarrow> reply action" where
  "run_call env (Store_Chunk i f j data k) = seq (storeChunk env i f j data k) (\<lambda>b. ret (Answer_Bool b))"
| "run_call env (Finalize now junk i f n) = seq (finalizeFile env now junk i f n) (\<lambda>b. ret (Answer_Bool b))"
| "run_call env (Delete_File i f) = seq (deleteStoredFile env i f) (\<lambda>b. ret (Answer_Bool b))"
| "run_call env (Get_Record i f) = seq (getFileMetadata env i f) (\<lambda>r. ret (Answer_Record r))"
| "run_call env (List_Files i) = seq (listFiles env i) (\<lambda>rs. ret (Answer_Files rs))"
| "run_call env (Get_Chunk k) = seq (getChunk env k) (\<lambda>bs. ret (Answer_Bytes bs))"
| "run_call env (Has_Chunk k) = seq (hasStoredChunk env k) (\<lambda>b. ret (Answer_Bool b))"

fun run_calls :: "'c env \<Rightarrow> call list \<Rightarrow> reply list action" where
  "run_calls env [] = ret []"
| "run_calls env (c # cs) = seq (run_call env c) (\<lambda>r. seq (run_calls env cs) (\<lambda>rs. ret (r # rs)))"

subsection \<open>The catalogue\<close>

record catalogue =
  blobs :: "string \<Rightarrow> bytes option"
  manifests :: "string \<Rightarrow> string \<Rightarrow> int \<Rightarrow> string option"
  records :: "string \<Rightarrow> string \<Rightarrow> file_record option"
  contents :: "string \<Rightarrow> string \<Rightarrow> bytes option"

text \<open>Updating a table at a client and a path.\<close>

definition put_at :: "(string \<Rightarrow> string \<Rightarrow> 'a) \<Rightarrow> string \<Rightarrow> string \<Rightarrow> 'a \<Rightarrow> string \<Rightarrow> string \<Rightarrow> 'a" where
  "put_at t i f x = t(i := (t i)(f := x))"

lemma put_at_apply: "put_at t i f x i' f' = (if i' = i \<and> f' = f then x else t i' f')"
  by (simp add: put_at_def)

definition has_bytes :: "(string \<Rightarrow> bytes option) \<Rightarrow> string \<Rightarrow> bool" where
  "has_bytes b k \<longleftrightarrow> b k \<noteq> None \<and> b k \<noteq> Some []"

definition bytes_of :: "(string \<Rightarrow> bytes option) \<Rightarrow> string \<Rightarrow> bytes" where
  "bytes_of b k = (case b k of None \<Rightarrow> [] | Some bs \<Rightarrow> bs)"

text \<open>What an assembly writes: the chunks up to the first that is missing or empty.\<close>

definition assembled :: "(string \<Rightarrow> bytes option) \<Rightarrow> string list \<Rightarrow> bytes" where
  "assembled b ks = concat (map (bytes_of b) (takeWhile (has_bytes b) ks))"

fun cat_next :: "'c env \<Rightarrow> call \<Rightarrow> catalogue \<Rightarrow> catalogue" where
  "cat_next env (Store_Chunk i f j data k) a =
     a\<lparr>blobs := (if blobs a k = None then (blobs a)(k \<mapsto> data) else blobs a),
       manifests := put_at (manifests a) i f ((manifests a i f)(j \<mapsto> k))\<rparr>"
| "cat_next env (Finalize now junk i f n) a =
     (let ks = listed (manifests a i f); bs = assembled (blobs a) ks
      in if length ks \<noteq> to_size_t n then a
         else a\<lparr>contents := put_at (contents a) i f (Some bs),
                records := (if \<forall>k \<in> set ks. has_bytes (blobs a) k
                  then put_at (records a) i f (Some (final_record env now junk f bs)) else records a)\<rparr>)"
| "cat_next env (Delete_File i f) a =
     a\<lparr>records := put_at (records a) i f (map_option (fr_deleted_update (\<lambda>_. True)) (records a i f))\<rparr>"
| "cat_next env _ a = a"

fun cat_answers :: "catalogue \<Rightarrow> call \<Rightarrow> reply \<Rightarrow> bool" where
  "cat_answers a (Store_Chunk i f j data k) r \<longleftrightarrow> r = Answer_Bool True"
| "cat_answers a (Finalize now junk i f n) r \<longleftrightarrow>
     r = Answer_Bool (length (listed (manifests a i f)) = to_size_t n \<and>
       (\<forall>k \<in> set (listed (manifests a i f)). has_bytes (blobs a) k))"
| "cat_answers a (Delete_File i f) r \<longleftrightarrow> r = Answer_Bool True"
| "cat_answers a (Get_Record i f) r \<longleftrightarrow> r = Answer_Record (records a i f)"
| "cat_answers a (List_Files i) r \<longleftrightarrow>
     (\<exists>rs. r = Answer_Files rs \<and> distinct (map fr_path rs) \<and>
        set rs = {x. \<exists>f. records a i f = Some x \<and> \<not> fr_deleted x})"
| "cat_answers a (Get_Chunk k) r \<longleftrightarrow> r = Answer_Bytes (bytes_of (blobs a) k)"
| "cat_answers a (Has_Chunk k) r \<longleftrightarrow> r = Answer_Bool (blobs a k \<noteq> None)"

text \<open>The replies of a sequence of calls, and the catalogue after it.\<close>

fun cat_run :: "'c env \<Rightarrow> call list \<Rightarrow> catalogue \<Rightarrow> catalogue" where
  "cat_run env [] a = a"
| "cat_run env (c # cs) a = cat_run env cs (cat_next env c a)"

fun cat_replies :: "'c env \<Rightarrow> catalogue \<Rightarrow> call list \<Rightarrow> reply list \<Rightarrow> bool" where
  "cat_replies env a [] rs \<longleftrightarrow> rs = []"
| "cat_replies env a (c # cs) rs \<longleftrightarrow> (\<exists>r rs'. rs = r # rs' \<and> cat_answers a c r \<and> cat_replies env (cat_next env c a) cs rs')"

subsection \<open>The catalogue of a server\<close>

definition catalogue_of :: "'c env \<Rightarrow> storage \<Rightarrow> catalogue" where
  "catalogue_of env st = \<lparr>blobs = chunk_get (env, st), manifests = (\<lambda>i. rows_of (client_view env st i)),
     records = (\<lambda>i. record_of (client_view env st i)),
     contents = (\<lambda>i f. files_of (disk st) (client_place (root_path env st) i f))\<rparr>"

text \<open>
  The paths that are used: relative, without zero bytes, none of them a directory of another, and none of them
  among the files SQLite keeps in the directory of the client.
\<close>

definition database_files :: "string set" where
  "database_files = {''metadata.db'', ''metadata.db-journal'', ''metadata.db-wal'', ''metadata.db-shm''}"

definition good_paths :: "string set \<Rightarrow> bool" where
  "good_paths P \<longleftrightarrow> (\<forall>f \<in> P. safe_path f \<and> CHR 0x00 \<notin> set f \<and> hd (components f) \<notin> database_files \<and>
     (\<forall>g \<in> P. \<forall>n < length (components g). take n (components g) \<noteq> components f))"

fun good_call :: "string set \<Rightarrow> call \<Rightarrow> bool" where
  "good_call P (Store_Chunk i f j data k) \<longleftrightarrow> plain_name i \<and> f \<in> P \<and> chunk_name k \<and> CHR 0x00 \<notin> set k"
| "good_call P (Finalize now junk i f n) \<longleftrightarrow> plain_name i \<and> f \<in> P"
| "good_call P (Delete_File i f) \<longleftrightarrow> plain_name i \<and> f \<in> P"
| "good_call P (Get_Record i f) \<longleftrightarrow> plain_name i \<and> f \<in> P"
| "good_call P (List_Files i) \<longleftrightarrow> plain_name i"
| "good_call P (Get_Chunk k) \<longleftrightarrow> chunk_name k"
| "good_call P (Has_Chunk k) \<longleftrightarrow> chunk_name k"

text \<open>What the rows the code writes have in common: the names of chunks, and flags that are 0 or 1.\<close>

definition rows_ok :: "metadata_db \<Rightarrow> bool" where
  "rows_ok d \<longleftrightarrow> (\<forall>w \<in> set (chunks_table (tables d)). chunk_name (cr_hash w)) \<and>
     (\<forall>w \<in> set (files_table (tables d)). col_deleted w \<in> {0, 1})"

definition serving :: "string set \<Rightarrow> 'c env \<Rightarrow> storage \<Rightarrow> bool" where
  "serving P env st \<longleftrightarrow> server_ok env st \<and> (\<forall>i. rows_ok (client_view env st i)) \<and>
     (\<forall>i f. plain_name i \<longrightarrow> f \<in> P \<longrightarrow> file_place_ok (root_path env st) i f (disk st))"

definition libraries_ok :: "'c env \<Rightarrow> bool" where
  "libraries_ok env \<longleftrightarrow> sha_documented (env_sha env) \<and> scan_documented (env_engine env)"


subsection \<open>Tables as maps\<close>

lemma getAllFiles_records:
  assumes "engine_healthy E" and "scan_documented E" and "db_open d" and "db_ok d" and "rows_ok d"
  shows "set (getAllFiles E d) = {x. \<exists>f. record_of d f = Some x \<and> \<not> fr_deleted x}"
proof -
  have keys: "distinct (map col_path (files_table (tables d)))"
    using assms(4) by (simp add: db_ok_def keys_unique_def)
  have del: "(col_deleted w = 0) = (\<not> fr_deleted (column_file w))" if "w \<in> set (files_table (tables d))" for w
    using assms(5) that by (auto simp: rows_ok_def column_file_def)
  have "(\<exists>f. record_of d f = Some x) \<longleftrightarrow> x \<in> column_file ` set (files_table (tables d))" for x
    using map_records_iff [OF keys] by (simp add: maps_of_tables)
  then show ?thesis
    using del by (auto simp: getAllFiles_healthy [OF assms(1,3)] scan_set [OF assms(2)])
qed


text \<open>The three statements that write, on the maps.\<close>

lemma insertChunk_maps:
  assumes "engine_healthy E" and "db_open d" and "CHR 0x00 \<notin> set f" and "CHR 0x00 \<notin> set k"
  shows "rows_of (snd (insertChunk E f j k 0 sz d)) = (rows_of d)(f := (rows_of d f)(j \<mapsto> k))"
    and "record_of (snd (insertChunk E f j k 0 sz d)) = record_of d"
    and "chunk_name k \<Longrightarrow> rows_ok d \<Longrightarrow> rows_ok (snd (insertChunk E f j k 0 sz d))"
  by (simp_all add: insertChunk_def run_write_healthy [OF assms(1,2)] maps_of_tables maps_insert_chunk c_str_plain assms(3,4)
      del: sql_effect.simps) (simp add: rows_ok_def upsert_def)

lemma insertFile_maps:
  assumes "engine_healthy E" and "db_open d" and "storable r"
  shows "record_of (snd (insertOrUpdateFile E r d)) = (record_of d)(fr_path r := Some r)"
    and "rows_of (snd (insertOrUpdateFile E r d)) = rows_of d"
    and "rows_ok d \<Longrightarrow> rows_ok (snd (insertOrUpdateFile E r d))"
proof -
  note ins = getFile_insert(1) [OF assms]
  have path: "col_path (bind_file r) = fr_path r"
    using assms(3) by (simp add: bind_file_def storable_def c_str_plain)
  show "record_of (snd (insertOrUpdateFile E r d)) = (record_of d)(fr_path r := Some r)"
    "rows_of (snd (insertOrUpdateFile E r d)) = rows_of d"
    using column_bind [OF assms(3)] by (simp_all add: ins maps_of_tables maps_insert_file path del: sql_effect.simps)
  show "rows_ok (snd (insertOrUpdateFile E r d))" if "rows_ok d"
    using that by (auto simp: ins rows_ok_def upsert_def bind_file_def)
qed

lemma deleteFile_maps:
  assumes "engine_healthy E" and "db_open d" and "CHR 0x00 \<notin> set f"
  shows "fst (deleteFile E f d)"
    and "record_of (snd (deleteFile E f d)) =
      (record_of d)(f := map_option (fr_deleted_update (\<lambda>_. True)) (record_of d f))"
    and "rows_of (snd (deleteFile E f d)) = rows_of d"
    and "rows_ok d \<Longrightarrow> rows_ok (snd (deleteFile E f d))"
  by (simp_all add: deleteFile_def run_write_healthy [OF assms(1,2)] maps_of_tables maps_mark c_str_plain assms(3)
      del: sql_effect.simps) (auto simp: rows_ok_def)

subsection \<open>The catalogue after an update of the state\<close>

lemma components_inj: "components s = components t \<Longrightarrow> s = t"
proof (induction s arbitrary: t)
  case Nil
  then show ?case
    using components_nonempty by (cases t) (auto simp: eq_commute [of "[]"] split: if_splits list.splits)
next
  case (Cons c s)
  obtain w ws where s: "components s = w # ws" by (cases "components s") auto
  show ?case
  proof (cases t)
    case Nil
    then show ?thesis using Cons.prems s by (auto split: if_splits)
  next
    case t: (Cons c' t')
    obtain w' ws' where t': "components t' = w' # ws'" by (cases "components t'") auto
    have "c = c' \<and> components s = components t'"
      using Cons.prems s t' by (auto simp: t split: if_splits)
    then show ?thesis using Cons.IH t by blast
  qed
qed

lemma client_place_inj: "client_place R i f = client_place R i' f' \<longleftrightarrow> i = i' \<and> f = f'"
  using components_inj by (auto simp: client_place_def)

lemma client_view_upd:
  "client_view env (st\<lparr>disk := fs, client_dbs := (client_dbs st)(i \<mapsto> d)\<rparr>) = (client_view env st)(i := d)"
proof
  fix i'
  have "client_db_path (st\<lparr>disk := fs, client_dbs := (client_dbs st)(i \<mapsto> d)\<rparr>) i' = client_db_path st i'"
    unfolding client_db_path_def by simp
  then show "client_view env (st\<lparr>disk := fs, client_dbs := (client_dbs st)(i \<mapsto> d)\<rparr>) i' = ((client_view env st)(i := d)) i'"
    by (cases "client_dbs st i'") (simp_all add: client_view_def)
qed

lemma catalogue_upd:
  "catalogue_of env (st\<lparr>disk := fs, client_dbs := (client_dbs st)(i \<mapsto> d)\<rparr>) =
    \<lparr>blobs = (\<lambda>k. files_of fs (chunk_place (root_path env st) k)),
     manifests = (manifests (catalogue_of env st))(i := rows_of d),
     records = (records (catalogue_of env st))(i := record_of d),
     contents = (\<lambda>i f. files_of fs (client_place (root_path env st) i f))\<rparr>"
  by (auto simp: catalogue_of_def chunk_get_def client_view_upd)

lemma catalogue_view: "manifests (catalogue_of env st) i = rows_of (client_view env st i)"
    "records (catalogue_of env st) i = record_of (client_view env st i)"
    "blobs (catalogue_of env st) = chunk_get (env, st)"
    "contents (catalogue_of env st) i f = files_of (disk st) (client_place (root_path env st) i f)"
  by (simp_all add: catalogue_of_def)

text \<open>Where nothing but directories was made and a database opened, the catalogue is as it was.\<close>

lemma catalogue_same:
  assumes "files_of fs = files_of (disk st)"
  shows "catalogue_of env (st\<lparr>disk := fs, client_dbs := (client_dbs st)(i \<mapsto> client_view env st i)\<rparr>) = catalogue_of env st"
    and "catalogue_of env (st\<lparr>disk := fs\<rparr>) = catalogue_of env st"
  unfolding catalogue_upd
  using assms by (auto simp: catalogue_of_def chunk_get_def fun_eq_iff)

lemma serving_upd:
  assumes "serving P env st" and "layout_ok (root_path env st) fs" and "db_open d" and "db_ok d" and "rows_ok d"
    and "\<And>i f. plain_name i \<Longrightarrow> f \<in> P \<Longrightarrow> file_place_ok (root_path env st) i f fs"
  shows "serving P env (st\<lparr>disk := fs, client_dbs := (client_dbs st)(i \<mapsto> d)\<rparr>)"
proof -
  have ok: "server_ok env st" using assms(1) by (simp add: serving_def)
  show ?thesis
    using server_ok_upd [OF ok assms(2-4), of i] assms(1,5,6) by (simp add: serving_def client_view_upd)
qed

lemma serving_disk:
  assumes "serving P env st" and "layout_ok (root_path env st) fs"
    and "\<And>i f. plain_name i \<Longrightarrow> f \<in> P \<Longrightarrow> file_place_ok (root_path env st) i f fs"
  shows "serving P env (st\<lparr>disk := fs\<rparr>)"
  using assms by (simp add: serving_def server_ok_def)


subsection \<open>Every call is simulated\<close>

definition simulated :: "string set \<Rightarrow> 'c env \<Rightarrow> storage \<Rightarrow> call \<Rightarrow> bool" where
  "simulated P env st c \<longleftrightarrow> (\<exists>r st'. run_call env c st = (Inr r, st') \<and> cat_answers (catalogue_of env st) c r \<and>
     catalogue_of env st' = cat_next env c (catalogue_of env st) \<and> serving P env st' \<and>
     root_path env st' = root_path env st)"

lemma servingD:
  assumes "serving P env st"
  shows "server_ok env st" "rows_ok (client_view env st i)" "db_open (client_view env st i)" "db_ok (client_view env st i)"
    "plain_name i \<Longrightarrow> f \<in> P \<Longrightarrow> file_place_ok (root_path env st) i f (disk st)"
  using assms client_view_ok [of env st i] by (simp_all add: serving_def)

lemma goodD:
  assumes "good_paths P" and "f \<in> P"
  shows "safe_path f" "CHR 0x00 \<notin> set f"
  using assms by (auto simp: good_paths_def)

text \<open>The connection of a client is opened, and nothing else happens.\<close>

lemma serving_getClientDB:
  assumes "serving P env st" and "plain_name i"
  shows "\<exists>st'. getClientDB env i st = (Inr (Some (client_view env st i)), st') \<and> serving P env st' \<and>
    catalogue_of env st' = catalogue_of env st \<and> client_view env st' i = client_view env st i \<and>
    client_dbs st' i = Some (client_view env st i) \<and> root_path env st' = root_path env st"
proof -
  note ok = servingD [OF assms(1)]
  obtain fs' where fs': "getClientDB env i st = (Inr (Some (client_view env st i)),
      st\<lparr>disk := fs', client_dbs := (client_dbs st)(i \<mapsto> client_view env st i)\<rparr>)"
    "files_of fs' = files_of (disk st)" "short_dirs (root_path env st) (disk st) fs'"
    "layout_ok (root_path env st) fs'"
    using getClientDB_healthy [OF ok(1) assms(2)] by blast
  have "serving P env (st\<lparr>disk := fs', client_dbs := (client_dbs st)(i \<mapsto> client_view env st i)\<rparr>)"
  proof (rule serving_upd [OF assms(1) fs'(4) ok(3,4,2)])
    show "file_place_ok (root_path env st) i' f' fs'" if "plain_name i'" "f' \<in> P" for i' f'
      by (rule file_place_frame [OF ok(5) [OF that] fs'(3)]) (simp add: fs'(2))
  qed
  then show ?thesis
    using fs' catalogue_same(1) [OF fs'(2)] by auto
qed

lemma simulated_Store:
  assumes "serving P env st" and "good_paths P" and "good_call P (Store_Chunk i f j data k)"
  shows "simulated P env st (Store_Chunk i f j data k)"
proof -
  let ?R = "root_path env st" and ?E = "env_engine env" and ?d = "client_view env st i"
  have c: "plain_name i" "f \<in> P" "chunk_name k" "CHR 0x00 \<notin> set k" using assms(3) by simp_all
  note ok = servingD [OF assms(1)]
  define d where "d = snd (insertChunk ?E f j k 0 (to_int32 (int (length data))) ?d)"
  obtain fs' where fs': "storeChunk env i f j data k st =
      (Inr True, st\<lparr>disk := fs', client_dbs := (client_dbs st)(i \<mapsto> d)\<rparr>)"
    "files_of fs' = files_of (disk (snd (write_chunk_file env k data st)))" "short_dirs ?R (disk st) fs'" "layout_ok ?R fs'"
    using storeChunk_healthy [OF ok(1) c(1,3)] unfolding d_def by blast
  have files: "files_of fs' = (if files_of (disk st) (chunk_place ?R k) = None
      then (files_of (disk st))(chunk_place ?R k \<mapsto> data) else files_of (disk st))"
    using write_chunk_file_healthy [OF server_okD(1,3) [OF ok(1)] c(3) server_okD(4) [OF ok(1)], of data] fs'(2) by auto
  note maps = insertChunk_maps [where j = j and sz = "to_int32 (int (length data))",
    OF server_okD(2) [OF ok(1)] ok(3) [of i] goodD(2) [OF assms(2) c(2)] c(4), folded d_def]
  have frame: "\<forall>q. (\<forall>k. q \<noteq> chunk_place ?R k) \<longrightarrow> files_of fs' q = files_of (disk st) q" by (simp add: files)
  have "serving P env (st\<lparr>disk := fs', client_dbs := (client_dbs st)(i \<mapsto> d)\<rparr>)"
  proof (rule serving_upd [OF assms(1) fs'(4)])
    show "db_open d" "db_ok d" unfolding d_def by (simp_all add: ok insertChunk_ok)
    show "rows_ok d" using maps(3) c(3) ok(2) by simp
    show "file_place_ok ?R i' f' fs'" if "plain_name i'" "f' \<in> P" for i' f'
      using file_place_frame [OF ok(5) [OF that] fs'(3) frame] .
  qed
  moreover have "catalogue_of env (st\<lparr>disk := fs', client_dbs := (client_dbs st)(i \<mapsto> d)\<rparr>) =
      cat_next env (Store_Chunk i f j data k) (catalogue_of env st)"
    unfolding catalogue_upd
    by (auto simp: files maps(1,2) catalogue_of_def chunk_get_def chunk_place_inj client_place_not_chunk put_at_def fun_eq_iff)
  ultimately show ?thesis
    by (simp add: simulated_def seq_def fs'(1) ret_def)
qed

lemma simulated_reads:
  assumes "serving P env st" and "good_paths P" and "libraries_ok env"
  shows "good_call P (Get_Record i f) \<Longrightarrow> simulated P env st (Get_Record i f)"
    and "good_call P (List_Files i) \<Longrightarrow> simulated P env st (List_Files i)"
proof -
  let ?E = "env_engine env"
  note ok = servingD [OF assms(1)]
  note engine = server_okD(2) [OF ok(1)]
  show "simulated P env st (Get_Record i f)" if "good_call P (Get_Record i f)"
  proof -
    have c: "plain_name i" "f \<in> P" using that by simp_all
    show ?thesis
      using serving_getClientDB [OF assms(1) c(1)] getFile_record_of [OF engine ok(3) goodD(2) [OF assms(2) c(2)]]
      by (auto simp: simulated_def getFileMetadata_def seq_def ret_def catalogue_view)
  qed
  show "simulated P env st (List_Files i)" if "good_call P (List_Files i)"
  proof -
    have c: "plain_name i" using that by simp
    have scan: "scan_documented ?E" using assms(3) by (simp add: libraries_ok_def)
    show ?thesis
      using serving_getClientDB [OF assms(1) c] getAllFiles_records [OF engine scan ok(3,4,2)]
        getAllFiles_distinct [OF engine scan ok(3,4)]
      by (auto simp: simulated_def listFiles_def seq_def ret_def catalogue_view)
  qed
qed

text \<open>Assembling one file leaves the places of all others, and its own, free of directories.\<close>

lemma prefix_of_place:
  assumes "client_place R i' f' = take n (R @ [''clients'', i] @ butlast (components f))"
  shows "i' = i \<and> (\<exists>l < length (components f). components f' = take l (components f))"
proof -
  define m where "m = n - (length R + 2)"
  have len: "length R + 2 < length (client_place R i' f')" by (rule client_place_deep)
  also have "length (client_place R i' f') \<le> n" unfolding assms by simp
  finally have n: "n = length (R @ [''clients'', i]) + m" by (simp add: m_def)
  have "R @ [''clients'', i'] @ components f' = (R @ [''clients'', i]) @ take m (butlast (components f))"
    using assms unfolding client_place_def n by simp
  then have eq: "i' = i" "components f' = take m (butlast (components f))" by simp_all
  define l where "l = min m (length (components f) - 1)"
  have "0 < length (components f)" by simp
  then have "l < length (components f)" unfolding l_def by linarith
  moreover have "take m (butlast (components f)) = take l (components f)"
    by (simp add: l_def butlast_conv_take min.commute)
  ultimately show ?thesis using eq by auto
qed

lemma file_place_final:
  assumes "good_paths P" and "f \<in> P" and "f' \<in> P" and "file_place_ok R i' f' fs" and "file_dirs R i f fs fs'"
    and "files_of fs' = (files_of fs)(client_place R i f \<mapsto> c)"
  shows "file_place_ok R i' f' fs'"
proof -
  have free: "take n (components g) \<noteq> components h" if "g \<in> P" "h \<in> P" "n < length (components g)" for g h n
    using assms(1) that by (simp add: good_paths_def)
  have "files_of fs' (R @ [''clients'', i'] @ take n (components f')) = None" if "n < length (components f')" for n
    using assms(4) that free [OF assms(3,2) that] by (simp add: assms(6) file_place_ok_def client_place_def)
  moreover have "fs' (client_place R i' f') \<noteq> Some Directory"
  proof
    assume "fs' (client_place R i' f') = Some Directory"
    moreover have "fs (client_place R i' f') \<noteq> Some Directory" using assms(4) by (simp add: file_place_ok_def)
    moreover have "\<not> length (client_place R i' f') \<le> length R + 2" using client_place_deep [of R i' f'] by simp
    ultimately obtain n where "client_place R i' f' = take n (R @ [''clients'', i] @ butlast (components f))"
      using assms(5) unfolding file_dirs_def by blast
    from prefix_of_place [OF this] show False using free [OF assms(2,3)] by metis
  qed
  ultimately show ?thesis by (simp add: file_place_ok_def)
qed

lemma usable_blobs: "usable (env, st) = has_bytes (blobs (catalogue_of env st))"
    "chunk_data_of (env, st) = bytes_of (blobs (catalogue_of env st))"
  by (simp_all add: fun_eq_iff usable_def has_bytes_def chunk_data_of_def bytes_of_def catalogue_view)

lemma listed_names:
  assumes "rows_ok d" and "k \<in> set (listed (rows_of d f))" and "distinct (map chunk_key (chunks_table (tables d)))"
  shows "chunk_name k"
proof -
  from assms(2) obtain w where "w \<in> set (chunks_table (tables d))" "k = cr_hash w"
    unfolding hashes_listed [OF assms(3) refl, symmetric] by auto
  then show ?thesis using assms(1) by (simp add: rows_ok_def)
qed

lemma catalogue_finalized:
  fixes env :: "'c env"
  assumes "files_of fs' = (files_of (disk st))(client_place (root_path env st) i f \<mapsto> bs)"
    and "rows_of d = rows_of (client_view env st i)"
    and "record_of d = (if whole then (record_of (client_view env st i))(f \<mapsto> r) else record_of (client_view env st i))"
  shows "catalogue_of env (st\<lparr>disk := fs', client_dbs := (client_dbs st)(i \<mapsto> d)\<rparr>) =
    (catalogue_of env st)\<lparr>contents := put_at (contents (catalogue_of env st)) i f (Some bs),
      records := (if whole then put_at (records (catalogue_of env st)) i f (Some r) else records (catalogue_of env st))\<rparr>"
proof -
  let ?R = "root_path env st" and ?a = "catalogue_of env st"
  have blobs: "(\<lambda>k. files_of fs' (chunk_place ?R k)) = blobs ?a"
    using client_place_not_chunk [of ?R i f, symmetric] by (simp add: assms(1) catalogue_of_def chunk_get_def)
  have contents: "(\<lambda>i f. files_of fs' (client_place ?R i f)) = put_at (contents ?a) i f (Some bs)"
    by (intro ext) (simp add: assms(1) catalogue_of_def client_place_inj put_at_apply)
  have rows: "(manifests ?a)(i := rows_of d) = manifests ?a"
    by (simp add: assms(2) catalogue_of_def fun_upd_idem)
  have recs: "(records ?a)(i := record_of d) = (if whole then put_at (records ?a) i f (Some r) else records ?a)"
    by (simp add: assms(3) catalogue_view put_at_def fun_upd_idem)
  show ?thesis unfolding catalogue_upd blobs contents rows recs by simp
qed

lemma simulated_Finalize:
  assumes "serving P env st" and "good_paths P" and "libraries_ok env" and "good_call P (Finalize now junk i f n)"
  shows "simulated P env st (Finalize now junk i f n)"
proof -
  let ?R = "root_path env st" and ?E = "env_engine env" and ?d = "client_view env st i" and ?a = "catalogue_of env st"
  have c: "plain_name i" "f \<in> P" using assms(4) by simp_all
  note ok = servingD [OF assms(1)] and engine = server_okD(2) [OF servingD(1) [OF assms(1)]]
  have sha: "sha_documented (env_sha env)" using assms(3) by (simp add: libraries_ok_def)
  define ks where "ks = listed (rows_of ?d f)"
  define bs where "bs = assembled (blobs ?a) ks"
  define whole where "whole \<longleftrightarrow> (\<forall>k \<in> set ks. has_bytes (blobs ?a) k)"
  have ks: "getFileChunks ?E f ?d = ks"
    unfolding ks_def by (rule getFileChunks_listed [OF engine ok(3,4) goodD(2) [OF assms(2) c(2)]])
  show ?thesis
  proof (cases "length ks = to_size_t n")
    case False
    then show ?thesis
      using serving_getClientDB [OF assms(1) c(1)]
      by (auto simp: simulated_def finalizeFile_def seq_def ret_def ks catalogue_view ks_def [symmetric])
  next
    case True
    have "distinct (map chunk_key (chunks_table (tables ?d)))"
      using ok(4) by (simp add: db_ok_def keys_unique_def)
    then have names: "\<forall>k \<in> set ks. chunk_name k"
      using listed_names [OF ok(2)] unfolding ks_def by blast
    define d where "d = (if whole then snd (insertOrUpdateFile ?E (final_record env now junk f bs) ?d) else ?d)"
    obtain fs' where fs': "finalizeFile env now junk i f n st =
        (Inr whole, st\<lparr>disk := fs', client_dbs := (client_dbs st)(i \<mapsto> d)\<rparr>)"
      "files_of fs' = (files_of (disk st))(client_place ?R i f \<mapsto> bs)" "layout_ok ?R fs'"
      "file_dirs ?R i f (disk st) fs'"
      using finalizeFile_run [OF ok(1) sha c(1) goodD(1) [OF assms(2) c(2)] ok(5) [OF c] ks names
          True [symmetric], of whole bs now junk]
      unfolding usable_blobs by (auto simp: whole_def bs_def assembled_def d_def)
    note maps = insertFile_maps [OF engine ok(3) [of i] final_record_storable [where env = env and now = now and junk = junk
      and bs = bs, OF goodD(2) [OF assms(2) c(2)]]]
    have "serving P env (st\<lparr>disk := fs', client_dbs := (client_dbs st)(i \<mapsto> d)\<rparr>)"
    proof (rule serving_upd [OF assms(1) fs'(3)])
      show "db_open d" "db_ok d"
        unfolding d_def using ok by (simp_all add: insertOrUpdateFile_def run_write_frame run_write_ok)
      show "rows_ok d" unfolding d_def using maps(3) [OF ok(2)] ok(2) by simp
      show "file_place_ok ?R i' f' fs'" if "plain_name i'" "f' \<in> P" for i' f'
        by (rule file_place_final [OF assms(2) c(2) that(2) ok(5) [OF that] fs'(4,2)])
    qed
    moreover have "fr_path (final_record env now junk f bs) = f" by (simp add: final_record_def)
    then have recs: "record_of d = (if whole then (record_of ?d)(f \<mapsto> final_record env now junk f bs) else record_of ?d)"
      and rows: "rows_of d = rows_of ?d" by (simp_all add: d_def maps(1,2))
    have "catalogue_of env (st\<lparr>disk := fs', client_dbs := (client_dbs st)(i \<mapsto> d)\<rparr>) =
        cat_next env (Finalize now junk i f n) ?a"
      unfolding catalogue_finalized [OF fs'(2) rows recs]
      using True by (simp add: Let_def catalogue_view(1) ks_def [symmetric] bs_def [symmetric] whole_def [symmetric] cong: if_cong)
    moreover have "whole = (length (listed (manifests ?a i f)) = to_size_t n \<and>
        (\<forall>k \<in> set (listed (manifests ?a i f)). has_bytes (blobs ?a) k))"
      using True by (simp add: whole_def ks_def catalogue_view)
    ultimately show ?thesis
      by (simp add: simulated_def seq_def fs'(1) ret_def)
  qed
qed

lemma simulated_Delete:
  assumes "serving P env st" and "good_paths P" and "good_call P (Delete_File i f)"
  shows "simulated P env st (Delete_File i f)"
proof -
  let ?E = "env_engine env" and ?d = "client_view env st i"
  have c: "plain_name i" "f \<in> P" using assms(3) by simp_all
  note ok = servingD [OF assms(1)]
  define d where "d = snd (deleteFile ?E f ?d)"
  note maps = deleteFile_maps [OF server_okD(2) [OF ok(1)] ok(3) [of i] goodD(2) [OF assms(2) c(2)], folded d_def]
  have d: "db_open d" "db_ok d" "rows_ok d"
    using ok maps(4) unfolding d_def deleteFile_def by (simp_all add: run_write_frame run_write_ok)
  have del: "deleteFile ?E f ?d = (True, d)" using maps(1) unfolding d_def by (simp add: prod_eq_iff)
  obtain st1 where st1: "getClientDB env i st = (Inr (Some ?d), st1)" "serving P env st1"
    "catalogue_of env st1 = catalogue_of env st" "root_path env st1 = root_path env st"
    using serving_getClientDB [OF assms(1) c(1)] by blast
  define st2 where "st2 = st1\<lparr>disk := disk st1, client_dbs := (client_dbs st1)(i \<mapsto> d)\<rparr>"
  have run: "deleteStoredFile env i f st = (Inr True, st2)"
    by (simp add: deleteStoredFile_def seq_def st1(1) del put_client_db_def ret_def st2_def)
  have "serving P env st2"
    unfolding st2_def
    by (rule serving_upd [OF st1(2) server_okD(4) [OF servingD(1) [OF st1(2)]] d servingD(5) [OF st1(2)]])
  moreover have "catalogue_of env st2 = cat_next env (Delete_File i f) (catalogue_of env st)"
    unfolding st2_def catalogue_upd st1(3)
    using st1(3) [symmetric]
    by (simp add: maps(2,3) put_at_def catalogue_view fun_upd_idem)
      (simp add: catalogue_of_def chunk_get_def fun_eq_iff st1(4))
  ultimately show ?thesis
    using st1(4) by (simp add: simulated_def seq_def run ret_def st2_def)
qed

lemma simulated_chunk_reads:
  assumes "serving P env st"
  shows "good_call P (Get_Chunk k) \<Longrightarrow> simulated P env st (Get_Chunk k)"
    and "good_call P (Has_Chunk k) \<Longrightarrow> simulated P env st (Has_Chunk k)"
proof -
  let ?R = "root_path env st"
  note ok = servingD [OF assms] and h = server_okD [OF servingD(1) [OF assms]]
  have serve: "serving P env (st\<lparr>disk := fs'\<rparr>)" "catalogue_of env (st\<lparr>disk := fs'\<rparr>) = catalogue_of env st"
    if fs': "files_of fs' = files_of (disk st)" "adds_dirs (disk st) fs' (?R @ [''chunks'', w])" "layout_ok ?R fs'" for fs' w
  proof -
    show "serving P env (st\<lparr>disk := fs'\<rparr>)"
      using assms fs'(3)
    proof (rule serving_disk)
      show "file_place_ok ?R i f fs'" if "plain_name i" "f \<in> P" for i f
        by (rule file_place_frame [OF ok(5) [OF that] adds_dirs_short [OF fs'(2)]]) (simp add: fs'(1))
    qed
    show "catalogue_of env (st\<lparr>disk := fs'\<rparr>) = catalogue_of env st" by (rule catalogue_same(2) [OF fs'(1)])
  qed
  show "simulated P env st (Get_Chunk k)" if "good_call P (Get_Chunk k)"
  proof -
    have k: "chunk_name k" using that by simp
    obtain fs' where fs': "getChunk env k st = (Inr (bytes_of (blobs (catalogue_of env st)) k), st\<lparr>disk := fs'\<rparr>)"
      "files_of fs' = files_of (disk st)" "adds_dirs (disk st) fs' (?R @ [''chunks'', take 2 k])" "layout_ok ?R fs'"
      using getChunk_healthy [OF h(1,3) k h(4)]
      unfolding catalogue_view bytes_of_def chunk_get_def prod.case by blast
    then show ?thesis using serve [OF fs'(2-4)] by (simp add: simulated_def seq_def ret_def)
  qed
  show "simulated P env st (Has_Chunk k)" if "good_call P (Has_Chunk k)"
  proof -
    have k: "chunk_name k" using that by simp
    obtain fs' p where fs': "getChunkPath env k st = (Inr p, st\<lparr>disk := fs'\<rparr>)"
      "files_of fs' = files_of (disk st)" "adds_dirs (disk st) fs' (?R @ [''chunks'', take 2 k])" "layout_ok ?R fs'"
      using getChunkPath_healthy [OF h(1,3) k h(4)] by blast
    have run: "hasStoredChunk env k st = (Inr (blobs (catalogue_of env st) k \<noteq> None), st\<lparr>disk := fs'\<rparr>)"
      using hasStoredChunk_view [OF h(5) k] by (simp add: hasStoredChunk_def seq_def fs'(1) catalogue_view)
    then show ?thesis using serve [OF fs'(2-4)] by (simp add: simulated_def seq_def ret_def)
  qed
qed

lemma call_simulated:
  assumes "serving P env st" and "good_paths P" and "libraries_ok env" and "good_call P c"
  shows "simulated P env st c"
proof (cases c)
  case Store_Chunk
  then show ?thesis using simulated_Store [OF assms(1,2)] assms(4) by simp
next
  case Finalize
  then show ?thesis using simulated_Finalize [OF assms(1-3)] assms(4) by simp
next
  case Delete_File
  then show ?thesis using simulated_Delete [OF assms(1,2)] assms(4) by simp
next
  case Get_Record
  then show ?thesis using simulated_reads(1) [OF assms(1-3)] assms(4) by simp
next
  case List_Files
  then show ?thesis using simulated_reads(2) [OF assms(1-3)] assms(4) by simp
next
  case Get_Chunk
  then show ?thesis using simulated_chunk_reads(1) [OF assms(1)] assms(4) by simp
next
  case Has_Chunk
  then show ?thesis using simulated_chunk_reads(2) [OF assms(1)] assms(4) by simp
qed

subsection \<open>Every sequence of calls is simulated\<close>

lemma run_calls_simulated:
  assumes "good_paths P" and "libraries_ok env"
  shows "serving P env st \<Longrightarrow> \<forall>c \<in> set cs. good_call P c \<Longrightarrow>
    \<exists>rs st'. run_calls env cs st = (Inr rs, st') \<and> cat_replies env (catalogue_of env st) cs rs \<and>
      catalogue_of env st' = cat_run env cs (catalogue_of env st) \<and> serving P env st' \<and>
      root_path env st' = root_path env st"
proof (induction cs arbitrary: st)
  case Nil
  then show ?case by (simp add: ret_def)
next
  case (Cons c cs)
  have c: "simulated P env st c"
    using call_simulated [OF Cons.prems(1) assms, of c] Cons.prems(2) by simp
  then obtain r st1 where st1: "run_call env c st = (Inr r, st1)" "cat_answers (catalogue_of env st) c r"
    "catalogue_of env st1 = cat_next env c (catalogue_of env st)" "serving P env st1" "root_path env st1 = root_path env st"
    unfolding simulated_def by blast
  obtain rs st' where "run_calls env cs st1 = (Inr rs, st')" "cat_replies env (catalogue_of env st1) cs rs"
    "catalogue_of env st' = cat_run env cs (catalogue_of env st1)" "serving P env st'" "root_path env st' = root_path env st1"
    using Cons.IH [OF st1(4)] Cons.prems(2) by auto
  with st1 show ?case by (auto simp: seq_def ret_def)
qed


lemma libraries_plain: "libraries_ok plain_env"
  by (simp add: libraries_ok_def toy_sha_documented plain_engine_scan)

lemma fresh_rows: "rows_ok (client_view plain_env fresh_server i)"
  by (simp add: rows_ok_def fresh_view MetadataDB_def empty_database_def)

lemma fresh_serving: "serving P plain_env fresh_server"
  by (simp add: serving_def fresh_server_ok fresh_rows fresh_place)

text \<open>Paths of one part each.\<close>

lemma good_paths_plain: "(\<And>f. f \<in> P \<Longrightarrow> plain_name f \<and> CHR 0x00 \<notin> set f \<and> f \<notin> database_files) \<Longrightarrow> good_paths P"
  by (auto simp: good_paths_def components_plain plain_name_def intro: plain_safe)


end
