(* ===== verification/Concurrent_Uploads.thy ===== *)
theory Concurrent_Uploads
  imports File_Catalogue
begin

text \<open>
  Handlers that run at the same time. A handler of the service is a sequence of calls of the storage manager;
  what the threads of the server do together is some order of the calls of all of them. The theorems
  hold of every such order: they are proved on the catalogue and carried to the code by the simulation.
\<close>

subsection \<open>The calls of a handler\<close>

definition store_call :: "string \<Rightarrow> string \<Rightarrow> upload_request \<Rightarrow> call" where
  "store_call i f r = Store_Chunk i f (cm_index (up_chunk r)) (cm_data (up_chunk r)) (cm_hash (up_chunk r))"

definition upload_calls :: "int \<Rightarrow> int \<Rightarrow> upload_request list \<Rightarrow> call list" where
  "upload_calls now junk rs =
     map (store_call (up_client_id (hd rs)) (up_file_path (hd rs))) rs @
     [Finalize now junk (up_client_id (hd rs)) (up_file_path (hd rs)) (up_total_chunks (hd rs))]"

lemma run_calls_append:
  "run_calls env (cs @ ds) st = seq (run_calls env cs) (\<lambda>rs. seq (run_calls env ds) (\<lambda>rs'. ret (rs @ rs'))) st"
  by (induction cs arbitrary: st) (simp_all add: seq_def ret_def split: sum.split prod.split)

lemma store_calls_stored:
  "run_calls env (map (store_call i f) rs) st = (Inr (replicate (length rs) (Answer_Bool True)), st') \<Longrightarrow>
    store_chunks env i f (map request_chunk rs) st = (Inr True, st')"
proof (induction rs arbitrary: st)
  case Nil
  then show ?case by (simp add: ret_def)
next
  case (Cons r rs)
  then show ?case
    by (auto simp: store_call_def request_chunk_def seq_def ret_def split: sum.splits prod.splits)
qed

lemma cat_replies_append:
  "cat_replies env a (cs @ ds) rs \<longleftrightarrow>
    (\<exists>us vs. rs = us @ vs \<and> cat_replies env a cs us \<and> cat_replies env (cat_run env cs a) ds vs)"
proof (induction cs arbitrary: a rs)
  case Nil
  then show ?case by simp
next
  case (Cons c cs)
  show ?case
    unfolding append_Cons cat_replies.simps Cons.IH by (auto simp: append_eq_Cons_conv) (metis append_Cons)+
qed

lemma cat_run_append: "cat_run env (cs @ ds) a = cat_run env ds (cat_run env cs a)"
  by (induction cs arbitrary: a) simp_all

lemma cat_replies_length: "cat_replies env a cs rs \<Longrightarrow> length rs = length cs"
  by (induction cs arbitrary: a rs) auto

lemma store_replies:
  "cat_replies env a (map (store_call i f) rs) us \<Longrightarrow> us = replicate (length rs) (Answer_Bool True)"
  by (induction rs arbitrary: a us) (auto simp: store_call_def)

lemma upload_as_calls:
  assumes "serving P env st" and "good_paths P" and "libraries_ok env" and "rs \<noteq> []"
    and "\<forall>c \<in> set (upload_calls now junk rs). good_call P c"
  shows "\<exists>b st'. run_calls env (upload_calls now junk rs) st =
      (Inr (replicate (length rs) (Answer_Bool True) @ [Answer_Bool b]), st') \<and>
    UploadFile env now junk rs st = (Inr (Status_OK,
      if b then \<lparr>ur_success = True, ur_message = [], ur_chunks_received = int (length rs)\<rparr>
      else \<lparr>ur_success = False, ur_message = ''Failed to finalize file'', ur_chunks_received = 0\<rparr>), st')"
proof -
  let ?i = "up_client_id (hd rs)" and ?f = "up_file_path (hd rs)" and ?n = "up_total_chunks (hd rs)"
  have good: "\<forall>c \<in> set (map (store_call ?i ?f) rs). good_call P c" "good_call P (Finalize now junk ?i ?f ?n)"
    using assms(5) by (auto simp: upload_calls_def)
  obtain us st1 where st1: "run_calls env (map (store_call ?i ?f) rs) st = (Inr us, st1)"
    "cat_replies env (catalogue_of env st) (map (store_call ?i ?f) rs) us" "serving P env st1"
    using run_calls_simulated [OF assms(2,3,1) good(1)] by blast
  note us = store_replies [OF st1(2)]
  obtain b st' where fin: "finalizeFile env now junk ?i ?f ?n st1 = (Inr b, st')"
  proof -
    obtain r st2 where "run_call env (Finalize now junk ?i ?f ?n) st1 = (Inr r, st2)"
      using call_simulated [OF st1(3) assms(2,3) good(2)] unfolding simulated_def by blast
    then show ?thesis using that by (auto simp: seq_def ret_def split: sum.splits prod.splits)
  qed
  have "?i \<noteq> []" using good(2) by (auto simp: plain_name_def)
  from UploadFile_finalizes [OF assms(4) refl refl refl this store_calls_stored [OF st1(1) [unfolded us]], of now junk]
  have "UploadFile env now junk rs st = (Inr (Status_OK,
      if b then \<lparr>ur_success = True, ur_message = [], ur_chunks_received = int (length rs)\<rparr>
      else \<lparr>ur_success = False, ur_message = ''Failed to finalize file'', ur_chunks_received = 0\<rparr>), st')"
    by (simp add: seq_def fin ret_def)
  moreover have "run_calls env (upload_calls now junk rs) st =
      (Inr (replicate (length rs) (Answer_Bool True) @ [Answer_Bool b]), st')"
    unfolding upload_calls_def run_calls_append by (simp add: seq_def st1(1) us fin ret_def)
  ultimately show ?thesis by blast
qed

text \<open>C8: 
  An upload is the sequence of its calls: the handler leaves the server in the state they lead to, and its answer
  is success exactly if the last of them answers true.
\<close>

theorem upload_is_its_calls:
  assumes "serving P env st" and "good_paths P" and "libraries_ok env" and "rs \<noteq> []"
    and "\<forall>c \<in> set (upload_calls now junk rs). good_call P c"
  shows "\<exists>b st'. run_calls env (upload_calls now junk rs) st =
      (Inr (replicate (length rs) (Answer_Bool True) @ [Answer_Bool b]), st') \<and>
    UploadFile env now junk rs st = (Inr (Status_OK,
      if b then \<lparr>ur_success = True, ur_message = [], ur_chunks_received = int (length rs)\<rparr>
      else \<lparr>ur_success = False, ur_message = ''Failed to finalize file'', ur_chunks_received = 0\<rparr>), st')"
  by (rule upload_as_calls [OF assms])

theorem upload_is_its_calls_witness:
  "\<exists>b st'. run_calls plain_env (upload_calls 9 0 [\<lparr>up_client_id = ''al'', up_file_path = ''f'',
      up_chunk = \<lparr>cm_index = 0, cm_offset = 0, cm_size = 1, cm_hash = ''beef'', cm_data = [5]\<rparr>, up_total_chunks = 2\<rparr>]) fresh_server =
      (Inr [Answer_Bool True, Answer_Bool b], st')"
  using upload_is_its_calls [OF fresh_serving [of "{''f''}"] good_paths_plain libraries_plain,
      of "[\<lparr>up_client_id = ''al'', up_file_path = ''f'',
        up_chunk = \<lparr>cm_index = 0, cm_offset = 0, cm_size = 1, cm_hash = ''beef'', cm_data = [5]\<rparr>, up_total_chunks = 2\<rparr>]" 9 0]
  by (auto simp: upload_calls_def store_call_def plain_name_def chunk_name_def database_files_def)

subsection \<open>What a call leaves alone\<close>

fun concerns :: "string \<Rightarrow> string \<Rightarrow> call \<Rightarrow> bool" where
  "concerns i f (Store_Chunk i' f' _ _ _) \<longleftrightarrow> i' = i \<and> f' = f"
| "concerns i f (Finalize _ _ i' f' _) \<longleftrightarrow> i' = i \<and> f' = f"
| "concerns i f (Delete_File i' f') \<longleftrightarrow> i' = i \<and> f' = f"
| "concerns i f _ \<longleftrightarrow> False"

definition entry :: "catalogue \<Rightarrow> string \<Rightarrow> string \<Rightarrow> (int \<Rightarrow> string option) \<times> file_record option \<times> bytes option" where
  "entry a i f = (manifests a i f, records a i f, contents a i f)"

lemma entry_next: "\<not> concerns i f c \<Longrightarrow> entry (cat_next env c a) i f = entry a i f"
  by (cases c) (auto simp: entry_def put_at_apply Let_def)

lemma entry_run: "filter (concerns i f) cs = [] \<Longrightarrow> entry (cat_run env cs a) i f = entry a i f"
  by (induction cs arbitrary: a) (auto simp: entry_next split: if_splits)

lemma blob_next: "blobs a k = Some bs \<Longrightarrow> blobs (cat_next env c a) k = Some bs"
  by (cases c) (auto simp: Let_def)

lemma blob_run: "blobs a k = Some bs \<Longrightarrow> blobs (cat_run env cs a) k = Some bs"
  by (induction cs arbitrary: a) (simp_all add: blob_next)

text \<open>A name that every call stores with the same bytes.\<close>

definition agreed :: "string \<Rightarrow> bytes \<Rightarrow> call list \<Rightarrow> bool" where
  "agreed k bs cs \<longleftrightarrow> (\<forall>i f j data. Store_Chunk i f j data k \<in> set cs \<longrightarrow> data = bs)"

lemma agreed_simps [simp]:
  "agreed k bs []"
  "agreed k bs (cs @ ds) \<longleftrightarrow> agreed k bs cs \<and> agreed k bs ds"
  "agreed k bs (c # cs) \<Longrightarrow> agreed k bs cs"
  by (auto simp: agreed_def)

lemma blob_next_agreed:
  assumes "agreed k bs (c # cs)" and "blobs a k \<in> {None, Some bs}"
  shows "blobs (cat_next env c a) k \<in> {None, Some bs}"
  using assms by (cases c) (auto simp: agreed_def Let_def)

lemma blob_agreed:
  "agreed k bs cs \<Longrightarrow> blobs a k \<in> {None, Some bs} \<Longrightarrow> Store_Chunk i f j data k \<in> set cs \<Longrightarrow>
   blobs (cat_run env cs a) k = Some bs"
proof (induction cs arbitrary: a)
  case Nil
  then show ?case by simp
next
  case (Cons c cs)
  show ?case
  proof (cases "c = Store_Chunk i f j data k")
    case True
    then have "data = bs" using Cons.prems(1) by (auto simp: agreed_def)
    then have "blobs (cat_next env c a) k = Some bs" using True Cons.prems(2) by auto
    then show ?thesis by (simp add: blob_run)
  next
    case False
    then show ?thesis
      using Cons.IH [OF _ blob_next_agreed [OF Cons.prems(1,2)]] Cons.prems(1,3) by auto
  qed
qed

subsection \<open>Stored bytes stay\<close>

lemma last_reply:
  assumes "serving P env st" and "good_paths P" and "libraries_ok env" and "\<forall>c \<in> set cs. good_call P c" and "good_call P c"
  shows "\<exists>rs r st'. run_calls env (cs @ [c]) st = (Inr (rs @ [r]), st') \<and>
    cat_answers (cat_run env cs (catalogue_of env st)) c r"
proof -
  have "\<forall>c \<in> set (cs @ [c]). good_call P c" using assms(4,5) by auto
  from run_calls_simulated [OF assms(2,3,1) this] show ?thesis
    by (fastforce simp: cat_replies_append)
qed

text \<open>
  Bytes once stored never change: whatever calls of whatever clients follow, reading the name gives the
  bytes that were first stored under it.
\<close>

theorem stored_bytes_never_change:
  assumes "serving P env st" and "good_paths P" and "libraries_ok env" and "chunk_name k"
    and "chunk_get (env, st) k = Some bs" and "\<forall>c \<in> set cs. good_call P c"
  shows "\<exists>rs st'. run_calls env (cs @ [Get_Chunk k]) st = (Inr (rs @ [Answer_Bytes bs]), st')"
proof -
  have "good_call P (Get_Chunk k)" using assms(4) by simp
  from last_reply [OF assms(1-3,6) this] obtain rs r st' where
    r: "run_calls env (cs @ [Get_Chunk k]) st = (Inr (rs @ [r]), st')"
      "cat_answers (cat_run env cs (catalogue_of env st)) (Get_Chunk k) r" by blast
  have "blobs (cat_run env cs (catalogue_of env st)) k = Some bs"
    by (rule blob_run) (simp add: catalogue_view assms(5))
  with r show ?thesis by (auto simp: bytes_of_def)
qed

theorem stored_bytes_never_change_witness:
  "\<exists>rs st'. run_calls plain_env ([Store_Chunk ''mal'' ''f'' 0 [6, 6] ''abcd'', Delete_File ''al'' ''f''] @ [Get_Chunk ''abcd''])
      (snd (run_call plain_env (Store_Chunk ''al'' ''f'' 0 [1, 2] ''abcd'') fresh_server)) = (Inr (rs @ [Answer_Bytes [1, 2]]), st')"
proof -
  let ?st = "snd (run_call plain_env (Store_Chunk ''al'' ''f'' 0 [1, 2] ''abcd'') fresh_server)"
  have good: "good_paths {''f''}" by (rule good_paths_plain) (simp add: plain_name_def database_files_def)
  have name: "chunk_name ''abcd''" by (simp add: plain_name_def chunk_name_def)
  have call: "good_call {''f''} (Store_Chunk ''al'' ''f'' 0 [1, 2] ''abcd'')" using name by (simp add: plain_name_def)
  have st: "serving {''f''} plain_env ?st" "chunk_get (plain_env, ?st) ''abcd'' = Some [1, 2]"
    using call_simulated [OF fresh_serving good libraries_plain call]
    by (auto simp: simulated_def catalogue_view(3) [symmetric]) (simp add: catalogue_view(3) fresh_chunk)
  show ?thesis
    by (rule stored_bytes_never_change [OF st(1) good libraries_plain name st(2)])
      (simp add: name, simp add: plain_name_def)
qed

subsection \<open>Uploads among other calls\<close>

lemma cat_run_filter:
  assumes "filter (concerns i f) cs = map (store_call i f) rs"
  shows "manifests (cat_run env cs a) i f =
    foldl (\<lambda>m r. m(cm_index (up_chunk r) \<mapsto> cm_hash (up_chunk r))) (manifests a i f) rs"
  using assms
proof (induction cs arbitrary: a rs)
  case Nil
  then show ?case by simp
next
  case (Cons c cs)
  show ?case
  proof (cases "concerns i f c")
    case False
    then have "manifests (cat_next env c a) i f = manifests a i f"
      using entry_next [OF False, of env a] by (simp add: entry_def)
    then show ?thesis using Cons False by simp
  next
    case True
    then obtain r rs' where rs: "rs = r # rs'" "c = store_call i f r" "filter (concerns i f) cs = map (store_call i f) rs'"
      using Cons.prems by (auto simp: map_eq_Cons_conv)
    have "manifests (cat_next env c a) i f = (manifests a i f)(cm_index (up_chunk r) \<mapsto> cm_hash (up_chunk r))"
      by (simp add: rs(2) store_call_def put_at_apply)
    then show ?thesis using Cons.IH [OF rs(3), of "cat_next env c a"] by (simp add: rs(1))
  qed
qed

lemma foldl_map_of:
  assumes "distinct (map key rs)"
  shows "foldl (\<lambda>m r. m(key r \<mapsto> val r)) m rs = m ++ map_of (map (\<lambda>r. (key r, val r)) rs)"
  using assms
proof (induction rs arbitrary: m)
  case Nil
  then show ?case by simp
next
  case (Cons r rs)
  have "map_of (map (\<lambda>r. (key r, val r)) rs) (key r) = None"
    using Cons.prems by (auto simp: map_of_eq_None_iff)
  then show ?case using Cons by (auto simp: fun_eq_iff map_add_def split: option.split)
qed

lemma listed_enumerated: "listed (map_of (map (\<lambda>(j, p). (int j, h p)) (enumerate 0 ps))) = map h ps"
proof -
  let ?xs = "map (\<lambda>(j, p). (int j, h p)) (enumerate 0 ps)"
  have keys: "map fst ?xs = map int [0..<length ps]"
    using map_enumerate(1) [of int 0 ps] by (simp add: comp_def case_prod_beta)
  have dist: "distinct (map fst ?xs)" unfolding keys by (rule distinct_ints)
  have "sorted_list_of_set (dom (map_of ?xs)) = map int [0..<length ps]"
    unfolding dom_map_of_conv_image_fst set_map [symmetric] keys
    by (rule sorted_list_of_set.idem_if_sorted_distinct [OF sorted_ints distinct_ints])
  moreover have "map_of ?xs (int j) = Some (h (ps ! j))" if "j < length ps" for j
  proof -
    have "(int j, h (ps ! j)) \<in> set ?xs" using that by (force simp: in_set_enumerate_eq)
    then show ?thesis using map_of_is_SomeI [OF dist] by blast
  qed
  ultimately show ?thesis by (auto simp: listed_def intro: nth_equalityI)
qed

text \<open>However the requests are ordered, the chunks are listed in the order of the file.\<close>

lemma upload_listed:
  assumes rs: "mset rs = mset (upload_requests api i f data)"
  shows "listed (foldl (\<lambda>m r. m(cm_index (up_chunk r) \<mapsto> cm_hash (up_chunk r))) Map.empty rs) =
    map (sha256 api) (cut_up content_cut [] data)"
proof -
  let ?ps = "cut_up content_cut [] data"
  let ?pair = "\<lambda>r. (cm_index (up_chunk r), cm_hash (up_chunk r))"
  let ?xs = "map (\<lambda>(j, p). (int j, sha256 api p)) (enumerate 0 ?ps)"
  have "map ?pair (upload_requests api i f data) = map (\<lambda>(j, p, k). (j, k)) (map request_chunk (upload_requests api i f data))"
    by (simp add: request_chunk_def)
  also have "\<dots> = ?xs" unfolding upload_requests_chunks piece_chunks_def by (simp add: case_prod_beta)
  finally have xs: "map ?pair (upload_requests api i f data) = ?xs" .
  have keys: "map (\<lambda>r. cm_index (up_chunk r)) (upload_requests api i f data) = map fst ?xs"
    unfolding xs [symmetric] by simp
  have fst: "map fst ?xs = map int [0..<length ?ps]"
    using map_enumerate(1) [of int 0 ?ps] by (simp add: comp_def case_prod_beta)
  have "mset (map (\<lambda>r. cm_index (up_chunk r)) rs) = mset (map fst ?xs)"
    unfolding keys [symmetric] using rs by simp
  then have dist: "distinct (map (\<lambda>r. cm_index (up_chunk r)) rs)"
    unfolding fst by (metis distinct_ints mset_eq_imp_distinct_iff)
  have "mset (map ?pair rs) = mset ?xs" unfolding xs [symmetric] using rs by simp
  then have "set (map ?pair rs) = set ?xs" by (rule mset_eq_setD)
  moreover have "distinct (map fst (map ?pair rs))" using dist by (simp add: comp_def)
  moreover have "distinct (map fst ?xs)" unfolding fst by (rule distinct_ints)
  ultimately have "map_of (map ?pair rs) = map_of ?xs" using map_of_inject_set by blast
  then show ?thesis
    unfolding foldl_map_of [OF dist] by (simp add: listed_enumerated)
qed

lemma filter_snoc:
  "filter Q cs = xs @ [y] \<Longrightarrow> \<exists>us vs. cs = us @ y # vs \<and> filter Q us = xs \<and> Q y \<and> filter Q vs = []"
proof (induction cs arbitrary: xs)
  case Nil
  then show ?case by simp
next
  case (Cons c cs)
  show ?case
  proof (cases "Q c \<and> xs = []")
    case True
    then show ?thesis using Cons.prems by (intro exI [of _ "[]"] exI [of _ cs]) auto
  next
    case False
    obtain xs' where xs: "filter Q cs = xs' @ [y]" "xs = (if Q c then c # xs' else xs')"
      using Cons.prems False by (cases xs) (auto split: if_splits)
    from Cons.IH [OF xs(1)] obtain us vs where "cs = us @ y # vs" "filter Q us = xs'" "Q y" "filter Q vs = []" by blast
    then show ?thesis using xs(2) by (intro exI [of _ "c # us"] exI [of _ vs]) auto
  qed
qed

lemma store_answers:
  "cat_replies env a cs rs \<Longrightarrow> (Store_Chunk i f j data k, r) \<in> set (zip cs rs) \<Longrightarrow> r = Answer_Bool True"
  by (induction cs arbitrary: a rs) auto

text \<open>Nobody sends, and nobody has sent, other bytes under the digest of a chunk of the file.\<close>

definition honest :: "'c env \<Rightarrow> storage \<Rightarrow> bytes \<Rightarrow> call list \<Rightarrow> bool" where
  "honest env st data cs \<longleftrightarrow> (\<forall>p \<in> set (cut_up content_cut [] data).
     agreed (sha256 (env_sha env) p) p cs \<and> chunk_get (env, st) (sha256 (env_sha env) p) \<in> {None, Some p})"

text \<open>At the time of its last call, all chunks of the upload are there.\<close>

lemma upload_assembled:
  fixes env :: "'c env"
  assumes "filter (concerns i f) cs = map (store_call i f) rs" and "mset rs = mset (upload_requests api i f data)"
    and "\<forall>p \<in> set (cut_up content_cut [] data). agreed (sha256 api p) p cs \<and> blobs a (sha256 api p) \<in> {None, Some p}"
    and "manifests a i f = Map.empty" and "data \<noteq> []"
  defines "a' \<equiv> cat_run env cs a"
  shows "listed (manifests a' i f) = map (sha256 api) (cut_up content_cut [] data)"
    and "\<forall>k \<in> set (listed (manifests a' i f)). has_bytes (blobs a') k"
    and "assembled (blobs a') (listed (manifests a' i f)) = data"
proof -
  let ?ps = "cut_up content_cut [] data"
  show ks: "listed (manifests a' i f) = map (sha256 api) ?ps"
    unfolding a'_def cat_run_filter [OF assms(1)] assms(4) by (rule upload_listed [OF assms(2)])
  have found: "blobs a' (sha256 api p) = Some p" if p: "p \<in> set ?ps" for p
  proof -
    obtain j where "(j, p, sha256 api p) \<in> set (piece_chunks api ?ps)" using piece_chunks_mem [OF p] by blast
    then have "(j, p, sha256 api p) \<in> request_chunk ` set rs"
      unfolding upload_requests_chunks [of api i f data, symmetric] using mset_eq_setD [OF assms(2)] by simp
    then obtain r where r: "r \<in> set rs" "request_chunk r = (j, p, sha256 api p)" by force
    have "store_call i f r \<in> set (filter (concerns i f) cs)" unfolding assms(1) using r(1) by simp
    then have "Store_Chunk i f j p (sha256 api p) \<in> set cs"
      using r(2) by (simp add: store_call_def request_chunk_def)
    then show ?thesis unfolding a'_def using assms(3) p by (intro blob_agreed) auto
  qed
  have ne: "p \<noteq> []" if "p \<in> set ?ps" for p using that content.cut_up_nonempty [of p "[]" data] by simp
  show all: "\<forall>k \<in> set (listed (manifests a' i f)). has_bytes (blobs a') k"
    unfolding ks using found ne by (auto simp: has_bytes_def)
  have "takeWhile (has_bytes (blobs a')) (map (sha256 api) ?ps) = map (sha256 api) ?ps"
    using all unfolding ks by (intro takeWhile_eq_all_conv [THEN iffD2]) blast
  moreover have "map (bytes_of (blobs a') \<circ> sha256 api) ?ps = ?ps"
    using found by (intro map_idI) (simp add: bytes_of_def)
  ultimately show "assembled (blobs a') (listed (manifests a' i f)) = data"
    using content.concat_cut_up [of data "[]"] assms(5) unfolding ks assembled_def by (simp only: map_map append_Nil) blast
qed

lemma upload_in_catalogue:
  assumes rs: "mset rs = mset (upload_requests (env_sha env) i f data)" "length rs < 2 ^ 31" "data \<noteq> []"
    and calls: "filter (concerns i f) cs = upload_calls now junk rs"
    and honest: "\<forall>p \<in> set (cut_up content_cut [] data).
      agreed (sha256 (env_sha env) p) p cs \<and> blobs a (sha256 (env_sha env) p) \<in> {None, Some p}"
    and none: "manifests a i f = Map.empty" and replies: "cat_replies env a cs replies"
  shows "records (cat_run env cs a) i f = Some (final_record env now junk f data)"
    and "contents (cat_run env cs a) i f = Some data"
    and "\<forall>(c, r) \<in> set (zip cs replies). concerns i f c \<longrightarrow> r = Answer_Bool True"
proof -
  have "cut_up content_cut [] data \<noteq> []" using content.concat_cut_up [of data "[]"] rs(3) by auto
  then have "upload_requests (env_sha env) i f data \<noteq> []"
    using length_upload_requests [of "env_sha env" i f data] by fastforce
  from hd_mem_mset [OF rs(1) this] have hd: "hd rs \<in> set (upload_requests (env_sha env) i f data)" by blast
  note fields = upload_requests_fields [OF hd]
  have len: "length rs = length (cut_up content_cut [] data)"
    using mset_eq_length [OF rs(1)] by (simp add: length_upload_requests)
  let ?fin = "Finalize now junk i f (int (length rs))"
  have "upload_calls now junk rs = map (store_call i f) rs @ [?fin]"
    unfolding upload_calls_def fields using mset_eq_length [OF rs(1)] by simp
  from filter_snoc [OF calls [unfolded this]] obtain us vs where
    cs: "cs = us @ ?fin # vs" "filter (concerns i f) us = map (store_call i f) rs" "filter (concerns i f) vs = []"
    by blast
  define a1 where "a1 = cat_run env us a"
  have "\<forall>p \<in> set (cut_up content_cut [] data).
      agreed (sha256 (env_sha env) p) p us \<and> blobs a (sha256 (env_sha env) p) \<in> {None, Some p}"
    using honest by (simp add: cs(1))
  note whole = upload_assembled [OF cs(2) rs(1) this none rs(3), of env, folded a1_def]
  have count: "length (listed (manifests a1 i f)) = to_size_t (int (length rs))"
    using rs(2) by (simp add: whole(1) len to_size_t_nat)
  define a2 where "a2 = cat_next env ?fin a1"
  have "records a2 i f = Some (final_record env now junk f data)" "contents a2 i f = Some data"
    using count whole(2,3) by (simp_all add: a2_def Let_def put_at_apply)
  moreover have run: "cat_run env cs a = cat_run env vs a2"
    by (simp add: cs(1) cat_run_append a1_def a2_def del: cat_next.simps)
  ultimately show "records (cat_run env cs a) i f = Some (final_record env now junk f data)"
    "contents (cat_run env cs a) i f = Some data"
    using entry_run [OF cs(3), of env a2] by (simp_all add: entry_def)
  obtain us' r vs' where r: "replies = us' @ r # vs'" "cat_replies env a us us'" "cat_answers a1 ?fin r"
    using replies unfolding cs(1) cat_replies_append by (auto simp: a1_def)
  have zip: "zip cs replies = zip us us' @ (?fin, r) # zip vs vs'"
    by (simp add: cs(1) r(1) cat_replies_length [OF r(2)])
  show "\<forall>(c, r) \<in> set (zip cs replies). concerns i f c \<longrightarrow> r = Answer_Bool True"
  proof (clarify)
    fix c x assume mem: "(c, x) \<in> set (zip cs replies)" and con: "concerns i f c"
    from mem consider "(c, x) \<in> set (zip us us')" | "x = r" | "c \<in> set vs"
      unfolding zip by (auto dest: set_zip_leftD)
    then show "x = Answer_Bool True"
    proof cases
      case 1
      then have "c \<in> set (filter (concerns i f) us)" using con by (auto dest: set_zip_leftD)
      then obtain q where "c = store_call i f q" unfolding cs(2) by auto
      then show ?thesis using store_answers [OF r(2)] 1 by (auto simp: store_call_def)
    next
      case 2
      then show ?thesis using r(3) count whole(2) by simp
    next
      case 3
      then show ?thesis using cs(3) con by (auto simp: filter_empty_conv)
    qed
  qed
qed


text \<open>Two clients upload the same two chunks at the same time, the second in reverse order, while the first file is read.\<close>

definition mixed_calls :: "call list" where
  "mixed_calls = (let al = upload_requests toy_sha ''al'' ''f'' two_chunks; bo = rev (upload_requests toy_sha ''bo'' ''f'' two_chunks)
     in [store_call ''al'' ''f'' (al ! 0), store_call ''bo'' ''f'' (bo ! 0), Get_Record ''al'' ''f'',
         store_call ''bo'' ''f'' (bo ! 1), Finalize 9 0 ''bo'' ''f'' 2, store_call ''al'' ''f'' (al ! 1),
         Finalize 9 0 ''al'' ''f'' 2])"

lemma two_requests: "\<exists>r s. upload_requests toy_sha i f two_chunks = [r, s] \<and>
    request_chunk r = (0, replicate 4096 0, sha256 toy_sha (replicate 4096 0)) \<and>
    request_chunk s = (1, [1, 2, 3], sha256 toy_sha [1, 2, 3])"
proof -
  obtain r s where rs: "upload_requests toy_sha i f two_chunks = [r, s]"
    using two_chunks_requests [of i f] by (auto simp: length_Suc_conv numeral_2_eq_2)
  have "map request_chunk [r, s] = piece_chunks toy_sha [replicate 4096 0, [1, 2, 3]]"
    unfolding rs [symmetric] upload_requests_chunks by (simp add: two_chunks_cut)
  with rs show ?thesis by (auto simp: piece_chunks_def)
qed


lemma mixed_calls_simps:
  "set mixed_calls = {Get_Record ''al'' ''f'', Finalize 9 0 ''al'' ''f'' 2, Finalize 9 0 ''bo'' ''f'' 2} \<union>
    (\<lambda>(i, j, p). Store_Chunk i ''f'' j p (sha256 toy_sha p)) `
      ({''al'', ''bo''} \<times> {(0, replicate 4096 0), (1, [1, 2, 3])})"
  "filter (concerns ''bo'' ''f'') mixed_calls = upload_calls 9 0 (rev (upload_requests toy_sha ''bo'' ''f'' two_chunks))"
proof -
  obtain r s where al: "upload_requests toy_sha ''al'' ''f'' two_chunks = [r, s]"
    "request_chunk r = (0, replicate 4096 0, sha256 toy_sha (replicate 4096 0))"
    "request_chunk s = (1, [1, 2, 3], sha256 toy_sha [1, 2, 3])" using two_requests by blast
  obtain u v where bo: "upload_requests toy_sha ''bo'' ''f'' two_chunks = [u, v]"
    "request_chunk u = (0, replicate 4096 0, sha256 toy_sha (replicate 4096 0))"
    "request_chunk v = (1, [1, 2, 3], sha256 toy_sha [1, 2, 3])" using two_requests by blast
  have store: "store_call i f q = Store_Chunk i f (fst (request_chunk q)) (fst (snd (request_chunk q))) (snd (snd (request_chunk q)))" for i f q
    by (simp add: store_call_def request_chunk_def)
  have calls: "mixed_calls = [store_call ''al'' ''f'' r, store_call ''bo'' ''f'' v, Get_Record ''al'' ''f'',
      store_call ''bo'' ''f'' u, Finalize 9 0 ''bo'' ''f'' 2, store_call ''al'' ''f'' s, Finalize 9 0 ''al'' ''f'' 2]"
    by (simp add: mixed_calls_def al(1) bo(1))
  show "set mixed_calls = {Get_Record ''al'' ''f'', Finalize 9 0 ''al'' ''f'' 2, Finalize 9 0 ''bo'' ''f'' 2} \<union>
    (\<lambda>(i, j, p). Store_Chunk i ''f'' j p (sha256 toy_sha p)) `
      ({''al'', ''bo''} \<times> {(0, replicate 4096 0), (1, [1, 2, 3])})"
    unfolding calls store al(2,3) bo(2,3) by (auto simp: image_iff)
  have "v \<in> set (upload_requests toy_sha ''bo'' ''f'' two_chunks)" by (simp add: bo(1))
  note fields = upload_requests_fields [OF this]
  show "filter (concerns ''bo'' ''f'') mixed_calls = upload_calls 9 0 (rev (upload_requests toy_sha ''bo'' ''f'' two_chunks))"
    unfolding calls bo(1) using fields by (simp add: upload_calls_def store two_chunks_requests)
qed

lemma no_zero_sha256: "CHR 0x00 \<notin> set (sha256 api bs)"
  using sha256_chars [of api bs] by auto


subsection \<open>Two uploads of the same file\<close>

definition piece_request :: "'c env \<Rightarrow> string \<Rightarrow> string \<Rightarrow> int \<Rightarrow> bytes \<Rightarrow> upload_request" where
  "piece_request env i f j p = \<lparr>up_client_id = i, up_file_path = f,
     up_chunk = \<lparr>cm_index = j, cm_offset = 0, cm_size = int (length p), cm_hash = sha256 (env_sha env) p, cm_data = p\<rparr>,
     up_total_chunks = 2\<rparr>"

definition pair_upload :: "'c env \<Rightarrow> int \<Rightarrow> int \<Rightarrow> string \<Rightarrow> string \<Rightarrow> bytes \<times> bytes \<Rightarrow> call list" where
  "pair_upload env now junk i f = (\<lambda>(p, q). upload_calls now junk [piece_request env i f 0 p, piece_request env i f 1 q])"

lemma pair_upload_simps:
  "pair_upload env now junk i f (p, q) = [Store_Chunk i f 0 p (sha256 (env_sha env) p),
     Store_Chunk i f 1 q (sha256 (env_sha env) q), Finalize now junk i f 2]"
  by (simp add: pair_upload_def upload_calls_def piece_request_def store_call_def)

lemma mixed_in_catalogue:
  assumes "manifests a i f = Map.empty" and "inj_on (sha256 (env_sha env)) {p0, p1, q0, q1}"
    and "\<forall>p \<in> {p0, p1, q0, q1}. p \<noteq> [] \<and> blobs a (sha256 (env_sha env) p) \<in> {None, Some p}"
  defines "k \<equiv> sha256 (env_sha env)"
  defines "a' \<equiv> cat_run env [Store_Chunk i f 0 p0 (k p0), Store_Chunk i f 0 q0 (k q0), Store_Chunk i f 1 q1 (k q1),
      Store_Chunk i f 1 p1 (k p1)] a"
  shows "listed (manifests a' i f) = [k q0, k p1]" and "\<forall>x \<in> {k q0, k p1}. has_bytes (blobs a') x"
    and "assembled (blobs a') [k q0, k p1] = q0 @ p1"
proof -
  let ?us = "[Store_Chunk i f 0 p0 (k p0), Store_Chunk i f 0 q0 (k q0), Store_Chunk i f 1 q1 (k q1),
      Store_Chunk i f 1 p1 (k p1)]"
  have "manifests a' i f = [0 \<mapsto> k q0, 1 \<mapsto> k p1]"
    by (simp add: a'_def put_at_apply assms(1) fun_eq_iff)
  then show "listed (manifests a' i f) = [k q0, k p1]" by (simp add: listed_def)
  have "agreed (k p) p ?us" if "p \<in> {p0, p1, q0, q1}" for p
  proof -
    have "p' = p" if "p' \<in> {p0, p1, q0, q1}" "k p' = k p" for p'
      using inj_onD [OF assms(2) _ that(1)] \<open>p \<in> {p0, p1, q0, q1}\<close> that(2) by (simp add: k_def del: inj_on_insert)
    then show ?thesis unfolding agreed_def by auto
  qed
  then have blob: "blobs a' (k q0) = Some q0" "blobs a' (k p1) = Some p1"
    unfolding a'_def
    using assms(3) blob_agreed [of "k q0" q0 ?us a i f 0 q0] blob_agreed [of "k p1" p1 ?us a i f 1 p1]
    by (simp_all add: k_def)
  then show has: "\<forall>x \<in> {k q0, k p1}. has_bytes (blobs a') x"
    using assms(3) by (simp add: has_bytes_def)
  then show "assembled (blobs a') [k q0, k p1] = q0 @ p1"
    using blob by (simp add: assembled_def bytes_of_def)
qed

text \<open>C32: 
  Uploads of the same file by the same client are not serialised: two uploads of two chunks each, run at the same time,
  can both be told they succeeded while the file holds the first chunk of one followed by the second of the other.
\<close>

theorem uploads_of_one_file_can_mix:
  assumes "serving P env st" and "good_paths P" and "libraries_ok env" and "plain_name i" and "f \<in> P"
    and "rows_of (client_view env st i) f = Map.empty" and "inj_on (sha256 (env_sha env)) {p0, p1, q0, q1}"
    and "\<forall>p \<in> {p0, p1, q0, q1}. p \<noteq> [] \<and> chunk_get (env, st) (sha256 (env_sha env) p) \<in> {None, Some p}"
  shows "\<exists>cs \<in> shuffles (pair_upload env now junk i f (p0, p1)) (pair_upload env later junk' i f (q0, q1)).
    \<exists>rs st'. run_calls env cs st = (Inr rs, st') \<and> set rs = {Answer_Bool True} \<and>
      files_of (disk st') (client_place (root_path env st) i f) = Some (q0 @ p1)"
proof -
  let ?k = "sha256 (env_sha env)"
  define us where "us = [Store_Chunk i f 0 p0 (?k p0), Store_Chunk i f 0 q0 (?k q0), Store_Chunk i f 1 q1 (?k q1),
      Store_Chunk i f 1 p1 (?k p1)]"
  define cs where "cs = us @ [Finalize now junk i f 2, Finalize later junk' i f 2]"
  have shuffled: "cs \<in> shuffles (pair_upload env now junk i f (p0, p1)) (pair_upload env later junk' i f (q0, q1))"
    by (simp add: cs_def us_def pair_upload_simps)
  have sha: "sha_documented (env_sha env)" using assms(3) by (simp add: libraries_ok_def)
  have zero: "CHR 0x00 \<notin> set (?k p)" for p using sha256_chars [of "env_sha env" p] by auto
  have "\<forall>c \<in> set cs. good_call P c"
    using assms(4,5) by (simp add: cs_def us_def zero chunk_name_sha256 [OF sha])
  from run_calls_simulated [OF assms(2,3,1) this] obtain rs st' where
    st': "run_calls env cs st = (Inr rs, st')" "cat_replies env (catalogue_of env st) cs rs"
      "catalogue_of env st' = cat_run env cs (catalogue_of env st)" "root_path env st' = root_path env st" by blast
  define a where "a = cat_run env us (catalogue_of env st)"
  have "manifests (catalogue_of env st) i f = Map.empty"
    "\<forall>p \<in> {p0, p1, q0, q1}. p \<noteq> [] \<and> blobs (catalogue_of env st) (?k p) \<in> {None, Some p}"
    using assms(6,8) by (simp_all add: catalogue_view)
  note mix = mixed_in_catalogue [OF this(1) assms(7) this(2), folded us_def, folded a_def]
  obtain rs' r r' where rs: "rs = rs' @ [r, r']" "cat_replies env (catalogue_of env st) us rs'"
    "r = Answer_Bool True" "r' = Answer_Bool True"
    using st'(2) mix unfolding cs_def cat_replies_append a_def [symmetric] by (auto simp: Let_def to_size_t_def)
  have "set rs' = {Answer_Bool True}" using rs(2) unfolding us_def by auto
  moreover have "contents (cat_run env cs (catalogue_of env st)) i f = Some (q0 @ p1)"
    using mix unfolding cs_def cat_run_append a_def [symmetric]
    by (simp add: Let_def to_size_t_def put_at_apply)
  ultimately have "set rs = {Answer_Bool True}" "files_of (disk st') (client_place (root_path env st) i f) = Some (q0 @ p1)"
    using rs by (simp_all add: st'(3) [symmetric] catalogue_view st'(4))
  with shuffled st'(1) show ?thesis by blast
qed

lemma short_digests: "inj_on (sha256 toy_sha) {[1], [2], [3], [4]}"
proof -
  have "sha_oneshot toy_sha [x] = x # replicate 31 0" for x by (simp add: toy_sha_def)
  then show ?thesis by (auto simp: inj_on_def sha256_def hex_stream_inj)
qed

theorem uploads_of_one_file_can_mix_witness:
  "\<exists>cs \<in> shuffles (pair_upload plain_env 9 0 ''al'' ''f'' ([1], [2])) (pair_upload plain_env 9 0 ''al'' ''f'' ([3], [4])).
    \<exists>rs st'. run_calls plain_env cs fresh_server = (Inr rs, st') \<and> set rs = {Answer_Bool True} \<and>
      files_of (disk st') (client_place (root_path plain_env fresh_server) ''al'' ''f'') = Some [3, 2]"
proof -
  have good: "good_paths {''f''}" by (rule good_paths_plain) (simp add: plain_name_def database_files_def)
  have hyps: "plain_name ''al''" "''f'' \<in> {''f''}"
    "rows_of (client_view plain_env fresh_server ''al'') ''f'' = Map.empty"
    "inj_on (sha256 (env_sha plain_env)) {[1], [2], [3], [4]}"
    "\<forall>p \<in> {[1], [2], [3], [4]}. p \<noteq> [] \<and> chunk_get (plain_env, fresh_server) (sha256 (env_sha plain_env) p) \<in> {None, Some p}"
    using short_digests
    by (simp_all add: plain_name_def fun_eq_iff rows_of_def fresh_view MetadataDB_def empty_database_def fresh_chunk
        del: inj_on_insert)
  from uploads_of_one_file_can_mix [OF fresh_serving good libraries_plain hyps, of 9 0 9 0]
  show ?thesis by simp
qed

end
