(* ===== verification/Service_Runs.thy ===== *)
theory Service_Runs
  imports Concurrent_Uploads
begin

text \<open>
  The service as a whole (\<open>include/server/sync_service.h\<close>): the remote procedures, one after the other,
  on a state that every one of them keeps.
\<close>

subsection \<open>The remote procedures\<close>

datatype rpc =
    Rpc_Sync sync_request
  | Rpc_Upload "upload_request list"
  | Rpc_Download download_request
  | Rpc_Resolve resolution_request
  | Rpc_Stream "file_change list"
  | Rpc_Heartbeat heartbeat_request

datatype rpc_answer =
    Sync_Answer sync_response
  | Upload_Answer upload_response
  | Download_Answer "download_response list"
  | Resolve_Answer resolution_response
  | Stream_Answer "file_change list"
  | Heartbeat_Answer heartbeat_response

text \<open>
  One procedure at the time \<open>now\<close>; \<open>junk\<close> is the uninitialised field of the record an upload stores.
\<close>

definition with_answer :: "('r \<Rightarrow> rpc_answer) \<Rightarrow> (status \<times> 'r) action \<Rightarrow> (status \<times> rpc_answer) action" where
  "with_answer f m = seq m (\<lambda>(code, r). ret (code, f r))"

fun serve_rpc :: "'c env \<Rightarrow> int \<Rightarrow> int \<Rightarrow> rpc \<Rightarrow> (status \<times> rpc_answer) action" where
  "serve_rpc env now junk (Rpc_Sync q) = with_answer Sync_Answer (Sync env now q)"
| "serve_rpc env now junk (Rpc_Upload rs) = with_answer Upload_Answer (UploadFile env now junk rs)"
| "serve_rpc env now junk (Rpc_Download q) = with_answer Download_Answer (DownloadFile env q)"
| "serve_rpc env now junk (Rpc_Resolve q) = with_answer Resolve_Answer (ResolveConflict q)"
| "serve_rpc env now junk (Rpc_Stream cs) = with_answer Stream_Answer (StreamSync cs)"
| "serve_rpc env now junk (Rpc_Heartbeat q) = with_answer Heartbeat_Answer (Heartbeat now q)"

text \<open>Procedures at their times, in the order they come in.\<close>

fun serve_all :: "'c env \<Rightarrow> (int \<times> int \<times> rpc) list \<Rightarrow> (status \<times> rpc_answer) list action" where
  "serve_all env [] = ret []"
| "serve_all env ((now, junk, q) # qs) =
     seq (serve_rpc env now junk q) (\<lambda>a. seq (serve_all env qs) (\<lambda>as. ret (a # as)))"

text \<open>
  Requests with a plain client name, chunk names and paths that stay in their directories. An upload has at least one message.
\<close>

fun good_rpc :: "string set \<Rightarrow> rpc \<Rightarrow> bool" where
  "good_rpc P (Rpc_Sync q) \<longleftrightarrow> plain_name (sr_client_id q)"
| "good_rpc P (Rpc_Upload rs) \<longleftrightarrow> rs \<noteq> [] \<and> (\<forall>c \<in> set (upload_calls 0 0 rs). good_call P c)"
| "good_rpc P (Rpc_Download q) \<longleftrightarrow> plain_name (dr_client_id q) \<and> dr_file_path q \<in> P"
| "good_rpc P _ \<longleftrightarrow> True"

subsection \<open>Every procedure keeps the server serving\<close>

definition kept :: "string set \<Rightarrow> 'c env \<Rightarrow> storage \<Rightarrow> (status \<times> 'r) action \<Rightarrow> bool" where
  "kept P env st m \<longleftrightarrow> (\<exists>code r st'. m st = (Inr (code, r), st') \<and> code \<in> {Status_OK, Status_NOT_FOUND ''File not found''} \<and>
     serving P env st' \<and> root_path env st' = root_path env st \<and>
     (\<forall>k bs. chunk_get (env, st) k = Some bs \<longrightarrow> chunk_get (env, st') k = Some bs))"

lemma kept_answer: "kept P env st m \<Longrightarrow> kept P env st (with_answer f m)"
  by (auto simp: kept_def with_answer_def seq_def ret_def)

lemma kept_ret: "serving P env st \<Longrightarrow> kept P env st (ret (Status_OK, r))"
  by (simp add: kept_def ret_def)

text \<open>A procedure that is a sequence of calls.\<close>

lemma kept_calls:
  assumes "good_paths P" and "libraries_ok env" and "serving P env st" and "\<forall>c \<in> set cs. good_call P c"
    and "\<And>rs st'. run_calls env cs st = (Inr rs, st') \<Longrightarrow> cat_replies env (catalogue_of env st) cs rs \<Longrightarrow>
      \<exists>code r. m st = (Inr (code, r), st') \<and> code \<in> {Status_OK, Status_NOT_FOUND ''File not found''}"
  shows "kept P env st m"
proof -
  obtain rs st' where st': "run_calls env cs st = (Inr rs, st')" "cat_replies env (catalogue_of env st) cs rs"
    "catalogue_of env st' = cat_run env cs (catalogue_of env st)" "serving P env st'" "root_path env st' = root_path env st"
    using run_calls_simulated [OF assms(1-4)] by blast
  have "chunk_get (env, st') k = Some bs" if "chunk_get (env, st) k = Some bs" for k bs
    using blob_run [of "catalogue_of env st" k bs env cs] that st'(3) by (simp add: catalogue_view(3) [symmetric])
  with assms(5) [OF st'(1,2)] st'(4,5) show ?thesis unfolding kept_def by blast
qed

lemma Sync_kept:
  assumes "good_paths P" and "libraries_ok env" and "serving P env st" and "plain_name (sr_client_id q)"
  shows "kept P env st (Sync env now q)"
proof (rule kept_calls [OF assms(1-3), of "[List_Files (sr_client_id q), List_Files (sr_client_id q)]"])
  show "\<exists>code r. Sync env now q st = (Inr (code, r), st') \<and> code \<in> {Status_OK, Status_NOT_FOUND ''File not found''}"
    if "run_calls env [List_Files (sr_client_id q), List_Files (sr_client_id q)] st = (Inr rs, st')" for rs st'
    using that by (auto simp: Sync_def computeChanges_def seq_def ret_def split: sum.splits prod.splits)
qed (simp add: assms(4))

lemma Download_kept:
  assumes "good_paths P" and "libraries_ok env" and "serving P env st"
    and "plain_name (dr_client_id q)" and "dr_file_path q \<in> P"
  shows "kept P env st (DownloadFile env q)"
proof (rule kept_calls [OF assms(1-3), of "[Get_Record (dr_client_id q) (dr_file_path q)]"])
  show "\<exists>code r. DownloadFile env q st = (Inr (code, r), st') \<and> code \<in> {Status_OK, Status_NOT_FOUND ''File not found''}"
    if "run_calls env [Get_Record (dr_client_id q) (dr_file_path q)] st = (Inr rs, st')" for rs st'
    using that by (auto simp: DownloadFile_def seq_def ret_def split: sum.splits prod.splits option.splits)
qed (simp add: assms(4,5))

lemma Upload_kept:
  assumes "good_paths P" and "libraries_ok env" and "serving P env st"
    and "rs \<noteq> []" and "\<forall>c \<in> set (upload_calls 0 0 rs). good_call P c"
  shows "kept P env st (UploadFile env now junk rs)"
proof -
  have good: "\<forall>c \<in> set (upload_calls now junk rs). good_call P c"
    using assms(5) by (auto simp: upload_calls_def)
  show ?thesis
  proof (rule kept_calls [OF assms(1-3) good])
    show "\<exists>code r. UploadFile env now junk rs st = (Inr (code, r), st') \<and> code \<in> {Status_OK, Status_NOT_FOUND ''File not found''}"
      if "run_calls env (upload_calls now junk rs) st = (Inr us, st')" for us st'
      using upload_as_calls [OF assms(3,1,2,4) good] that by auto
  qed
qed

lemma StreamSync_empty: "StreamSync cs = ret (Status_OK, [])"
  by (induction cs) simp_all

lemma serve_rpc_kept:
  assumes "good_paths P" and "libraries_ok env" and "serving P env st" and "good_rpc P q"
  shows "kept P env st (serve_rpc env now junk q)"
  using assms(4) Sync_kept [OF assms(1-3)] Download_kept [OF assms(1-3)] Upload_kept [OF assms(1-3)]
  by (cases q) (simp_all add: kept_answer kept_ret [OF assms(3)] ResolveConflict_def StreamSync_empty Heartbeat_def)


lemma serve_all_kept:
  assumes "good_paths P" and "libraries_ok env"
  shows "serving P env st \<Longrightarrow> \<forall>(now, junk, q) \<in> set qs. good_rpc P q \<Longrightarrow>
    \<exists>as st'. serve_all env qs st = (Inr as, st') \<and> length as = length qs \<and>
      fst ` set as \<subseteq> {Status_OK, Status_NOT_FOUND ''File not found''} \<and> serving P env st' \<and>
      (\<forall>k bs. chunk_get (env, st) k = Some bs \<longrightarrow> chunk_get (env, st') k = Some bs)"
proof (induction qs arbitrary: st)
  case Nil
  then show ?case by (simp add: ret_def)
next
  case (Cons x qs)
  obtain now junk q where x: "x = (now, junk, q)" by (cases x)
  have "kept P env st (serve_rpc env now junk q)"
    using serve_rpc_kept [OF assms Cons.prems(1)] Cons.prems(2) by (simp add: x)
  then obtain code r st1 where st1: "serve_rpc env now junk q st = (Inr (code, r), st1)"
    "code \<in> {Status_OK, Status_NOT_FOUND ''File not found''}" "serving P env st1"
    "\<forall>k bs. chunk_get (env, st) k = Some bs \<longrightarrow> chunk_get (env, st1) k = Some bs"
    unfolding kept_def by blast
  obtain as st' where st': "serve_all env qs st1 = (Inr as, st')" "length as = length qs"
    "fst ` set as \<subseteq> {Status_OK, Status_NOT_FOUND ''File not found''}" "serving P env st'"
    "\<forall>k bs. chunk_get (env, st1) k = Some bs \<longrightarrow> chunk_get (env, st') k = Some bs"
    using Cons.IH [OF st1(3)] Cons.prems(2) by auto
  have "serve_all env (x # qs) st = (Inr ((code, r) # as), st')"
    by (simp add: x seq_def st1(1) st'(1) ret_def)
  then show ?case using st1(2,4) st' by auto
qed


definition late_sync :: sync_request where
  "late_sync = \<lparr>sr_client_id = ''al'', sr_local_files = [], sr_last_sync_time = 3\<rparr>"


end
