(* ===== verification/Deduplication.thy ===== *)
theory Deduplication
  imports Concurrent_Uploads
begin

text \<open>
  What an upload adds to the chunk store: the chunker, the service and the store together. A chunk is stored once,
  whoever sends it and in whichever file it is, and because chunking is local, a file that grew costs what was added.
\<close>

subsection \<open>The blobs after an upload\<close>

lemma store_calls_blobs:
  assumes "\<forall>r \<in> set rs. \<forall>r' \<in> set rs. cm_hash (up_chunk r) = cm_hash (up_chunk r') \<longrightarrow> cm_data (up_chunk r) = cm_data (up_chunk r')"
  shows "blobs (cat_run env (map (store_call i f) rs) a) k = Some bs \<longleftrightarrow>
    blobs a k = Some bs \<or> (blobs a k = None \<and> (\<exists>r \<in> set rs. k = cm_hash (up_chunk r) \<and> bs = cm_data (up_chunk r)))"
  using assms
proof (induction rs arbitrary: a)
  case Nil
  then show ?case by simp
next
  case (Cons r rs)
  have tail: "\<forall>r \<in> set rs. \<forall>r' \<in> set rs. cm_hash (up_chunk r) = cm_hash (up_chunk r') \<longrightarrow> cm_data (up_chunk r) = cm_data (up_chunk r')"
    using Cons.prems by (simp only: list.set insert_iff) blast
  have same: "cm_data (up_chunk r') = cm_data (up_chunk r)" if "r' \<in> set rs" "cm_hash (up_chunk r') = cm_hash (up_chunk r)" for r'
    using Cons.prems that by (simp only: list.set insert_iff) blast
  note IH = Cons.IH [OF tail, of "cat_next env (store_call i f r) a"]
  show ?case
  proof (cases "k = cm_hash (up_chunk r)")
    case True
    then have "blobs (cat_next env (store_call i f r) a) k =
        (case blobs a k of None \<Rightarrow> Some (cm_data (up_chunk r)) | Some bs \<Rightarrow> Some bs)"
      by (simp add: store_call_def split: option.split)
    then show ?thesis
      using same IH True by (cases "blobs a k") (auto simp del: cat_next.simps)
  next
    case False
    then have "blobs (cat_next env (store_call i f r) a) k = blobs a k"
      by (simp add: store_call_def)
    then show ?thesis using IH False by (simp del: cat_next.simps)
  qed
qed

lemma upload_blobs:
  assumes "serving P env st" and "good_paths P" and "libraries_ok env" and "plain_name i" and "f \<in> P"
    and "inj_on (sha256 (env_sha env)) (set (cut_up content_cut [] data))" and "data \<noteq> []"
    and "mset rs = mset (upload_requests (env_sha env) i f data)"
  shows "\<exists>r st'. UploadFile env now junk rs st = (Inr (Status_OK, r), st') \<and> serving P env st' \<and>
    (\<forall>k bs. chunk_get (env, st') k = Some bs \<longleftrightarrow> chunk_get (env, st) k = Some bs \<or>
      (chunk_get (env, st) k = None \<and> bs \<in> set (cut_up content_cut [] data) \<and> k = sha256 (env_sha env) bs))"
proof -
  let ?ps = "cut_up content_cut [] data" and ?api = "env_sha env"
  have "?ps \<noteq> []" using content.concat_cut_up [of data "[]"] assms(7) by auto
  then have "upload_requests ?api i f data \<noteq> []"
    using length_upload_requests [of ?api i f data] by fastforce
  from hd_mem_mset [OF assms(8) this] have hd: "rs \<noteq> []" "hd rs \<in> set (upload_requests ?api i f data)" by blast+
  note fields = upload_requests_fields [OF hd(2)]
  have "request_chunk ` set rs = set (piece_chunks ?api ?ps)"
    using mset_eq_setD [OF assms(8)] upload_requests_chunks [of ?api i f data] by (metis set_map)
  then have pieces: "(\<exists>r \<in> set rs. k = cm_hash (up_chunk r) \<and> bs = cm_data (up_chunk r)) \<longleftrightarrow>
      (bs \<in> set ?ps \<and> k = sha256 ?api bs)" for k bs
    using piece_chunks_mem [of bs ?ps ?api] piece_chunks_set [of _ bs k ?api ?ps]
    by (auto simp: request_chunk_def image_iff set_eq_iff) (metis (no_types))+
  define calls where "calls = map (store_call i f) rs"
  have all: "upload_calls now junk rs = calls @ [Finalize now junk i f (up_total_chunks (hd rs))]"
    by (simp add: upload_calls_def fields calls_def)
  have sha: "sha_documented ?api" using assms(3) by (simp add: libraries_ok_def)
  have "chunk_name (cm_hash (up_chunk r)) \<and> CHR 0x00 \<notin> set (cm_hash (up_chunk r))" if "r \<in> set rs" for r
    using pieces that chunk_name_sha256 [OF sha] no_zero_sha256 by metis
  then have good: "\<forall>c \<in> set (upload_calls now junk rs). good_call P c"
    using assms(4,5) by (auto simp: all calls_def store_call_def)
  obtain b st' where st': "run_calls env (upload_calls now junk rs) st =
      (Inr (replicate (length rs) (Answer_Bool True) @ [Answer_Bool b]), st')"
    "\<exists>r. UploadFile env now junk rs st = (Inr (Status_OK, r), st')"
    using upload_as_calls [OF assms(1-3) hd(1) good] by blast
  have cat: "catalogue_of env st' = cat_run env (upload_calls now junk rs) (catalogue_of env st)" "serving P env st'"
    using run_calls_simulated [OF assms(2,3,1) good] st'(1) by auto
  have "blobs (catalogue_of env st') = blobs (cat_run env calls (catalogue_of env st))"
    by (simp add: cat(1) all cat_run_append Let_def)
  moreover have "\<forall>r \<in> set rs. \<forall>r' \<in> set rs. cm_hash (up_chunk r) = cm_hash (up_chunk r') \<longrightarrow>
      cm_data (up_chunk r) = cm_data (up_chunk r')"
    using pieces inj_onD [OF assms(6)] by metis
  from store_calls_blobs [OF this, of env i f "catalogue_of env st"] pieces
  have "blobs (cat_run env calls (catalogue_of env st)) k = Some bs \<longleftrightarrow> blobs (catalogue_of env st) k = Some bs \<or>
      (blobs (catalogue_of env st) k = None \<and> bs \<in> set ?ps \<and> k = sha256 ?api bs)" for k bs
    unfolding calls_def by simp
  moreover obtain r where "UploadFile env now junk rs st = (Inr (Status_OK, r), st')" using st'(2) by blast
  ultimately show ?thesis
    using cat(2) by (intro exI [of _ r] exI [of _ st']) (simp add: catalogue_view(3) [symmetric])
qed

text \<open>C10: 
  An upload stores each chunk of the file once and only if it was not there: afterwards the store holds what it held and, under
  their digests, exactly those chunks of the file whose digest was unknown.
\<close>

theorem upload_deduplicates:
  assumes "serving P env st" and "good_paths P" and "libraries_ok env" and "plain_name i" and "f \<in> P"
    and "inj_on (sha256 (env_sha env)) (set (cut_up content_cut [] data))" and "data \<noteq> []"
    and "mset rs = mset (upload_requests (env_sha env) i f data)"
  shows "\<exists>r st'. UploadFile env now junk rs st = (Inr (Status_OK, r), st') \<and>
    (\<forall>k bs. chunk_get (env, st') k = Some bs \<longleftrightarrow> chunk_get (env, st) k = Some bs \<or>
      (chunk_get (env, st) k = None \<and> bs \<in> set (cut_up content_cut [] data) \<and> k = sha256 (env_sha env) bs))"
  using upload_blobs [OF assms] by blast

lemma two_chunks_inj: "inj_on (sha256 toy_sha) (set (cut_up content_cut [] two_chunks))"
  using two_chunks_no_collision by (simp add: no_collision_def)

lemma two_chunks_nonempty: "two_chunks \<noteq> []"
  by (simp add: two_chunks_def)

lemma good_single: "good_paths {''f''}"
  by (rule good_paths_plain) (simp add: plain_name_def database_files_def)

theorem upload_deduplicates_witness:
  "\<exists>r st'. UploadFile plain_env 9 0 (upload_requests toy_sha ''al'' ''f'' two_chunks) fresh_server = (Inr (Status_OK, r), st') \<and>
    chunk_get (plain_env, st') (sha256 toy_sha [1, 2, 3]) = Some [1, 2, 3]"
proof -
  have "plain_name ''al''" "''f'' \<in> {''f''}" by (simp_all add: plain_name_def)
  from upload_deduplicates [OF fresh_serving good_single libraries_plain this, of two_chunks
      "upload_requests toy_sha ''al'' ''f'' two_chunks" 9 0]
  show ?thesis using two_chunks_inj two_chunks_nonempty by (auto simp: fresh_chunk two_chunks_cut)
qed

subsection \<open>A file that grew\<close>

definition new_blobs :: "'c env \<Rightarrow> storage \<Rightarrow> storage \<Rightarrow> string set" where
  "new_blobs env st st' = {k. chunk_get (env, st) k = None \<and> chunk_get (env, st') k \<noteq> None}"

definition blob_size :: "'c env \<Rightarrow> storage \<Rightarrow> string \<Rightarrow> nat" where
  "blob_size env st k = length (bytes_of (chunk_get (env, st)) k)"

lemma sum_set_le: "(\<Sum>p \<in> set ps. length p) \<le> length (concat ps)"
proof (induction ps)
  case Nil
  then show ?case by simp
next
  case (Cons p ps)
  then show ?case by (cases "p \<in> set ps") (simp_all add: insert_absorb)
qed

text \<open>The new blobs of an upload, and what they add up to.\<close>

lemma new_blobs_size:
  assumes "\<forall>k bs. chunk_get (env, st') k = Some bs \<longleftrightarrow> chunk_get (env, st) k = Some bs \<or>
      (chunk_get (env, st) k = None \<and> bs \<in> B \<and> k = sha256 (env_sha env) bs)"
    and "\<forall>p \<in> B. p \<in> set ps \<or> chunk_get (env, st) (sha256 (env_sha env) p) \<noteq> None"
    and "inj_on (sha256 (env_sha env)) B"
  shows "finite (new_blobs env st st')" and "(\<Sum>k \<in> new_blobs env st st'. blob_size env st' k) \<le> length (concat ps)"
proof -
  let ?k = "sha256 (env_sha env)"
  define M where "M = {p \<in> B. chunk_get (env, st) (?k p) = None}"
  have M: "M \<subseteq> set ps" "inj_on ?k M"
    using assms(2,3) by (auto simp: M_def intro: inj_on_subset)
  have new: "new_blobs env st st' = ?k ` M"
    using assms(1) by (auto simp: new_blobs_def M_def image_iff simp flip: not_Some_eq)
  show "finite (new_blobs env st st')" unfolding new using M(1) by (simp add: finite_subset)
  have "chunk_get (env, st') (?k p) = Some p" if "p \<in> M" for p using assms(1) that by (simp add: M_def)
  then have "(\<Sum>p \<in> M. blob_size env st' (?k p)) = (\<Sum>p \<in> M. length p)"
    by (intro sum.cong) (simp_all add: blob_size_def bytes_of_def)
  then have "(\<Sum>k \<in> new_blobs env st st'. blob_size env st' k) = (\<Sum>p \<in> M. length p)"
    unfolding new by (simp add: sum.reindex [OF M(2)])
  also have "\<dots> \<le> (\<Sum>p \<in> set ps. length p)" by (rule sum_mono2) (simp_all add: M(1))
  also have "\<dots> \<le> length (concat ps)" by (rule sum_set_le)
  finally show "(\<Sum>k \<in> new_blobs env st st'. blob_size env st' k) \<le> length (concat ps)" .
qed



end
