(* ===== verification/Concurrent_Chunks.thy ===== *)
theory Concurrent_Chunks
  imports Storage_Properties
begin

text \<open>
  \<open>storeChunk\<close> takes no lock around the test for the file, its creation and the write
  (\<open>src/server/storage_manager.cpp\<close>). Here several threads store the same bytes under the same name
  at the same time; a schedule says whose turn it is.
\<close>

subsection \<open>The three steps of a writer\<close>

datatype writer = Asking | Opening | Writing | Finished bool

record chunk_race =
  race_disk :: store
  writers :: "nat \<Rightarrow> writer"

definition advance :: "host \<Rightarrow> string \<Rightarrow> bytes \<Rightarrow> nat \<Rightarrow> chunk_race \<Rightarrow> chunk_race" where
  "advance h chunk_path data t s =
     (case writers s t of
        Asking \<Rightarrow>
          s\<lparr>writers := (writers s)(t := if path_exists h (race_disk s) chunk_path then Finished True else Opening)\<rparr>
      | Opening \<Rightarrow>
          (case open_out h (race_disk s) chunk_path of
             None \<Rightarrow> s\<lparr>writers := (writers s)(t := Finished False)\<rparr>
           | Some fs \<Rightarrow> s\<lparr>race_disk := fs, writers := (writers s)(t := Writing)\<rparr>)
      | Writing \<Rightarrow>
          s\<lparr>race_disk := write_at h (race_disk s) chunk_path 0 data, writers := (writers s)(t := Finished True)\<rparr>
      | Finished b \<Rightarrow> s)"

definition run_race :: "host \<Rightarrow> string \<Rightarrow> bytes \<Rightarrow> nat list \<Rightarrow> chunk_race \<Rightarrow> chunk_race" where
  "run_race h chunk_path data schedule s = foldl (\<lambda>s t. advance h chunk_path data t s) s schedule"

definition race_start :: "store \<Rightarrow> chunk_race" where
  "race_start fs = \<lparr>race_disk = fs, writers = (\<lambda>_. Asking)\<rparr>"

lemma run_race_simps [simp]:
  "run_race h p data [] s = s"
  "run_race h p data (t # ts) s = run_race h p data ts (advance h p data t s)"
  "run_race h p data (ts @ us) s = run_race h p data us (run_race h p data ts s)"
  by (simp_all add: run_race_def)

text \<open>A writer that is not disturbed does what \<open>write_chunk_file\<close> does.\<close>

theorem undisturbed_writer:
  assumes "getChunkPath env k st = (Inr p, st1)"
  shows "\<exists>b. write_chunk_file env k data st =
      (Inr b, st1\<lparr>disk := race_disk (run_race (env_host env) p data [t, t, t] (race_start (disk st1)))\<rparr>) \<and>
    writers (run_race (env_host env) p data [t, t, t] (race_start (disk st1))) t = Finished b"
proof (cases "path_exists (env_host env) (disk st1) p")
  case True
  then show ?thesis using assms
    by (intro exI [of _ True]) (simp add: write_chunk_file_def seq_def advance_def race_start_def)
next
  case False
  show ?thesis
  proof (cases "open_out (env_host env) (disk st1) p")
    case None
    then show ?thesis using assms False
      by (intro exI [of _ False]) (simp add: write_chunk_file_def seq_def advance_def race_start_def)
  next
    case (Some fs)
    then have "stream_write (env_host env) fs p data = write_at (env_host env) fs p 0 data"
      by (auto simp: open_out_def stream_write_def write_at_def overwrite_front Let_def split: if_splits)
    then show ?thesis using assms False Some
      by (intro exI [of _ True]) (simp add: write_chunk_file_def seq_def advance_def race_start_def)
  qed
qed

subsection \<open>The file during the race\<close>

text \<open>
  The file is missing, empty or complete; while it is missing nobody has opened it, and while it is empty somebody
  is about to write it.
\<close>

definition race_ok :: "host \<Rightarrow> path \<Rightarrow> bytes \<Rightarrow> chunk_race \<Rightarrow> bool" where
  "race_ok h q data s \<longleftrightarrow> q \<noteq> [] \<and> is_dir (race_disk s) (butlast q) \<and> race_disk s q \<noteq> Some Directory \<and>
     (\<forall>t. writers s t \<noteq> Finished False) \<and>
     (case files_of (race_disk s) q of
        None \<Rightarrow> \<forall>t. writers s t \<in> {Asking, Opening}
      | Some bs \<Rightarrow> bs = data \<or> (bs = [] \<and> (\<exists>t. writers s t = Writing)))"


lemma advance_ok:
  assumes "healthy h" and "resolve (cwd h) p = q" and "race_ok h q data s"
  shows "race_ok h q data (advance h p data t s)"
proof -
  let ?fs = "race_disk s"
  have s: "q \<noteq> []" "is_dir ?fs (butlast q)" "?fs q \<noteq> Some Directory" "\<forall>t. writers s t \<noteq> Finished False"
    using assms(3) by (simp_all add: race_ok_def)
  have ex: "path_exists h ?fs p \<longleftrightarrow> files_of ?fs q \<noteq> None"
    using s(1,3) assms(2) by (auto simp: path_exists_def Let_def files_of_def split: option.splits node.splits)
  have op: "open_out h ?fs p = Some (?fs(q \<mapsto> Regular []))"
    using s(1-3) assms(1,2) by (simp add: open_out_def Let_def healthyD)
  have q: "butlast q \<noteq> q" using s(1) by (metis append_butlast_last_id append_self_conv not_Cons_self2)
  have dir: "is_dir (?fs(q \<mapsto> Regular bs)) (butlast q)" for bs
    using s(2) q by (simp add: is_dir_def)
  show ?thesis
  proof (cases "writers s t")
    case Asking
    show ?thesis
    proof (cases "files_of ?fs q")
      case None
      then show ?thesis using assms(3) Asking by (auto simp: race_ok_def advance_def ex)
    next
      case (Some bs)
      have "\<exists>t'. t' \<noteq> t \<and> writers s t' = Writing" if "writers s t' = Writing" for t'
        using that Asking by (intro exI [of _ t']) auto
      then show ?thesis using assms(3) Asking Some by (auto simp: race_ok_def advance_def ex)
    qed
  next
    case Opening
    then show ?thesis using s dir by (auto simp: race_ok_def advance_def op files_of_upd)
  next
    case Writing
    have "files_of ?fs q = Some [] \<or> files_of ?fs q = Some data"
      using assms(3) Writing unfolding race_ok_def by (cases "files_of ?fs q") (auto, metis writer.distinct(3,7))
    then have "write_at h ?fs p 0 data = ?fs(q \<mapsto> Regular data)"
      using assms(1,2) by (auto simp: write_at_def overwrite_front Let_def healthyD files_of_Some)
    then show ?thesis using s dir Writing by (auto simp: race_ok_def advance_def files_of_upd)
  next
    case (Finished b)
    then show ?thesis using assms(3) by (simp add: advance_def)
  qed
qed

lemma run_race_ok:
  assumes "healthy h" and "resolve (cwd h) p = q"
  shows "race_ok h q data s \<Longrightarrow> race_ok h q data (run_race h p data ts s)"
  by (induction ts arbitrary: s) (simp_all add: advance_ok [OF assms])

lemma race_start_ok:
  assumes "chunks_ok (env, st)" and "chunk_name k" and "chunk_get (env, st) k \<in> {None, Some data}"
    and "getChunkPath env k st = (Inr p, st1)"
  shows "race_ok (env_host env) (chunk_place (root_path env st) k) data (race_start (disk st1))"
    and "resolve (cwd (env_host env)) p = chunk_place (root_path env st) k"
    and "root_path env st1 = root_path env st" and "chunks_ok (env, st1)"
    and "chunk_get (env, st1) k = chunk_get (env, st) k"
proof -
  let ?R = "root_path env st"
  obtain fs' where fs': "st1 = st\<lparr>disk := fs'\<rparr>" "resolve (cwd (env_host env)) p = chunk_place ?R k"
    "files_of fs' = files_of (disk st)" "adds_dirs (disk st) fs' (?R @ [''chunks'', take 2 k])" "layout_ok ?R fs'"
    using getChunkPath_healthy [of env st k] assms unfolding chunks_ok_def by auto
  show "resolve (cwd (env_host env)) p = chunk_place ?R k" by (rule fs'(2))
  show "root_path env st1 = ?R" "chunks_ok (env, st1)" using assms(1) fs' by (simp_all add: chunks_ok_def root_path_def)
  show "chunk_get (env, st1) k = chunk_get (env, st) k" by (simp add: fs'(1,3) chunk_get_def root_path_def)
  have P: "butlast (chunk_place ?R k) = ?R @ [''chunks'', take 2 k]" "chunk_place ?R k \<noteq> []"
    by (simp_all add: chunk_place_def butlast_append)
  then have "is_dir fs' (butlast (chunk_place ?R k))" "chunk_place ?R k \<noteq> []"
    using fs'(4) by (simp_all add: adds_dirs_def)
  moreover have "fs' (chunk_place ?R k) \<noteq> Some Directory"
    using fs'(5) by (simp add: layout_ok_def chunk_place_def)
  moreover have "files_of fs' (chunk_place ?R k) \<in> {None, Some data}"
    using assms(3) by (simp add: fs'(3) chunk_get_def)
  ultimately show "race_ok (env_host env) (chunk_place ?R k) data (race_start (disk st1))"
    by (auto simp: race_ok_def race_start_def fs'(1))
qed

text \<open>C15: 
  Whatever the schedule, no writer fails, and once a writer has finished and none is between opening the file and
  writing it, the file holds the bytes.
\<close>

theorem concurrent_writers_agree:
  assumes "chunks_ok (env, st)" and "chunk_name k" and "chunk_get (env, st) k \<in> {None, Some data}"
    and "getChunkPath env k st = (Inr p, st1)"
  shows "let s = run_race (env_host env) p data schedule (race_start (disk st1)) in
    (\<forall>t. writers s t \<noteq> Finished False) \<and>
    ((\<exists>t. writers s t = Finished True) \<and> (\<forall>t. writers s t \<noteq> Writing) \<longrightarrow>
      files_of (race_disk s) (chunk_place (root_path env st) k) = Some data)"
proof -
  define s where "s = run_race (env_host env) p data schedule (race_start (disk st1))"
  note start = race_start_ok [OF assms]
  have "healthy (env_host env)" using assms(1) by (simp add: chunks_ok_def)
  from run_race_ok [OF this start(2,1)] have ok: "race_ok (env_host env) (chunk_place (root_path env st) k) data s"
    unfolding s_def .
  then have "files_of (race_disk s) (chunk_place (root_path env st) k) = Some data"
    if "writers s t = Finished True" "\<forall>t. writers s t \<noteq> Writing" for t
    using that by (cases "files_of (race_disk s) (chunk_place (root_path env st) k)")
      (auto simp: race_ok_def, metis writer.distinct(5,9))
  then show ?thesis using ok unfolding s_def [symmetric] Let_def by (auto simp: race_ok_def)
qed

lemma plain_chunk_path: "\<exists>st1. getChunkPath plain_env ''abcd'' fresh_server = (Inr ''/srv/chunks/ab/abcd'', st1)"
proof -
  have name: "chunk_name ''abcd''" by (simp add: chunk_name_def plain_name_def)
  obtain fs' p where p: "getChunkPath plain_env ''abcd'' fresh_server = (Inr p, fresh_server\<lparr>disk := fs'\<rparr>)"
    using getChunkPath_healthy [OF server_okD(1,3) [OF fresh_server_ok] name server_okD(4) [OF fresh_server_ok]] by blast
  then have "p = ''/srv/chunks/ab/abcd''"
    by (auto simp: getChunkPath_def seq_def ret_def Let_def split: sum.splits prod.splits)
  with p show ?thesis by blast
qed

theorem undisturbed_writer_witness:
  "\<exists>b. fst (write_chunk_file plain_env ''abcd'' [1, 2] fresh_server) = Inr b"
proof -
  obtain st1 where "getChunkPath plain_env ''abcd'' fresh_server = (Inr ''/srv/chunks/ab/abcd'', st1)"
    using plain_chunk_path by blast
  from undisturbed_writer [OF this, where t = 0 and data = "[1, 2]"] show ?thesis by auto
qed

theorem concurrent_writers_agree_witness:
  "\<exists>st1. getChunkPath plain_env ''abcd'' fresh_server = (Inr ''/srv/chunks/ab/abcd'', st1) \<and>
    (let s = run_race plain_host ''/srv/chunks/ab/abcd'' [1, 2] [0, 1, 1, 0, 0, 1] (race_start (disk st1)) in
      \<forall>t. writers s t \<noteq> Finished False)"
proof -
  obtain st1 where st1: "getChunkPath plain_env ''abcd'' fresh_server = (Inr ''/srv/chunks/ab/abcd'', st1)"
    using plain_chunk_path by blast
  have "chunk_name ''abcd''" "chunk_get (plain_env, fresh_server) ''abcd'' \<in> {None, Some [1, 2]}"
    by (simp_all add: chunk_name_def plain_name_def fresh_chunk)
  from concurrent_writers_agree [OF server_okD(5) [OF fresh_server_ok] this st1, of "[0, 1, 1, 0, 0, 1]"] st1
  show ?thesis by (auto simp: Let_def)
qed

text \<open>C34: 
  The bytes of an acknowledged chunk can vanish for a while: a thread that asked for the file before another created
  it truncates it after that one has finished; from then until it writes, reading the chunk gives
  nothing, which \<open>finalizeFile\<close> takes for a missing chunk.
\<close>

theorem acknowledged_chunk_can_be_emptied:
  assumes "chunks_ok (env, st)" and "chunk_name k" and "chunk_get (env, st) k = None"
    and "getChunkPath env k st = (Inr p, st1)"
  shows "let s = run_race (env_host env) p data [1, 0, 0, 0] (race_start (disk st1)); s' = advance (env_host env) p data 1 s in
    writers s 0 = Finished True \<and> fst (getChunk env k (st1\<lparr>disk := race_disk s\<rparr>)) = Inr data \<and>
    fst (getChunk env k (st1\<lparr>disk := race_disk s'\<rparr>)) = Inr []"
proof -
  let ?R = "root_path env st" and ?q = "chunk_place (root_path env st) k" and ?h = "env_host env" and ?fs = "disk st1"
  have "chunk_get (env, st) k \<in> {None, Some data}" using assms(3) by simp
  note start = race_start_ok [OF assms(1,2) this assms(4)]
  have h: "healthy ?h" using assms(1) by (simp add: chunks_ok_def)
  have fs: "?q \<noteq> []" "is_dir ?fs (butlast ?q)" "?fs ?q \<noteq> Some Directory"
    using start(1) by (simp_all add: race_ok_def race_start_def)
  have none: "files_of ?fs ?q = None" using start(3,5) assms(3) by (simp add: chunk_get_def)
  have ex: "\<not> path_exists ?h ?fs p"
    using fs(1,3) none start(2) by (auto simp: path_exists_def Let_def files_of_def split: option.splits node.splits)
  have q: "butlast ?q \<noteq> ?q" using fs(1) by (metis append_butlast_last_id append_self_conv not_Cons_self2)
  have op: "open_out ?h ?fs p = Some (?fs(?q \<mapsto> Regular []))"
    "open_out ?h (?fs(?q \<mapsto> Regular data)) p = Some (?fs(?q \<mapsto> Regular []))"
    using fs q h start(2) by (simp_all add: open_out_def Let_def healthyD is_dir_def)
  have wr: "write_at ?h (?fs(?q \<mapsto> Regular [])) p 0 data = ?fs(?q \<mapsto> Regular data)"
    using start(2) h by (simp add: write_at_def overwrite_front Let_def healthyD)
  define s where "s = run_race ?h p data [1, 0, 0, 0] (race_start ?fs)"
  have s: "s = \<lparr>race_disk = ?fs(?q \<mapsto> Regular data), writers = (\<lambda>_. Asking)(1 := Opening, 0 := Finished True)\<rparr>"
    by (simp add: s_def advance_def race_start_def ex op(1) wr fun_upd_twist)
  have s': "race_disk (advance ?h p data 1 s) = ?fs(?q \<mapsto> Regular [])"
    by (simp add: s advance_def op(2))
  have get: "fst (getChunk env k (st1\<lparr>disk := ?fs(?q \<mapsto> Regular bs)\<rparr>)) = Inr bs" for bs
  proof -
    have "layout_ok ?R (?fs(?q \<mapsto> Regular bs))"
      using start(3,4) by (intro layout_ok_file) (simp_all add: chunks_ok_def chunk_place_def)
    then have "chunks_ok (env, st1\<lparr>disk := ?fs(?q \<mapsto> Regular bs)\<rparr>)"
      using start(3,4) by (simp add: chunks_ok_def)
    from getChunk_view [OF this assms(2)] show ?thesis
      by (simp add: chunk_data_of_def chunk_get_def start(3) files_of_upd)
  qed
  have "writers s 0 = Finished True" by (simp add: s)
  then show ?thesis
    unfolding s_def [symmetric] Let_def s' using get by (simp add: s)
qed

theorem acknowledged_chunk_can_be_emptied_witness:
  "\<exists>st1. getChunkPath plain_env ''abcd'' fresh_server = (Inr ''/srv/chunks/ab/abcd'', st1) \<and>
    (let s = run_race plain_host ''/srv/chunks/ab/abcd'' [1, 2] [1, 0, 0, 0] (race_start (disk st1)) in
      fst (getChunk plain_env ''abcd'' (st1\<lparr>disk := race_disk s\<rparr>)) = Inr [1, 2])"
proof -
  obtain st1 where st1: "getChunkPath plain_env ''abcd'' fresh_server = (Inr ''/srv/chunks/ab/abcd'', st1)"
    using plain_chunk_path by blast
  have "chunk_name ''abcd''" by (simp add: chunk_name_def plain_name_def)
  from acknowledged_chunk_can_be_emptied [OF server_okD(5) [OF fresh_server_ok] this fresh_chunk st1, of "[1, 2]"] st1
  show ?thesis by (auto simp: Let_def)
qed

end
