(* ===== verification/Concurrent_Finalize.thy ===== *)
theory Concurrent_Finalize
  imports Sync_Service
begin

text \<open>
  \<open>finalizeFile\<close> takes no lock either (\<open>src/server/storage_manager.cpp\<close>): two uploads of the same
  contents under the same path, or an upload that is repeated, assemble one file at the same time. Each thread has its own
  stream with its own position; a schedule says whose turn it is. A chunk is taken to reach the file when it is
  written to the stream, and the file is hashed in one step.
\<close>

subsection \<open>The steps of a thread\<close>

datatype finalizer =
    F_Opening
  | F_Copying nat "string list"   \<comment> \<open>the position of the stream and the chunks to come\<close>
  | F_Closed
  | F_Measured int
  | F_Recording file_record
  | F_Thrown
  | F_Done bool

record finalize_race =
  shared :: storage
  finalizers :: "nat \<Rightarrow> finalizer"

definition move :: "nat \<Rightarrow> finalizer \<Rightarrow> storage \<Rightarrow> finalize_race \<Rightarrow> finalize_race" where
  "move t x st s = s\<lparr>shared := st, finalizers := (finalizers s)(t := x)\<rparr>"

definition finalize_step ::
  "'c env \<Rightarrow> (nat \<Rightarrow> int) \<Rightarrow> (nat \<Rightarrow> int) \<Rightarrow> string \<Rightarrow> string \<Rightarrow> string list \<Rightarrow> string \<Rightarrow> nat \<Rightarrow>
   finalize_race \<Rightarrow> finalize_race" where
  "finalize_step env now junk client_id filepath chunk_hashes temp_path t s =
     (let st = shared s; h = env_host env in
      case finalizers s t of
        F_Opening \<Rightarrow>
          (case open_out h (disk st) temp_path of
             None \<Rightarrow> move t (F_Done False) st s
           | Some fs \<Rightarrow> move t (F_Copying 0 chunk_hashes) (st\<lparr>disk := fs\<rparr>) s)
      | F_Copying off [] \<Rightarrow> move t F_Closed st s
      | F_Copying off (hash # hashes) \<Rightarrow>
          (case getChunk env hash st of
             (Inl e, st') \<Rightarrow> move t F_Thrown st' s
           | (Inr chunk_data, st') \<Rightarrow>
               if chunk_data = [] then move t (F_Done False) st' s
               else move t (F_Copying (off + length chunk_data) hashes)
                 (st'\<lparr>disk := write_at h (disk st') temp_path off chunk_data\<rparr>) s)
      | F_Closed \<Rightarrow>
          (case file_size env temp_path st of
             (Inl e, st') \<Rightarrow> move t F_Thrown st' s
           | (Inr n, st') \<Rightarrow> move t (F_Measured n) st' s)
      | F_Measured n \<Rightarrow>
          move t (F_Recording \<lparr>fr_path = filepath, fr_size = n, fr_modified_time = now t,
            fr_hash = sha256File (env_sha env) h (disk st) temp_path, fr_version = 1, fr_is_directory = False,
            fr_deleted = False, fr_last_sync_time = junk t\<rparr>) st s
      | F_Recording r \<Rightarrow>
          (case client_dbs st client_id of
             None \<Rightarrow> move t (F_Done False) st s
           | Some d \<Rightarrow>
               (case insertOrUpdateFile (env_engine env) r d of
                  (ok, d') \<Rightarrow> move t (F_Done ok) (st\<lparr>client_dbs := (client_dbs st)(client_id \<mapsto> d')\<rparr>) s))
      | F_Thrown \<Rightarrow> s
      | F_Done ok \<Rightarrow> s)"

definition run_finalize ::
  "'c env \<Rightarrow> (nat \<Rightarrow> int) \<Rightarrow> (nat \<Rightarrow> int) \<Rightarrow> string \<Rightarrow> string \<Rightarrow> string list \<Rightarrow> string \<Rightarrow> nat list \<Rightarrow>
   finalize_race \<Rightarrow> finalize_race" where
  "run_finalize env now junk i f ks p schedule s = foldl (\<lambda>s t. finalize_step env now junk i f ks p t s) s schedule"

definition finalize_start :: "storage \<Rightarrow> finalize_race" where
  "finalize_start st = \<lparr>shared = st, finalizers = (\<lambda>_. F_Opening)\<rparr>"

lemma run_finalize_simps [simp]:
  "run_finalize env now junk i f ks p [] s = s"
  "run_finalize env now junk i f ks p (t # ts) s =
     run_finalize env now junk i f ks p ts (finalize_step env now junk i f ks p t s)"
  "run_finalize env now junk i f ks p (ts @ us) s =
     run_finalize env now junk i f ks p us (run_finalize env now junk i f ks p ts s)"
  by (simp_all add: run_finalize_def)

lemma move_simps [simp]: "shared (move t x st s) = st" "finalizers (move t x st s) = (finalizers s)(t := x)"
  by (simp_all add: move_def)

subsection \<open>Writing at one's own position\<close>

definition agrees :: "nat \<Rightarrow> bytes \<Rightarrow> bytes \<Rightarrow> bool" where
  "agrees m c data \<longleftrightarrow> m \<le> length c \<and> take m c = take m data"

lemma agrees_all: "agrees (length data) c data \<Longrightarrow> length c \<le> length data \<Longrightarrow> c = data"
  unfolding agrees_def by (metis order_refl take_all)

lemma length_overwrite: "length (overwrite off new old) = max (length old) (off + length new)"
proof -
  have "min (length old + (off - length old)) off = off" by simp
  then show ?thesis unfolding overwrite_def by (simp add: max_def del: take_append)
qed

lemma nth_overwrite:
  "j < length (overwrite off new old) \<Longrightarrow> overwrite off new old ! j =
    (if j < off then (if j < length old then old ! j else 0)
     else if j < off + length new then new ! (j - off) else old ! j)"
proof -
  assume j: "j < length (overwrite off new old)"
  have len: "length (take off (old @ replicate (off - length old) 0)) = off"
    unfolding length_take length_append length_replicate by simp
  show ?thesis
  proof (cases "j < off")
    case True
    then show ?thesis unfolding overwrite_def nth_append len
      by (simp add: nth_append del: take_append)
  next
    case False
    then show ?thesis using j unfolding length_overwrite overwrite_def nth_append [of "take off (old @ replicate (off - length old) 0)"] len
      by (simp add: nth_append) (auto simp: less_max_iff_disj)
  qed
qed

lemma agrees_nth: "m \<le> length data \<Longrightarrow> agrees m c data \<longleftrightarrow> m \<le> length c \<and> (\<forall>j < m. c ! j = data ! j)"
  by (auto simp: agrees_def list_eq_iff_nth_eq)

text \<open>A piece of the data written at its place keeps what was right, and extends it if it starts within it.\<close>

lemma agrees_overwrite:
  assumes "data = us @ new @ vs" and "agrees m c data" and "m \<le> length data"
  shows "agrees m (overwrite (length us) new c) data"
    and "m = length us \<Longrightarrow> agrees (length us + length new) (overwrite (length us) new c) data"
proof -
  have c: "m \<le> length c" "\<forall>j < m. c ! j = data ! j" using assms(2) agrees_nth [OF assms(3)] by auto
  have piece: "data ! j = new ! (j - length us)" if "length us \<le> j" "j < length us + length new" for j
    using that by (simp add: assms(1) nth_append less_diff_conv2)
  show "agrees m (overwrite (length us) new c) data"
    using c piece by (auto simp: agrees_nth [OF assms(3)] length_overwrite nth_overwrite)
  show "agrees (length us + length new) (overwrite (length us) new c) data" if "m = length us"
    using c piece that by (subst agrees_nth) (auto simp: assms(1) length_overwrite nth_overwrite)
qed

subsection \<open>The shared state\<close>

text \<open>
  The place of the file is below the two levels of the layout and is no chunk, so that neither the directories \<open>getChunk\<close>
  makes nor the writes to the file touch what the other needs.
\<close>

definition assembling :: "'c env \<Rightarrow> string \<Rightarrow> path \<Rightarrow> path \<Rightarrow> (string \<Rightarrow> bytes) \<Rightarrow> string list \<Rightarrow> storage \<Rightarrow> bool" where
  "assembling env i R q piece ks st \<longleftrightarrow> chunks_ok (env, st) \<and> root_path env st = R \<and>
     length R + 2 < length q \<and> (\<forall>k. q \<noteq> chunk_place R k) \<and> is_dir (disk st) (butlast q) \<and> disk st q \<noteq> Some Directory \<and>
     (\<forall>k \<in> set ks. chunk_name k \<and> chunk_get (env, st) k = Some (piece k) \<and> piece k \<noteq> []) \<and>
     engine_healthy (env_engine env) \<and> (\<exists>d. client_dbs st i = Some d \<and> db_open d)"

lemma assembling_write:
  assumes "assembling env i R q piece ks st"
  shows "assembling env i R q piece ks (st\<lparr>disk := (disk st)(q \<mapsto> Regular bs)\<rparr>)"
proof -
  have q: "length R + 2 < length q" "\<forall>k. q \<noteq> chunk_place R k" "is_dir (disk st) (butlast q)"
    using assms by (simp_all add: assembling_def)
  have "butlast q \<noteq> q" using q(1) by (cases q rule: rev_cases) auto
  moreover have "layout_ok R ((disk st)(q \<mapsto> Regular bs))"
    using assms q(1) by (intro layout_ok_file) (auto simp: assembling_def chunks_ok_def)
  moreover have "chunk_get (env, st\<lparr>disk := (disk st)(q \<mapsto> Regular bs)\<rparr>) k = chunk_get (env, st) k" for k
    using q(2) assms by (auto simp: chunk_get_def files_of_upd assembling_def)
  ultimately show ?thesis
    using assms by (auto simp: assembling_def chunks_ok_def is_dir_def)
qed

lemma make_directories_keeps:
  "make_directories env s st = (r, st') \<Longrightarrow> disk st p = Some n \<Longrightarrow> disk st' p = Some n"
  by (auto simp: make_directories_def create_directories_keeps split: option.splits)

lemma getChunk_keeps: "getChunk env k st = (r, st') \<Longrightarrow> disk st p = Some n \<Longrightarrow> disk st' p = Some n"
  unfolding getChunk_def getChunkPath_def seq_def ret_def Let_def
  by (auto dest: make_directories_keeps split: prod.splits sum.splits option.splits)

lemma getChunk_assembling:
  assumes "assembling env i R q piece ks st" and "k \<in> set ks"
  shows "\<exists>fs'. getChunk env k st = (Inr (piece k), st\<lparr>disk := fs'\<rparr>) \<and> files_of fs' = files_of (disk st) \<and>
    assembling env i R q piece ks (st\<lparr>disk := fs'\<rparr>)"
proof -
  have st: "chunks_ok (env, st)" "root_path env st = R" "chunk_name k" "chunk_get (env, st) k = Some (piece k)"
    using assms by (simp_all add: assembling_def)
  obtain fs' where g: "getChunk env k st =
      (Inr (case files_of (disk st) (chunk_place R k) of None \<Rightarrow> [] | Some bs \<Rightarrow> bs), st\<lparr>disk := fs'\<rparr>)"
    "files_of fs' = files_of (disk st)" "adds_dirs (disk st) fs' (R @ [''chunks'', take 2 k])" "layout_ok R fs'"
    using getChunk_healthy [of env st k] st by (auto simp: chunks_ok_def)
  then have g': "getChunk env k st = (Inr (piece k), st\<lparr>disk := fs'\<rparr>)"
    using st by (simp add: chunk_get_def)
  have "is_dir fs' (butlast q)"
    using getChunk_keeps [OF g', of "butlast q"] assms(1) by (auto simp: assembling_def is_dir_def)
  moreover have "fs' q \<noteq> Some Directory"
    using adds_dirs_new [OF g(3), of q] assms(1) by (auto simp: assembling_def)
  moreover have "chunk_get (env, st\<lparr>disk := fs'\<rparr>) k' = chunk_get (env, st) k'" for k'
    by (simp add: chunk_get_def g(2))
  ultimately have "assembling env i R q piece ks (st\<lparr>disk := fs'\<rparr>)"
    using assms(1) g(4) by (auto simp: assembling_def chunks_ok_def)
  with g' g(2) show ?thesis by blast
qed

lemma open_assembling:
  assumes "assembling env i R q piece ks st" and "resolve (cwd (env_host env)) p = q"
  shows "open_out (env_host env) (disk st) p = Some ((disk st)(q \<mapsto> Regular []))"
  using assms by (auto simp: assembling_def chunks_ok_def open_out_def Let_def healthyD)

lemma write_assembling:
  assumes "assembling env i R q piece ks st" and "resolve (cwd (env_host env)) p = q" and "files_of (disk st) q = Some c"
  shows "write_at (env_host env) (disk st) p off bs = (disk st)(q \<mapsto> Regular (overwrite off bs c))"
  using assms by (auto simp: assembling_def chunks_ok_def write_at_def Let_def healthyD files_of_Some)

subsection \<open>The file during the race\<close>

text \<open>
  How far a thread has got: the bytes it has put in their place, and the turns it still needs.
\<close>

fun front :: "bytes \<Rightarrow> finalizer \<Rightarrow> nat" where
  "front data (F_Copying off hashes) = off"
| "front data x = length data"

fun turns :: "string list \<Rightarrow> finalizer \<Rightarrow> nat" where
  "turns ks F_Opening = length ks + 5"
| "turns ks (F_Copying off hashes) = length hashes + 4"
| "turns ks F_Closed = 3"
| "turns ks (F_Measured n) = 2"
| "turns ks (F_Recording r) = 1"
| "turns ks x = 0"

fun on_track :: "(string \<Rightarrow> bytes) \<Rightarrow> string list \<Rightarrow> finalizer \<Rightarrow> bool" where
  "on_track piece ks (F_Copying off hashes) \<longleftrightarrow>
     (\<exists>written. ks = written @ hashes \<and> off = length (concat (map piece written)))"
| "on_track piece ks F_Thrown \<longleftrightarrow> False"
| "on_track piece ks (F_Done ok) \<longleftrightarrow> ok"
| "on_track piece ks x \<longleftrightarrow> True"

text \<open>
  Once somebody has opened the file, some thread's part of it is right: the one that truncated it last, at first, and from
  then on nobody writes anything but the right bytes in the right place.
\<close>

definition file_ok :: "path \<Rightarrow> bytes \<Rightarrow> store \<Rightarrow> (nat \<Rightarrow> finalizer) \<Rightarrow> bool" where
  "file_ok q data fs ts \<longleftrightarrow> (\<forall>t. ts t = F_Opening) \<or>
     (\<exists>c t. files_of fs q = Some c \<and> length c \<le> length data \<and> ts t \<noteq> F_Opening \<and> agrees (front data (ts t)) c data)"

definition finalize_ok ::
  "'c env \<Rightarrow> string \<Rightarrow> path \<Rightarrow> path \<Rightarrow> (string \<Rightarrow> bytes) \<Rightarrow> string list \<Rightarrow> finalize_race \<Rightarrow> bool" where
  "finalize_ok env i R q piece ks s \<longleftrightarrow> assembling env i R q piece ks (shared s) \<and>
     (\<forall>t. on_track piece ks (finalizers s t)) \<and> file_ok q (concat (map piece ks)) (disk (shared s)) (finalizers s)"

lemma file_ok_move:
  assumes "file_ok q data fs ts" and "files_of fs' q = files_of fs q"
    and "ts t \<noteq> F_Opening" and "x \<noteq> F_Opening" and "front data x = front data (ts t)"
  shows "file_ok q data fs' (ts(t := x))"
proof -
  from assms(1,3) obtain c t' where c: "files_of fs q = Some c" "length c \<le> length data" "ts t' \<noteq> F_Opening"
    "agrees (front data (ts t')) c data" unfolding file_ok_def by blast
  then have "(ts(t := x)) t' \<noteq> F_Opening" "agrees (front data ((ts(t := x)) t')) c data"
    using assms(4,5) by auto
  with c(1,2) show ?thesis unfolding file_ok_def assms(2) by blast
qed

lemma file_ok_content:
  "file_ok q data fs ts \<Longrightarrow> ts t \<noteq> F_Opening \<Longrightarrow> \<exists>c. files_of fs q = Some c \<and> length c \<le> length data"
  by (auto simp: file_ok_def)

lemma file_ok_write:
  assumes "file_ok q data fs ts" and "files_of fs q = Some c" and "ts t = F_Copying (length us) (k # hashes)"
    and "data = us @ new @ vs"
  shows "file_ok q data (fs(q \<mapsto> Regular (overwrite (length us) new c)))
    (ts(t := F_Copying (length us + length new) hashes))"
proof -
  have "ts t \<noteq> F_Opening" using assms(3) by simp
  then obtain t' where c: "length c \<le> length data" "ts t' \<noteq> F_Opening" "agrees (front data (ts t')) c data"
    using assms(1,2) unfolding file_ok_def by auto
  define x where "x = (ts(t := F_Copying (length us + length new) hashes)) t'"
  have m: "front data (ts t') \<le> length data" using c(1,3) by (auto simp: agrees_def)
  have "agrees (front data x) (overwrite (length us) new c) data"
  proof (cases "t' = t")
    case True
    then show ?thesis using agrees_overwrite(2) [OF assms(4) c(3) m] by (simp add: x_def assms(3))
  next
    case False
    then show ?thesis using agrees_overwrite(1) [OF assms(4) c(3) m] by (simp add: x_def)
  qed
  moreover have "length (overwrite (length us) new c) \<le> length data"
    using c(1) by (simp add: length_overwrite assms(4))
  moreover have "x \<noteq> F_Opening" using c(2) by (simp add: x_def)
  ultimately show ?thesis unfolding file_ok_def x_def files_of_upd
    by (intro disjI2 exI [of _ "overwrite (length us) new c"] exI [of _ t']) simp
qed

lemma finalize_ok_move:
  assumes "finalize_ok env i R q piece ks s"
    and "assembling env i R q piece ks st" and "files_of (disk st) q = files_of (disk (shared s)) q"
    and "finalizers s t \<noteq> F_Opening" and "x \<noteq> F_Opening" and "on_track piece ks x"
    and "front (concat (map piece ks)) x = front (concat (map piece ks)) (finalizers s t)"
  shows "finalize_ok env i R q piece ks (move t x st s)"
  using assms file_ok_move [of q _ _ "finalizers s" "disk st" t x] by (auto simp: finalize_ok_def)

lemma copy_step_ok:
  assumes ok: "finalize_ok env i R q piece ks s" and q: "resolve (cwd (env_host env)) p = q"
    and t: "finalizers s t = F_Copying off (k # rest)"
  shows "\<exists>st'. finalize_step env now junk i f ks p t s = move t (F_Copying (off + length (piece k)) rest) st' s \<and>
    finalize_ok env i R q piece ks (move t (F_Copying (off + length (piece k)) rest) st' s)"
proof -
  let ?data = "concat (map piece ks)" and ?x = "F_Copying (off + length (piece k)) rest"
  have st: "assembling env i R q piece ks (shared s)" and track: "on_track piece ks (finalizers s t)"
    and held: "file_ok q ?data (disk (shared s)) (finalizers s)"
    using ok by (simp_all add: finalize_ok_def)
  obtain written where w: "ks = written @ k # rest" "off = length (concat (map piece written))"
    using track t by auto
  then have k: "k \<in> set ks" by simp
  obtain fs where g: "getChunk env k (shared s) = (Inr (piece k), (shared s)\<lparr>disk := fs\<rparr>)"
    "files_of fs = files_of (disk (shared s))" "assembling env i R q piece ks ((shared s)\<lparr>disk := fs\<rparr>)"
    using getChunk_assembling [OF st k] by blast
  obtain c where c: "files_of fs q = Some c" using file_ok_content [OF held] t g(2) by force
  have ne: "piece k \<noteq> []" using st k by (simp add: assembling_def)
  let ?fs = "fs(q \<mapsto> Regular (overwrite off (piece k) c))"
  have step: "finalize_step env now junk i f ks p t s = move t ?x ((shared s)\<lparr>disk := ?fs\<rparr>) s"
    using t g(1) ne write_assembling [OF g(3) q] c by (simp add: finalize_step_def Let_def)
  have "file_ok q ?data fs (finalizers s)" using held by (simp add: file_ok_def g(2))
  from file_ok_write [OF this c, of t "concat (map piece written)"]
  have "file_ok q ?data ?fs ((finalizers s)(t := ?x))" using t w by simp
  moreover have "on_track piece ks ?x" using w by (auto intro!: exI [of _ "written @ [k]"])
  moreover have "assembling env i R q piece ks ((shared s)\<lparr>disk := ?fs\<rparr>)"
    using assembling_write [OF g(3), of "overwrite off (piece k) c"] by simp
  ultimately have "finalize_ok env i R q piece ks (move t ?x ((shared s)\<lparr>disk := ?fs\<rparr>) s)"
    using ok by (simp add: finalize_ok_def)
  with step show ?thesis by blast
qed

lemma finalize_step_ok:
  fixes now junk f t
  assumes ok: "finalize_ok env i R q piece ks s" and q: "resolve (cwd (env_host env)) p = q"
  defines "s' \<equiv> finalize_step env now junk i f ks p t s"
  shows "finalize_ok env i R q piece ks s'"
    and "turns ks (finalizers s' t) = turns ks (finalizers s t) - 1"
    and "t' \<noteq> t \<Longrightarrow> finalizers s' t' = finalizers s t'"
proof -
  let ?data = "concat (map piece ks)"
  have st: "assembling env i R q piece ks (shared s)" and track: "on_track piece ks (finalizers s t)"
    and held: "file_ok q ?data (disk (shared s)) (finalizers s)"
    using ok by (simp_all add: finalize_ok_def)
  have keep: "finalize_ok env i R q piece ks (move t x (shared s) s)"
    if "finalizers s t \<noteq> F_Opening" "x \<noteq> F_Opening" "on_track piece ks x" "front ?data x = front ?data (finalizers s t)" for x
    using finalize_ok_move [OF ok st refl that] .
  have "finalize_ok env i R q piece ks s' \<and> turns ks (finalizers s' t) = turns ks (finalizers s t) - 1 \<and>
    (t' \<noteq> t \<longrightarrow> finalizers s' t' = finalizers s t')"
  proof (cases "finalizers s t")
    case F_Opening
    let ?st = "(shared s)\<lparr>disk := (disk (shared s))(q \<mapsto> Regular [])\<rparr>"
    have s': "s' = move t (F_Copying 0 ks) ?st s"
      using F_Opening open_assembling [OF st q] by (simp add: s'_def finalize_step_def Let_def)
    have "file_ok q ?data (disk ?st) ((finalizers s)(t := F_Copying 0 ks))"
      unfolding file_ok_def by (intro disjI2 exI [of _ "[]"] exI [of _ t]) (simp add: files_of_upd agrees_def)
    then show ?thesis using ok assembling_write [OF st] F_Opening by (simp add: s' finalize_ok_def)
  next
    case (F_Copying off hashes)
    show ?thesis
    proof (cases hashes)
      case Nil
      then have "s' = move t F_Closed (shared s) s" using F_Copying by (simp add: s'_def finalize_step_def Let_def)
      then show ?thesis using keep [of F_Closed] track F_Copying Nil by auto
    next
      case (Cons k rest)
      then show ?thesis
        using copy_step_ok [OF ok q F_Copying [unfolded Cons], of now junk f] F_Copying by (auto simp: s'_def)
    qed
  next
    case F_Closed
    then obtain c where "files_of (disk (shared s)) q = Some c" using file_ok_content [OF held] by force
    then have "s' = move t (F_Measured (int (length c))) (shared s) s"
      using F_Closed by (simp add: s'_def finalize_step_def Let_def file_size_def q files_of_Some)
    then show ?thesis using keep [of "F_Measured (int (length c))"] F_Closed by simp
  next
    case (F_Measured n)
    obtain r where "s' = move t (F_Recording r) (shared s) s"
      using F_Measured by (simp add: s'_def finalize_step_def Let_def)
    then show ?thesis using keep [of "F_Recording r"] F_Measured by simp
  next
    case (F_Recording r)
    obtain d where d: "client_dbs (shared s) i = Some d" "db_open d" "engine_healthy (env_engine env)"
      using st by (auto simp: assembling_def)
    let ?d = "d\<lparr>tables := sql_effect (Insert_File (bind_file r)) (tables d)\<rparr>"
    let ?st = "(shared s)\<lparr>client_dbs := (client_dbs (shared s))(i \<mapsto> ?d)\<rparr>"
    have s': "s' = move t (F_Done True) ?st s"
      using F_Recording d by (simp add: s'_def finalize_step_def Let_def insertOrUpdateFile_def run_write_healthy)
    have "assembling env i R q piece ks ?st"
      using st d(2) by (auto simp: assembling_def chunks_ok_def chunk_get_def)
    then show ?thesis using finalize_ok_move [OF ok, of ?st t "F_Done True"] F_Recording by (simp add: s')
  qed (use track ok in \<open>simp_all add: s'_def finalize_step_def Let_def\<close>)
  then show "finalize_ok env i R q piece ks s'" and "turns ks (finalizers s' t) = turns ks (finalizers s t) - 1"
    and "t' \<noteq> t \<Longrightarrow> finalizers s' t' = finalizers s t'" by simp_all
qed

lemma run_finalize_ok:
  assumes "resolve (cwd (env_host env)) p = q"
  shows "finalize_ok env i R q piece ks s \<Longrightarrow>
    finalize_ok env i R q piece ks (run_finalize env now junk i f ks p ts s) \<and>
    turns ks (finalizers (run_finalize env now junk i f ks p ts s) t) = turns ks (finalizers s t) - count_list ts t"
proof (induction ts arbitrary: s)
  case Nil
  then show ?case by simp
next
  case (Cons u ts)
  let ?s = "finalize_step env now junk i f ks p u s"
  note step = finalize_step_ok [OF Cons.prems assms, where now = now and junk = junk and f = f and t = u]
  have "turns ks (finalizers ?s t) = turns ks (finalizers s t) - (if u = t then 1 else 0)"
    using step(2) step(3) [of t] by auto
  then show ?case using Cons.IH [OF step(1)] by simp
qed

lemma count_list_replicate [simp]: "count_list (replicate n x) y = (if x = y then n else 0)"
  by (induction n) auto

lemma turns_3: "turns ks x = 3 \<Longrightarrow> x = F_Closed"
  by (cases x) auto

lemma turns_0: "turns ks x = 0 \<Longrightarrow> on_track piece ks x \<Longrightarrow> x = F_Done True"
  by (cases x) auto

lemma finalize_start_ok:
  "assembling env i R q piece ks st \<Longrightarrow> finalize_ok env i R q piece ks (finalize_start st)"
  by (simp add: finalize_ok_def finalize_start_def file_ok_def)

lemma finalize_others:
  "finalize_ok env i R q piece ks s \<Longrightarrow> resolve (cwd (env_host env)) p = q \<Longrightarrow> t \<notin> set ts \<Longrightarrow>
   finalizers (run_finalize env now junk i f ks p ts s) t = finalizers s t"
proof (induction ts arbitrary: s)
  case Nil
  then show ?case by simp
next
  case (Cons u ts)
  note step = finalize_step_ok [OF Cons.prems(1,2), where now = now and junk = junk and f = f and t = u]
  from Cons.IH [OF step(1) Cons.prems(2)] show ?case using step(3) [of t] Cons.prems(3) by simp
qed

subsection \<open>The race starts where \<open>finalizeFile\<close> starts assembling\<close>

lemma finalizeFile_assembling:
  assumes ok: "server_ok env st" and i: "plain_name i" and f: "safe_path f"
    and place: "file_place_ok (root_path env st) i f (disk st)"
    and ks: "ks = getFileChunks (env_engine env) f (client_view env st i)" and n_chunks: "to_size_t n_chunks = length ks"
    and names: "\<forall>k \<in> set ks. chunk_name k \<and> usable (env, st) k"
  shows "\<exists>p st1. (\<forall>now junk. finalizeFile env now junk i f n_chunks st = assemble_file env now junk i f ks (client_view env st i) p st1) \<and>
    resolve (cwd (env_host env)) p = client_place (root_path env st) i f \<and> client_dbs st1 i = Some (client_view env st i) \<and>
    root_path env st1 = root_path env st \<and>
    assembling env i (root_path env st) (client_place (root_path env st) i f) (chunk_data_of (env, st)) ks st1"
proof -
  let ?R = "root_path env st" and ?T = "client_place (root_path env st) i f" and ?d = "client_view env st i"
  obtain t fs' where p: "\<And>now junk. finalizeFile env now junk i f n_chunks st = assemble_file env now junk i f ks ?d t
      (st\<lparr>disk := fs', client_dbs := (client_dbs st)(i \<mapsto> ?d)\<rparr>)"
    "resolve (cwd (env_host env)) t = ?T" "files_of fs' = files_of (disk st)" "layout_ok ?R fs'"
    "open_out (env_host env) fs' t = Some (fs'(?T \<mapsto> Regular []))"
    using finalizeFile_prepares [OF ok i f place ks n_chunks] by blast
  define st1 where "st1 = st\<lparr>disk := fs', client_dbs := (client_dbs st)(i \<mapsto> ?d)\<rparr>"
  have st1: "disk st1 = fs'" "root_path env st1 = ?R" "client_dbs st1 i = Some ?d" "storage_root st1 = storage_root st"
    by (simp_all add: st1_def)
  have get: "chunk_get (env, st1) k = chunk_get (env, st) k" for k by (simp add: chunk_get_def st1 p(3))
  have "chunk_get (env, st) k = Some (chunk_data_of (env, st) k) \<and> chunk_data_of (env, st) k \<noteq> []" if "k \<in> set ks" for k
    using names that by (auto simp: usable_def chunk_data_of_def)
  moreover have "is_dir fs' (butlast ?T)" "fs' ?T \<noteq> Some Directory"
    using p(5) by (auto simp: open_out_def p(2) Let_def split: if_splits)
  ultimately have "assembling env i ?R ?T (chunk_data_of (env, st)) ks st1"
    using server_okD [OF ok] names client_view_ok [OF ok] client_place_deep [of ?R i f] client_place_not_chunk [of ?R i f] p(4)
    by (simp add: assembling_def chunks_ok_def st1 get)
  then show ?thesis using p(1,2) st1 unfolding st1_def by blast
qed

text \<open>A thread that is not disturbed does what \<open>assemble_file\<close> does.\<close>

lemma copying_alone:
  assumes "resolve (cwd (env_host env)) p = q"
  shows "set hs \<subseteq> set ks \<Longrightarrow> assembling env i R q piece ks (shared s) \<Longrightarrow> files_of (disk (shared s)) q = Some c \<Longrightarrow>
    finalizers s t = F_Copying (length c) hs \<Longrightarrow>
    \<exists>st' n c'. copy_chunks env p hs (shared s) = (Inr True, st') \<and>
      run_finalize env now junk i f ks p (replicate (length hs) t) s = move t (F_Copying n []) st' s \<and>
      assembling env i R q piece ks st' \<and> files_of (disk st') q = Some c' \<and> client_dbs st' = client_dbs (shared s)"
proof (induction hs arbitrary: s c)
  case Nil
  then have "move t (F_Copying (length c) []) (shared s) s = s" by (simp add: move_def fun_upd_idem)
  then show ?case using Nil by (auto simp: ret_def intro!: exI [of _ "length c"])
next
  case (Cons k hs)
  have k: "k \<in> set ks" using Cons.prems(1) by simp
  obtain fs where g: "getChunk env k (shared s) = (Inr (piece k), (shared s)\<lparr>disk := fs\<rparr>)"
    "files_of fs = files_of (disk (shared s))" "assembling env i R q piece ks ((shared s)\<lparr>disk := fs\<rparr>)"
    using getChunk_assembling [OF Cons.prems(2) k] by blast
  have c: "files_of fs q = Some c" and ne: "piece k \<noteq> []" and h: "healthy (env_host env)"
    using g(2) Cons.prems(2,3) k by (simp_all add: assembling_def chunks_ok_def)
  let ?st = "(shared s)\<lparr>disk := fs(q \<mapsto> Regular (c @ piece k))\<rparr>"
  define s1 where "s1 = move t (F_Copying (length (c @ piece k)) hs) ?st s"
  have wr: "write_temp env p (piece k) ((shared s)\<lparr>disk := fs\<rparr>) = (Inr (), ?st)"
    using c assms h by (simp add: write_temp_def stream_write_def Let_def files_of_Some healthyD)
  have step: "finalize_step env now junk i f ks p t s = s1"
    using Cons.prems(4) g ne write_assembling [OF g(3) assms] c
    by (simp add: s1_def finalize_step_def Let_def overwrite_end)
  have s1: "assembling env i R q piece ks (shared s1)" "files_of (disk (shared s1)) q = Some (c @ piece k)"
    "finalizers s1 t = F_Copying (length (c @ piece k)) hs"
    using assembling_write [OF g(3), of "c @ piece k"] by (simp_all add: s1_def files_of_upd)
  from Cons.IH [OF _ s1] Cons.prems(1) obtain st' n c' where
    run: "copy_chunks env p hs (shared s1) = (Inr True, st')"
    "run_finalize env now junk i f ks p (replicate (length hs) t) s1 = move t (F_Copying n []) st' s1"
    "assembling env i R q piece ks st'" "files_of (disk st') q = Some c'" "client_dbs st' = client_dbs (shared s1)" by auto
  moreover have "copy_chunks env p (k # hs) (shared s) = copy_chunks env p hs (shared s1)"
    using ne by (simp add: seq_def g(1) wr s1_def)
  moreover have "move t (F_Copying n []) st' s1 = move t (F_Copying n []) st' s" by (simp add: s1_def move_def)
  ultimately show ?case by (auto simp: step) (simp add: s1_def)
qed

lemma undisturbed_finalizer:
  assumes st: "assembling env i R q piece ks st" and q: "resolve (cwd (env_host env)) p = q"
    and d: "client_dbs st i = Some d"
  shows "let s = run_finalize env now junk i f ks p (replicate (length ks + 5) t) (finalize_start st) in
    finalizers s t = F_Done True \<and>
    assemble_file env (now t) (junk t) i f ks d p st = (Inr True, shared s)"
proof -
  let ?run = "run_finalize env now junk i f ks p" and ?st1 = "st\<lparr>disk := (disk st)(q \<mapsto> Regular [])\<rparr>"
  let ?s1 = "move t (F_Copying 0 ks) ?st1 (finalize_start st)"
  have start: "?run [t] (finalize_start st) = ?s1"
    using open_assembling [OF st q] by (simp add: finalize_start_def finalize_step_def Let_def)
  obtain st' n c where copy: "copy_chunks env p ks ?st1 = (Inr True, st')"
    "?run (replicate (length ks) t) ?s1 = move t (F_Copying n []) st' ?s1"
    "assembling env i R q piece ks st'" "files_of (disk st') q = Some c" "client_dbs st' = client_dbs st"
    using copying_alone [OF q subset_refl [of "set ks"], of i R piece ?s1 "[]" t now junk f] assembling_write [OF st, of "[]"]
    by (auto simp: files_of_upd)
  have eng: "engine_healthy (env_engine env)" "db_open d" using st d by (auto simp: assembling_def)
  have size: "file_size env p st' = (Inr (int (length c)), st')"
    using copy(4) by (simp add: file_size_def q files_of_Some)
  have split: "replicate (length ks + 5) t = [t] @ replicate (length ks) t @ [t, t, t, t]"
    using replicate_add [of "Suc (length ks)" 4 t] by (simp add: numeral_eq_Suc)
  have run: "?run (replicate (length ks + 5) t) (finalize_start st) = ?run [t, t, t, t] (move t (F_Copying n []) st' ?s1)"
    unfolding split run_finalize_simps(3) start copy(2) ..
  show ?thesis
    unfolding run Let_def using copy(1,5) eng size d open_assembling [OF st q]
    by (simp add: finalize_step_def Let_def assemble_file_def store_record_def seq_def ret_def put_client_db_def
        insertOrUpdateFile_def run_write_healthy)
qed

subsection \<open>Properties\<close>

lemma file_ok_finished:
  assumes "file_ok q data fs ts" and "ts t \<noteq> F_Opening"
    and "\<And>u. ts u \<noteq> F_Opening \<Longrightarrow> front data (ts u) = length data"
  shows "files_of fs q = Some data"
  using assms agrees_all [of data] unfolding file_ok_def by metis

lemma finalize_converges:
  fixes now junk f
  assumes "assembling env i R q piece ks st" and "resolve (cwd (env_host env)) p = q"
    and "schedule \<noteq> []" and "\<forall>t \<in> set schedule. length ks + 5 \<le> count_list schedule t"
  defines "s \<equiv> run_finalize env now junk i f ks p schedule (finalize_start st)"
  shows "t \<in> set schedule \<Longrightarrow> finalizers s t = F_Done True"
    and "files_of (disk (shared s)) q = Some (concat (map piece ks))"
proof -
  note run = run_finalize_ok [OF assms(2) finalize_start_ok [OF assms(1)], of now junk f schedule, folded s_def]
  have ok: "finalize_ok env i R q piece ks s" using run by blast
  then have track: "on_track piece ks (finalizers s t)" for t by (simp add: finalize_ok_def)
  have fin: "finalizers s t = F_Done True" if "t \<in> set schedule" for t
    using run [of t] turns_0 [OF _ track] assms(4) that by (simp add: finalize_start_def)
  have idle: "finalizers s t = F_Opening" if "t \<notin> set schedule" for t
    using finalize_others [OF finalize_start_ok [OF assms(1)] assms(2) that, of now junk f]
    by (simp add: s_def) (simp add: finalize_start_def)
  let ?data = "concat (map piece ks)"
  have done_all: "front ?data (finalizers s u) = length ?data" if "finalizers s u \<noteq> F_Opening" for u
    using that fin [of u] idle [of u] by (cases "u \<in> set schedule") auto
  have "hd schedule \<in> set schedule" using assms(3) by simp
  then show "files_of (disk (shared s)) q = Some ?data"
    using ok fin by (intro file_ok_finished [OF _ _ done_all, where t = "hd schedule"]) (auto simp: finalize_ok_def)
  show "t \<in> set schedule \<Longrightarrow> finalizers s t = F_Done True" by (rule fin)
qed

text \<open>C16: 
  Any number of threads may assemble the file from the same chunks, in any order of their steps. If each gets
  its turns, one for each chunk and five more, then every one answers true and the file holds exactly the chunks.
\<close>

theorem concurrent_finalize_converges:
  assumes "server_ok env st" and "plain_name i" and "safe_path f" and "file_place_ok (root_path env st) i f (disk st)"
    and "ks = getFileChunks (env_engine env) f (client_view env st i)" and "to_size_t n_chunks = length ks"
    and "\<forall>k \<in> set ks. chunk_name k \<and> usable (env, st) k"
    and "schedule \<noteq> []" and "\<forall>t \<in> set schedule. length ks + 5 \<le> count_list schedule t"
  shows "\<exists>p st1. (\<forall>now junk. finalizeFile env now junk i f n_chunks st = assemble_file env now junk i f ks (client_view env st i) p st1) \<and>
    (let s = run_finalize env now junk i f ks p schedule (finalize_start st1) in
      (\<forall>t \<in> set schedule. finalizers s t = F_Done True) \<and>
      files_of (disk (shared s)) (client_place (root_path env st) i f) = Some (concat (map (chunk_data_of (env, st)) ks)))"
proof -
  obtain p st1 where p: "\<forall>now junk. finalizeFile env now junk i f n_chunks st = assemble_file env now junk i f ks (client_view env st i) p st1"
    "resolve (cwd (env_host env)) p = client_place (root_path env st) i f"
    "assembling env i (root_path env st) (client_place (root_path env st) i f) (chunk_data_of (env, st)) ks st1"
    using finalizeFile_assembling [OF assms(1-7)] by blast
  show ?thesis
    using p(1) finalize_converges [OF p(3,2) assms(8,9), where now = now and junk = junk and f = f]
    by (intro exI [of _ p] exI [of _ st1]) (simp add: Let_def)
qed

lemma finalize_overtaken:
  fixes now junk f
  assumes st: "assembling env i R q piece ks st" and q: "resolve (cwd (env_host env)) p = q"
    and sha: "sha_documented (env_sha env)" and ab: "a \<noteq> b"
  defines "s \<equiv> run_finalize env now junk i f ks p (replicate (length ks + 2) a @ [b, a, a] @ replicate (length ks + 4) b) (finalize_start st)"
  shows "finalize_ok env i R q piece ks s" and "finalizers s a = F_Recording (final_record env (now a) (junk a) f [])"
    and "finalizers s b = F_Done True" and "files_of (disk (shared s)) q = Some (concat (map piece ks))"
proof -
  let ?run = "run_finalize env now junk i f ks p" and ?data = "concat (map piece ks)"
  note inv = run_finalize_ok [OF q, of i R piece ks _ now junk f] and start = finalize_start_ok [OF st]
  define s1 where "s1 = ?run (replicate (length ks + 2) a) (finalize_start st)"
  have s1: "finalize_ok env i R q piece ks s1" "turns ks (finalizers s1 a) = 3" "finalizers s1 b = F_Opening"
    using inv [OF start, of "replicate (length ks + 2) a" a]
      finalize_others [OF start q, of b "replicate (length ks + 2) a" now junk f] ab
    unfolding s1_def [symmetric] by (simp_all add: finalize_start_def)
  have hash: "sha256File (env_sha env) (env_host env) fs p = sha256 (env_sha env) []" if "files_of fs q = Some []" for fs
    using that st by (simp add: sha256File_eq [OF sha] read_file_healthy q assembling_def chunks_ok_def)
  define s2 where "s2 = ?run [b, a, a] s1"
  have s2: "finalize_ok env i R q piece ks s2" "turns ks (finalizers s2 b) = length ks + 4"
    using inv [OF s1(1), of "[b, a, a]" b] s1(3) ab unfolding s2_def [symmetric] by simp_all
  have rec: "finalizers s2 a = F_Recording (final_record env (now a) (junk a) f [])"
    using turns_3 [OF s1(2)] s1(3) ab open_assembling [OF _ q, of i R piece ks "shared s1"] s1(1)
    by (simp add: s2_def finalize_step_def Let_def finalize_ok_def file_size_def q final_record_def hash files_of_upd)
  have s: "s = ?run (replicate (length ks + 4) b) s2" by (simp add: s_def s2_def s1_def)
  have s3: "finalize_ok env i R q piece ks s" "finalizers s b = F_Done True" "finalizers s a = finalizers s2 a"
    using inv [OF s2(1), of "replicate (length ks + 4) b" b] s2(2) turns_0 [of ks "finalizers s b" piece]
      finalize_others [OF s2(1) q, of a "replicate (length ks + 4) b" now junk f] ab
    unfolding s [symmetric] by (auto simp: finalize_ok_def)
  then show "finalize_ok env i R q piece ks s" "finalizers s b = F_Done True"
    "finalizers s a = F_Recording (final_record env (now a) (junk a) f [])" by (simp_all add: rec)
  have "finalizers s u = F_Opening" if "u \<noteq> a" "u \<noteq> b" for u
    unfolding s_def by (subst finalize_others [OF start q]) (use that in \<open>auto simp: finalize_start_def\<close>)
  then have done_all: "front ?data (finalizers s u) = length ?data" if "finalizers s u \<noteq> F_Opening" for u
    using that s3(2,3) rec by (cases "u = a"; cases "u = b") auto
  show "files_of (disk (shared s)) q = Some ?data"
    using s3(1,2) by (intro file_ok_finished [OF _ _ done_all, where t = b]) (auto simp: finalize_ok_def)
qed

text \<open>C33: 
  The record is another matter: it is put together from the file in several steps. A thread that measures and hashes
  the file while another has just truncated it, and whose insertion comes last, leaves the complete file
  with the record of an empty one, after both have answered true.
\<close>

theorem finalize_race_records_wrong_hash:
  assumes "server_ok env st" and "sha_documented (env_sha env)" and "plain_name i" and "safe_path f" and "CHR 0x00 \<notin> set f"
    and "file_place_ok (root_path env st) i f (disk st)"
    and "ks = getFileChunks (env_engine env) f (client_view env st i)" and "to_size_t n_chunks = length ks"
    and "\<forall>k \<in> set ks. chunk_name k \<and> usable (env, st) k" and "a \<noteq> b"
    and "schedule = (replicate (length ks + 2) a @ [b, a, a] @ replicate (length ks + 4) b) @ [a]"
  shows "\<exists>p st1. (\<forall>now junk. finalizeFile env now junk i f n_chunks st = assemble_file env now junk i f ks (client_view env st i) p st1) \<and>
    (let s = run_finalize env now junk i f ks p schedule (finalize_start st1) in
      finalizers s a = F_Done True \<and> finalizers s b = F_Done True \<and>
      files_of (disk (shared s)) (client_place (root_path env st) i f) = Some (concat (map (chunk_data_of (env, st)) ks)) \<and>
      fst (getFileMetadata env i f (shared s)) = Inr (Some (final_record env (now a) (junk a) f [])))"
proof -
  let ?R = "root_path env st" and ?q = "client_place (root_path env st) i f" and ?piece = "chunk_data_of (env, st)"
  let ?r = "final_record env (now a) (junk a) f []"
  obtain p st1 where p: "\<forall>now junk. finalizeFile env now junk i f n_chunks st = assemble_file env now junk i f ks (client_view env st i) p st1"
    "resolve (cwd (env_host env)) p = ?q" "assembling env i ?R ?q ?piece ks st1"
    using finalizeFile_assembling [OF assms(1,3,4,6-9)] by blast
  define s where "s = run_finalize env now junk i f ks p (replicate (length ks + 2) a @ [b, a, a] @ replicate (length ks + 4) b) (finalize_start st1)"
  note s = finalize_overtaken [OF p(3,2) assms(2,10), of now junk f, folded s_def]
  obtain d where d: "client_dbs (shared s) i = Some d" "db_open d" "engine_healthy (env_engine env)"
    using s(1) by (auto simp: finalize_ok_def assembling_def)
  obtain d' where ins: "insertOrUpdateFile (env_engine env) ?r d = (True, d')"
    using d(2,3) by (simp add: insertOrUpdateFile_def run_write_healthy)
  then have get: "getFile (env_engine env) f d' = Some ?r"
    using getFile_insert(2) [OF d(3,2) final_record_storable [OF assms(5), of env "now a" "junk a" "[]"]]
    by (simp add: final_record_def)
  have "run_finalize env now junk i f ks p schedule (finalize_start st1) =
      move a (F_Done True) ((shared s)\<lparr>client_dbs := (client_dbs (shared s))(i \<mapsto> d')\<rparr>) s"
    unfolding assms(11) run_finalize_simps(3) [of _ _ _ _ _ _ _ "_ @ _" "[a]"] s_def [symmetric]
    using s(2) d(1) ins by (simp add: finalize_step_def Let_def)
  then show ?thesis
    using p(1) s(3,4) get assms(10)
    by (intro exI [of _ p] exI [of _ st1]) (simp add: Let_def getFileMetadata_def seq_def getClientDB_def ret_def)
qed

subsection \<open>Witnesses\<close>

text \<open>A server with one chunk on disk and its row in the database of every client.\<close>

definition one_chunk_server :: storage where
  "one_chunk_server = StorageManager ''/srv'' [[''srv'', ''chunks'', ''ab'', ''abcd''] \<mapsto> Regular [1, 2]]"

definition one_chunk_env :: "bytes env" where
  "one_chunk_env = plain_env\<lparr>env_engine := missing_engine\<rparr>"

lemma one_chunk_env_simps:
  "env_host one_chunk_env = plain_host" "env_engine one_chunk_env = missing_engine" "env_sha one_chunk_env = toy_sha"
  by (simp_all add: one_chunk_env_def)

lemma one_chunk_server_simps:
  "storage_root one_chunk_server = ''/srv''" "client_dbs one_chunk_server i = None" "root_path env one_chunk_server = [''srv'']"
  "disk one_chunk_server q \<noteq> Some Directory"
  "files_of (disk one_chunk_server) q = (if q = [''srv'', ''chunks'', ''ab'', ''abcd''] then Some [1, 2] else None)"
  by (simp_all add: one_chunk_server_def StorageManager_def root_path_def resolve_def files_of_def)

lemma one_chunk_server_ok: "server_ok one_chunk_env one_chunk_server"
proof -
  have "take n [''srv''] \<noteq> [''srv'', ''chunks'', ''ab'', ''abcd'']" for n
  proof
    assume "take n [''srv''] = [''srv'', ''chunks'', ''ab'', ''abcd'']"
    from arg_cong [OF this, of length] show False by simp
  qed
  then show ?thesis
    by (simp add: server_ok_def plain_host_healthy missing_engine_healthy layout_ok_def one_chunk_server_simps one_chunk_env_simps)
      (simp add: missing_engine_def plain_engine_def keys_unique_def empty_database_def)
qed

lemma one_chunk_facts:
  "[''abcd''] = getFileChunks (env_engine one_chunk_env) ''f'' (client_view one_chunk_env one_chunk_server ''al'')"
  "sha_documented (env_sha one_chunk_env)" "plain_name ''al''" "safe_path ''f''" "CHR 0x00 \<notin> set ''f''"
  "file_place_ok (root_path one_chunk_env one_chunk_server) ''al'' ''f'' (disk one_chunk_server)"
  "to_size_t 1 = length [''abcd'']"
  "chunk_get (one_chunk_env, one_chunk_server) ''abcd'' = Some [1, 2]"
  by (simp_all add: one_chunk_env_simps one_chunk_server_simps getFileChunks_def run_select_def client_view_def initialize_def
      executeSQL_def missing_engine_def plain_engine_def MetadataDB_def c_str_def empty_database_def toy_sha_documented
      plain_name_def safe_path_def file_place_ok_def to_size_t_def chunk_get_def chunk_place_def)

lemma one_chunk_usable: "\<forall>k \<in> set [''abcd'']. chunk_name k \<and> usable (one_chunk_env, one_chunk_server) k"
  by (simp add: usable_def one_chunk_facts(8) chunk_name_def plain_name_def)

theorem concurrent_finalize_converges_witness:
  "\<exists>p st1. let s = run_finalize one_chunk_env (\<lambda>t. 9) (\<lambda>t. 0) ''al'' ''f'' [''abcd''] p
      [0, 1, 0, 1, 1, 1, 0, 0, 0, 0, 1, 1] (finalize_start st1) in
    finalizers s 0 = F_Done True \<and> finalizers s 1 = F_Done True \<and>
    files_of (disk (shared s)) [''srv'', ''clients'', ''al'', ''f''] = Some [1, 2]"
proof -
  have data: "chunk_data_of (one_chunk_env, one_chunk_server) ''abcd'' = [1, 2]"
    by (rule chunk_data_Some [OF one_chunk_facts(8)])
  have turn: "[0, 1, 0, 1, 1, 1, 0, 0, 0, 0, 1, 1] \<noteq> ([] :: nat list)"
    "\<forall>t \<in> set [0, 1, 0, 1, 1, 1, 0, 0, 0, 0, 1, 1 :: nat]. length [''abcd''] + 5 \<le> count_list [0, 1, 0, 1, 1, 1, 0, 0, 0, 0, 1, 1] t"
    by simp_all
  from concurrent_finalize_converges [OF one_chunk_server_ok one_chunk_facts(3,4,6,1,7) one_chunk_usable turn,
      of "\<lambda>t. 9" "\<lambda>t. 0"]
  show ?thesis by (auto simp: Let_def client_place_def one_chunk_server_simps data simp del: run_finalize_simps)
qed

theorem finalize_race_records_wrong_hash_witness:
  "\<exists>p st1. let s = run_finalize one_chunk_env (\<lambda>t. 9) (\<lambda>t. 0) ''al'' ''f'' [''abcd''] p
      [0, 0, 0, 1, 0, 0, 1, 1, 1, 1, 1, 0] (finalize_start st1) in
    files_of (disk (shared s)) [''srv'', ''clients'', ''al'', ''f''] = Some [1, 2] \<and>
    fst (getFileMetadata one_chunk_env ''al'' ''f'' (shared s)) = Inr (Some (final_record one_chunk_env 9 0 ''f'' []))"
proof -
  have data: "chunk_data_of (one_chunk_env, one_chunk_server) ''abcd'' = [1, 2]"
    by (rule chunk_data_Some [OF one_chunk_facts(8)])
  have turn: "(0::nat) \<noteq> 1" "[0, 0, 0, 1, 0, 0, 1, 1, 1, 1, 1, 0] =
      (replicate (length [''abcd''] + 2) 0 @ [1, 0, 0] @ replicate (length [''abcd''] + 4) 1) @ [0::nat]"
    by (simp_all add: numeral_eq_Suc)
  from finalize_race_records_wrong_hash [OF one_chunk_server_ok one_chunk_facts(2-6,1,7) one_chunk_usable turn,
      of "\<lambda>t. 9" "\<lambda>t. 0"]
  show ?thesis by (auto simp: Let_def client_place_def one_chunk_server_simps data simp del: run_finalize_simps)
qed

end
