(* ===== verification/Rate_Limiter.thy ===== *)
theory Rate_Limiter
  imports Lite_Prelude
begin

text \<open>
  \<open>include/common/rate_limiter.h\<close> and \<open>src/common/rate_limiter.cpp\<close>: the token bucket.

  A \<open>double\<close> is a real number, and every operation on doubles, as well as every conversion
  from an integer, goes through the rounding function \<open>fl\<close>, a parameter: \<open>rounding fl\<close>
  says what IEEE arithmetic guarantees of it (monotone, exact on what is already rounded, zero is
  zero), and \<open>exact\<close> is arithmetic without rounding. The steady clock is a number of
  nanoseconds that is passed in. Every method but \<open>available\<close> and \<open>getRate\<close> holds the
  mutex for its whole body, so it is one step.
\<close>

record rate_limiter =
  bytes_per_second :: nat
  burst_size :: nat
  tokens :: real
  last_refill :: nat

definition RateLimiter :: "(real \<Rightarrow> real) \<Rightarrow> nat \<Rightarrow> nat \<Rightarrow> nat \<Rightarrow> rate_limiter" where
  "RateLimiter fl now rate burst =
     (let b = (if 0 < burst then burst else rate)
      in \<lparr>bytes_per_second = rate, burst_size = b, tokens = fl (real b), last_refill = now\<rparr>)"

definition elapsed_seconds :: "(real \<Rightarrow> real) \<Rightarrow> nat \<Rightarrow> rate_limiter \<Rightarrow> real" where
  "elapsed_seconds fl now r = fl (fl (real now - real (last_refill r)) / 1000000000)"

definition refill :: "(real \<Rightarrow> real) \<Rightarrow> nat \<Rightarrow> rate_limiter \<Rightarrow> rate_limiter" where
  "refill fl now r =
     (let tokens_to_add = fl (elapsed_seconds fl now r * fl (real (bytes_per_second r)))
      in r\<lparr>tokens := min (fl (tokens r + tokens_to_add)) (fl (real (burst_size r))), last_refill := now\<rparr>)"

definition tryAcquire :: "(real \<Rightarrow> real) \<Rightarrow> nat \<Rightarrow> nat \<Rightarrow> rate_limiter \<Rightarrow> bool \<times> rate_limiter" where
  "tryAcquire fl now bytes r =
     (let r = refill fl now r
      in if fl (real bytes) \<le> tokens r then (True, r\<lparr>tokens := fl (tokens r - fl (real bytes))\<rparr>)
         else (False, r))"

definition setRate :: "nat \<Rightarrow> rate_limiter \<Rightarrow> rate_limiter" where
  "setRate rate r = r\<lparr>bytes_per_second := rate, burst_size := rate\<rparr>"

definition getRate :: "rate_limiter \<Rightarrow> nat" where
  "getRate r = bytes_per_second r"

definition available :: "rate_limiter \<Rightarrow> nat" where
  "available r = nat \<lfloor>max 0 (tokens r)\<rfloor>"

text \<open>
  The time \<open>acquire\<close> sleeps, in milliseconds: the difference is taken on \<open>size_t\<close>, the
  quotient on doubles, and the conversion truncates. With a rate of zero the quotient is infinite
  and its conversion is undefined: \<open>None\<close>.
\<close>

definition wait_ms :: "(real \<Rightarrow> real) \<Rightarrow> nat \<Rightarrow> nat \<Rightarrow> nat \<Rightarrow> nat option" where
  "wait_ms fl rate bytes avail =
     (if rate = 0 then None
      else let tokens_needed = fl (real (to_size_t (int bytes - int avail)));
               seconds_to_wait = fl (tokens_needed / fl (real rate))
           in Some (max (nat \<lfloor>fl (seconds_to_wait * 1000)\<rfloor>) 1))"

text \<open>
  The loop of \<open>acquire\<close>: each attempt reads the clock once. The result after the clock
  readings \<open>ts\<close>: whether it has returned, the limiter, the readings not used, and the times
  it asked to sleep.
\<close>

fun acquire :: "(real \<Rightarrow> real) \<Rightarrow> nat \<Rightarrow> rate_limiter \<Rightarrow> nat list \<Rightarrow> bool \<times> rate_limiter \<times> nat option list" where
  "acquire fl bytes r [] = (False, r, [])"
| "acquire fl bytes r (t # ts) =
     (case tryAcquire fl t bytes r of
        (True, r') \<Rightarrow> (True, r', [])
      | (False, r') \<Rightarrow>
          (case acquire fl bytes r' ts of
             (returned, r'', waits) \<Rightarrow> (returned, r'', wait_ms fl (getRate r') bytes (available r') # waits)))"

subsection \<open>The tokens stay between zero and the burst size\<close>

lemma roundingD:
  assumes "rounding fl"
  shows "x \<le> y \<Longrightarrow> fl x \<le> fl y" "fl 0 = 0" "fl (fl x) = fl x" "0 \<le> x \<Longrightarrow> 0 \<le> fl x"
proof -
  show "x \<le> y \<Longrightarrow> fl x \<le> fl y" and zero: "fl 0 = 0" and "fl (fl x) = fl x"
    using assms by (auto simp: rounding_def mono_def)
  show "0 \<le> x \<Longrightarrow> 0 \<le> fl x"
    using assms zero by (auto simp: rounding_def mono_def dest: spec [of _ "0 :: real"])
qed

lemmas rounding_simps = roundingD(2-4)

text \<open>Stated so that the simplifier unfolds \<open>exact\<close> only where it is applied.\<close>

lemma exact_simps [simp]: "exact x = x + 0"
  by (simp add: exact_def)

lemma exact_rounding: "rounding exact"
  by (simp add: rounding_def mono_def)

definition tokens_ok :: "(real \<Rightarrow> real) \<Rightarrow> rate_limiter \<Rightarrow> bool" where
  "tokens_ok fl r \<longleftrightarrow> 0 \<le> tokens r \<and> fl (tokens r) = tokens r"

definition bucket_ok :: "(real \<Rightarrow> real) \<Rightarrow> rate_limiter \<Rightarrow> bool" where
  "bucket_ok fl r \<longleftrightarrow> tokens_ok fl r \<and> tokens r \<le> fl (real (burst_size r))"

lemma RateLimiter_ok:
  assumes "rounding fl"
  shows "bucket_ok fl (RateLimiter fl now rate burst)"
  by (simp add: bucket_ok_def tokens_ok_def RateLimiter_def Let_def rounding_simps [OF assms])

lemma refill_ok:
  assumes "rounding fl" and "tokens_ok fl r" and "last_refill r \<le> now"
  shows "bucket_ok fl (refill fl now r)"
proof -
  have "0 \<le> elapsed_seconds fl now r"
    unfolding elapsed_seconds_def using assms(3) by (intro roundingD(4) [OF assms(1)] divide_nonneg_nonneg) simp_all
  then have "0 \<le> fl (tokens r + fl (elapsed_seconds fl now r * fl (real (bytes_per_second r))))"
    using assms(2) by (intro roundingD(4) [OF assms(1)] add_nonneg_nonneg mult_nonneg_nonneg) (simp_all add: tokens_ok_def)
  moreover have "0 \<le> fl (real (burst_size r))" by (simp add: rounding_simps [OF assms(1)])
  ultimately show ?thesis
    by (simp add: bucket_ok_def tokens_ok_def refill_def Let_def rounding_simps [OF assms(1)] min_def)
qed

lemma tryAcquire_ok:
  assumes "rounding fl" and "tokens_ok fl r" and "last_refill r \<le> now"
  shows "bucket_ok fl (snd (tryAcquire fl now bytes r))"
proof -
  define r' where "r' = refill fl now r"
  have ok: "bucket_ok fl r'" unfolding r'_def by (rule refill_ok [OF assms])
  have "0 \<le> fl (tokens r' - fl (real bytes))" if "fl (real bytes) \<le> tokens r'"
    using that by (intro roundingD(4) [OF assms(1)]) simp_all
  moreover have "fl (tokens r' - fl (real bytes)) \<le> tokens r'"
  proof -
    have "0 \<le> fl (real bytes)" by (simp add: rounding_simps [OF assms(1)])
    then have "fl (tokens r' - fl (real bytes)) \<le> fl (tokens r')" by (intro roundingD(1) [OF assms(1)]) simp_all
    then show ?thesis using ok by (simp add: bucket_ok_def tokens_ok_def)
  qed
  ultimately show ?thesis
    using ok by (auto simp: tryAcquire_def r'_def [symmetric] Let_def bucket_ok_def tokens_ok_def rounding_simps [OF assms(1)])
qed

lemma bucket_tokens: "bucket_ok fl r \<Longrightarrow> tokens_ok fl r"
  by (simp add: bucket_ok_def)

lemma tryAcquire_frame [simp]:
  "last_refill (snd (tryAcquire fl now bytes r)) = now"
  "bytes_per_second (snd (tryAcquire fl now bytes r)) = bytes_per_second r"
  "burst_size (snd (tryAcquire fl now bytes r)) = burst_size r"
  by (simp_all add: tryAcquire_def refill_def Let_def)

subsection \<open>The operations of a limiter in any order\<close>

datatype limiter_op = Try nat nat | Set_Rate nat

fun run_limiter :: "(real \<Rightarrow> real) \<Rightarrow> limiter_op list \<Rightarrow> rate_limiter \<Rightarrow> rate_limiter" where
  "run_limiter fl [] r = r"
| "run_limiter fl (Try now bytes # ops) r = run_limiter fl ops (snd (tryAcquire fl now bytes r))"
| "run_limiter fl (Set_Rate rate # ops) r = run_limiter fl ops (setRate rate r)"

fun op_times :: "limiter_op list \<Rightarrow> nat list" where
  "op_times [] = []"
| "op_times (Try now bytes # ops) = now # op_times ops"
| "op_times (Set_Rate rate # ops) = op_times ops"

lemma setRate_tokens: "tokens_ok fl r \<Longrightarrow> tokens_ok fl (setRate rate r)"
  by (simp add: tokens_ok_def setRate_def)

lemma run_limiter_ok:
  assumes "rounding fl" and "tokens_ok fl r" and "sorted (last_refill r # op_times ops)"
  shows "tokens_ok fl (run_limiter fl ops r)"
  using assms(2,3)
proof (induction ops arbitrary: r rule: op_times.induct)
  case 1
  then show ?case by simp
next
  case (2 now bytes ops)
  then show ?case
    using bucket_tokens [OF tryAcquire_ok [OF assms(1)]] by simp
next
  case (3 rate ops)
  have "last_refill (setRate rate r) = last_refill r" by (simp add: setRate_def)
  with 3 setRate_tokens show ?case by simp
qed

lemma op_times_append: "op_times (xs @ ys) = op_times xs @ op_times ys"
  by (induction xs rule: op_times.induct) simp_all

lemma run_limiter_append: "run_limiter fl (xs @ ys) r = run_limiter fl ys (run_limiter fl xs r)"
  by (induction fl xs r rule: run_limiter.induct) simp_all

lemma run_limiter_last:
  "last_refill (run_limiter fl ops r) = last (last_refill r # op_times ops)"
  by (induction fl ops r rule: run_limiter.induct) (simp_all add: setRate_def)

subsection \<open>The contract of a token bucket\<close>

text \<open>What a series of requests, each a time and a number of bytes, is granted.\<close>

fun granted :: "(nat \<Rightarrow> nat \<Rightarrow> 's \<Rightarrow> bool \<times> 's) \<Rightarrow> (nat \<times> nat) list \<Rightarrow> 's \<Rightarrow> nat" where
  "granted tak [] s = 0"
| "granted tak ((t, b) # qs) s =
     (case tak t b s of (got, s') \<Rightarrow> (if got then b else 0) + granted tak qs s')"

fun serve :: "(nat \<Rightarrow> nat \<Rightarrow> 's \<Rightarrow> bool \<times> 's) \<Rightarrow> (nat \<times> nat) list \<Rightarrow> 's \<Rightarrow> 's" where
  "serve tak [] s = s"
| "serve tak ((t, b) # qs) s = serve tak qs (snd (tak t b s))"

locale token_bucket =
  fixes tak :: "nat \<Rightarrow> nat \<Rightarrow> 's \<Rightarrow> bool \<times> 's" and level :: "'s \<Rightarrow> real" and rate :: "'s \<Rightarrow> real"
    and clock :: "'s \<Rightarrow> nat" and ok :: "'s \<Rightarrow> bool"
  assumes ok_tak: "ok s \<Longrightarrow> clock s \<le> t \<Longrightarrow> ok (snd (tak t b s))"
    and level_nonneg: "ok s \<Longrightarrow> 0 \<le> level s"
    and clock_tak: "clock (snd (tak t b s)) = t"
    and rate_tak: "rate (snd (tak t b s)) = rate s"
    and account: "ok s \<Longrightarrow> clock s \<le> t \<Longrightarrow>
      level (snd (tak t b s)) + (if fst (tak t b s) then real b else 0) \<le> level s + rate s * (real t - real (clock s))"
begin

lemma serve_ok: "ok s \<Longrightarrow> sorted (clock s # map fst qs) \<Longrightarrow> ok (serve tak qs s)"
proof (induction qs arbitrary: s)
  case Nil
  then show ?case by simp
next
  case (Cons q qs)
  obtain t b where q: "q = (t, b)" by (cases q)
  then show ?case using Cons by (simp add: clock_tak ok_tak)
qed

lemma serve_clock: "clock (serve tak qs s) = last (clock s # map fst qs)"
proof (induction qs arbitrary: s)
  case Nil
  then show ?case by simp
next
  case (Cons q qs)
  obtain t b where q: "q = (t, b)" by (cases q)
  then show ?case using Cons.IH [of "snd (tak t b s)"] by (simp add: clock_tak)
qed

lemma serve_rate: "rate (serve tak qs s) = rate s"
proof (induction qs arbitrary: s)
  case Nil
  then show ?case by simp
next
  case (Cons q qs)
  obtain t b where q: "q = (t, b)" by (cases q)
  then show ?case using Cons.IH by (simp add: rate_tak)
qed

text \<open>What is granted and what is left never exceeds what was there and what time has added.\<close>

lemma conservation:
  "ok s \<Longrightarrow> sorted (clock s # map fst qs) \<Longrightarrow>
   real (granted tak qs s) + level (serve tak qs s) \<le>
     level s + rate s * (real (last (clock s # map fst qs)) - real (clock s))"
proof (induction qs arbitrary: s)
  case Nil
  then show ?case by simp
next
  case (Cons q qs)
  obtain t b where q: "q = (t, b)" by (cases q)
  define s' where "s' = snd (tak t b s)"
  define got where "got = fst (tak t b s)"
  have tak: "tak t b s = (got, s')" by (simp add: got_def s'_def)
  have t: "clock s \<le> t" "sorted (t # map fst qs)" using Cons.prems(2) q by auto
  have s': "clock s' = t" "rate s' = rate s" "ok s'"
    using Cons.prems(1) t(1) by (simp_all add: s'_def clock_tak rate_tak ok_tak)
  have "real (granted tak qs s') + level (serve tak qs s') \<le> level s' + rate s * (real (last (t # map fst qs)) - real t)"
    using Cons.IH [of s'] s' t(2) by simp
  moreover have "level s' + (if got then real b else 0) \<le> level s + rate s * (real t - real (clock s))"
    using account [OF Cons.prems(1) t(1), of b] by (simp add: tak)
  moreover have "real (granted tak (q # qs) s) = (if got then real b else 0) + real (granted tak qs s')"
    "serve tak (q # qs) s = serve tak qs s'" "last (clock s # map fst (q # qs)) = last (t # map fst qs)"
    by (simp_all add: q tak)
  ultimately show ?case by (simp add: algebra_simps)
qed

lemma granted_bound:
  assumes "ok s" and "sorted (clock s # map fst qs)"
  shows "real (granted tak qs s) \<le> level s + rate s * (real (last (clock s # map fst qs)) - real (clock s))"
  using conservation [OF assms] level_nonneg [OF serve_ok [OF assms]] by linarith

end

lemma tryAcquire_account:
  assumes "tokens_ok exact r" and "last_refill r \<le> t"
  shows "tokens (snd (tryAcquire exact t b r)) + (if fst (tryAcquire exact t b r) then real b else 0) \<le>
    tokens r + real (bytes_per_second r) / 1000000000 * (real t - real (last_refill r))"
  by (simp add: tryAcquire_def refill_def Let_def elapsed_seconds_def mult.commute)

interpretation limiter: token_bucket "tryAcquire exact" tokens
  "\<lambda>r. real (bytes_per_second r) / 1000000000" last_refill "tokens_ok exact"
proof (unfold_locales, goal_cases)
  case (1 s t b)
  then show ?case by (rule bucket_tokens [OF tryAcquire_ok [OF exact_rounding]])
next
  case (2 s)
  then show ?case by (simp add: tokens_ok_def)
next
  case (5 s t b)
  then show ?case by (rule tryAcquire_account)
qed simp_all

lemma serve_ok_burst:
  "bucket_ok exact r \<Longrightarrow> sorted (last_refill r # map fst ps) \<Longrightarrow>
   bucket_ok exact (serve (tryAcquire exact) ps r) \<and> burst_size (serve (tryAcquire exact) ps r) = burst_size r"
proof (induction ps arbitrary: r)
  case Nil
  then show ?case by simp
next
  case (Cons p ps)
  obtain t b where p: "p = (t, b)" by (cases p)
  have "bucket_ok exact (snd (tryAcquire exact t b r))"
    by (intro tryAcquire_ok exact_rounding bucket_tokens Cons.prems(1)) (use Cons.prems(2) p in simp)
  then show ?case
    using Cons.IH [of "snd (tryAcquire exact t b r)"] Cons.prems(2) p by (simp del: exact_simps)
qed

subsection \<open>Acquiring\<close>

lemma acquire_step:
  "acquire fl bytes r (t # ts) = (if fst (tryAcquire fl t bytes r) then (True, snd (tryAcquire fl t bytes r), [])
     else (case acquire fl bytes (snd (tryAcquire fl t bytes r)) ts of (returned, r'', waits) \<Rightarrow>
       (returned, r'', wait_ms fl (bytes_per_second r) bytes (available (snd (tryAcquire fl t bytes r))) # waits)))"
proof -
  obtain ok r' where tr: "tryAcquire fl t bytes r = (ok, r')" by (cases "tryAcquire fl t bytes r")
  then have "bytes_per_second r' = bytes_per_second r" by (metis snd_conv tryAcquire_frame(2))
  with tr show ?thesis by (simp add: getRate_def split: bool.split)
qed

text \<open>The clock advances between attempts by at least the time the code asks to sleep.\<close>

fun slept :: "(real \<Rightarrow> real) \<Rightarrow> nat \<Rightarrow> rate_limiter \<Rightarrow> nat list \<Rightarrow> bool" where
  "slept fl bytes r (t # t' # ts) =
     (case tryAcquire fl t bytes r of
        (True, r') \<Rightarrow> True
      | (False, r') \<Rightarrow>
          (case wait_ms fl (getRate r') bytes (available r') of
             None \<Rightarrow> False
           | Some w \<Rightarrow> t + w * 1000000 \<le> t' \<and> slept fl bytes r' (t' # ts)))"
| "slept fl bytes r ts = True"

lemma try_fails:
  assumes "tokens_ok exact r" and "last_refill r \<le> t" and "\<not> fst (tryAcquire exact t bytes r)"
  shows "tokens (snd (tryAcquire exact t bytes r)) =
      min (tokens r + real (bytes_per_second r) * (real t - real (last_refill r)) / 1000000000) (real (burst_size r))"
    and "tokens (snd (tryAcquire exact t bytes r)) < real bytes"
  using assms by (auto simp: tryAcquire_def refill_def Let_def elapsed_seconds_def mult.commute split: if_splits)

lemma wait_enough:
  assumes "tokens_ok exact r" and "tokens r < real bytes" and "bytes < 2 ^ 64" and "0 < rate"
    and "wait_ms exact rate bytes (available r) = Some w"
  shows "1 \<le> w" and "real bytes - tokens r - real rate / 1000 \<le> real rate * real w / 1000"
proof -
  have pos: "0 \<le> tokens r" using assms(1) by (simp add: tokens_ok_def)
  have av: "real (available r) \<le> tokens r" "available r \<le> bytes"
    using assms(2) pos by (simp_all add: available_def) linarith
  define need where "need = bytes - available r"
  have "to_size_t (int bytes - int (available r)) = need"
    using av(2) assms(3) by (simp add: need_def to_size_t_nonneg nat_diff_distrib)
  then have w: "w = max (nat \<lfloor>real need / real rate * 1000\<rfloor>) 1"
    using assms(4,5) by (simp add: wait_ms_def Let_def)
  show "1 \<le> w" by (simp add: w)
  have "real need / real rate * 1000 \<le> real w + 1"
  proof -
    have "real need / real rate * 1000 < real_of_int \<lfloor>real need / real rate * 1000\<rfloor> + 1" by linarith
    also have "real_of_int \<lfloor>real need / real rate * 1000\<rfloor> \<le> real (nat \<lfloor>real need / real rate * 1000\<rfloor>)" by simp
    also have "\<dots> \<le> real w" by (simp add: w)
    finally show ?thesis by simp
  qed
  then have "real need \<le> (real w + 1) * real rate / 1000"
    using assms(4) by (simp add: field_simps)
  moreover have "real bytes - tokens r \<le> real need" using av by (simp add: need_def of_nat_diff)
  ultimately show "real bytes - tokens r - real rate / 1000 \<le> real rate * real w / 1000"
    by (simp add: field_simps)
qed

lemma third_attempt:
  assumes "tokens_ok exact r" and "last_refill r \<le> t1" and "bytes < 2 ^ 64" and "bytes \<le> burst_size r"
    and "0 < bytes_per_second r" and "slept exact bytes r (t1 # t2 # t3 # ts)"
  shows "fst (acquire exact bytes r (t1 # t2 # t3 # ts))"
proof (rule ccontr)
  assume fails: "\<not> fst (acquire exact bytes r (t1 # t2 # t3 # ts))"
  define r1 where "r1 = snd (tryAcquire exact t1 bytes r)"
  define r2 where "r2 = snd (tryAcquire exact t2 bytes r1)"
  define \<rho> where "\<rho> = real (bytes_per_second r)"
  have rates: "bytes_per_second r1 = bytes_per_second r" "burst_size r1 = burst_size r" "last_refill r1 = t1"
    "bytes_per_second r2 = bytes_per_second r" "burst_size r2 = burst_size r" "last_refill r2 = t2"
    by (simp_all add: r1_def r2_def)
  have f1: "\<not> fst (tryAcquire exact t1 bytes r)" and f2: "\<not> fst (tryAcquire exact t2 bytes r1)"
    and f3: "\<not> fst (tryAcquire exact t3 bytes r2)"
    using fails unfolding r1_def r2_def
    by (auto simp: acquire_step simp del: acquire.simps exact_simps split: if_splits prod.splits)
  have tr1: "tryAcquire exact t1 bytes r = (False, r1)" and tr2: "tryAcquire exact t2 bytes r1 = (False, r2)"
    using f1 f2 by (simp_all add: prod_eq_iff r1_def r2_def del: exact_simps)
  obtain w1 where w1: "wait_ms exact (bytes_per_second r) bytes (available r1) = Some w1" "t1 + w1 * 1000000 \<le> t2"
    and rest: "slept exact bytes r1 (t2 # t3 # ts)"
    using assms(6) by (auto simp: tr1 getRate_def rates(1) simp del: exact_simps split: option.splits)
  obtain w2 where w2: "wait_ms exact (bytes_per_second r) bytes (available r2) = Some w2" "t2 + w2 * 1000000 \<le> t3"
    using rest by (auto simp: tr2 getRate_def rates(4) simp del: exact_simps split: option.splits)
  have ok1: "tokens_ok exact r1"
    unfolding r1_def by (rule bucket_tokens [OF tryAcquire_ok [OF exact_rounding assms(1,2)]])
  have le2: "last_refill r1 \<le> t2" and le3: "last_refill r2 \<le> t3" using w1(2) w2(2) by (simp_all add: rates)
  have ok2: "tokens_ok exact r2"
    unfolding r2_def by (rule bucket_tokens [OF tryAcquire_ok [OF exact_rounding ok1 le2]])
  note t1 = try_fails(2) [OF assms(1,2) f1, folded r1_def]
  note t2 = try_fails [OF ok1 le2 f2, folded r2_def, unfolded rates]
  note t3 = try_fails [OF ok2 le3 f3, unfolded rates]
  have burst: "real bytes \<le> real (burst_size r)" using assms(4) by simp
  have gain: "\<rho> * real w / 1000 \<le> \<rho> * (real u' - real u) / 1000000000" if "u + w * 1000000 \<le> u'" for u u' w
  proof -
    have "real (u + w * 1000000) \<le> real u'" using that by (simp only: of_nat_le_iff)
    then have "\<rho> * (real w * 1000000) \<le> \<rho> * (real u' - real u)"
      by (intro mult_left_mono) (simp_all add: \<rho>_def)
    then show ?thesis by simp
  qed
  have "real bytes - tokens r1 - \<rho> / 1000 \<le> \<rho> * real w1 / 1000"
    using wait_enough(2) [OF ok1 t1 assms(3,5) w1(1)] by (simp add: \<rho>_def)
  moreover have "tokens r2 = tokens r1 + \<rho> * (real t2 - real t1) / 1000000000"
    using t2 burst by (auto simp: \<rho>_def min_def split: if_splits)
  ultimately have near: "real bytes - \<rho> / 1000 \<le> tokens r2"
    using gain [OF w1(2)] by linarith
  have "1 \<le> w2" by (rule wait_enough(1) [OF ok2 t2(2) assms(3,5) w2(1)])
  then have "\<rho> * 1 \<le> \<rho> * real w2" by (intro mult_left_mono) (simp_all add: \<rho>_def)
  then have "\<rho> / 1000 \<le> \<rho> * real w2 / 1000" by simp
  moreover have "tokens (snd (tryAcquire exact t3 bytes r2)) = tokens r2 + \<rho> * (real t3 - real t2) / 1000000000"
    using t3 burst by (auto simp: \<rho>_def min_def split: if_splits)
  ultimately have "real bytes \<le> tokens (snd (tryAcquire exact t3 bytes r2))"
    using gain [OF w2(2)] near by linarith
  then show False using t3(2) by simp
qed

lemma never_enough:
  assumes "fl (real (burst_size r)) < fl (real bytes)"
  shows "\<not> fst (acquire fl bytes r ts)"
  using assms
proof (induction ts arbitrary: r)
  case Nil
  then show ?case by simp
next
  case (Cons t ts)
  have "tokens (refill fl t r) \<le> fl (real (burst_size r))" by (simp add: refill_def Let_def)
  then have "\<not> fst (tryAcquire fl t bytes r)" using Cons.prems by (auto simp: tryAcquire_def Let_def)
  then show ?case
    using Cons.IH [of "snd (tryAcquire fl t bytes r)"] Cons.prems
    by (auto simp: acquire_step simp del: acquire.simps split: prod.split)
qed

subsection \<open>Properties\<close>

text \<open>C19: the limiter keeps its promise: over any window of its use, after any earlier requests, the bytes
  granted are at most the burst size plus the rate times the length of the window (without rounding).\<close>

theorem rate_is_respected:
  assumes "sorted (t0 # map fst ps @ map fst qs)"
    and r: "r = serve (tryAcquire exact) ps (RateLimiter exact t0 rate burst)"
  shows "real (granted (tryAcquire exact) qs r) \<le>
    real (if 0 < burst then burst else rate) +
    real rate * (real (last (last_refill r # map fst qs)) - real (last_refill r)) / 1000000000"
proof -
  let ?r0 = "RateLimiter exact t0 rate burst"
  have ok0: "bucket_ok exact ?r0" by (rule RateLimiter_ok [OF exact_rounding])
  have r0: "last_refill ?r0 = t0" "bytes_per_second ?r0 = rate" "burst_size ?r0 = (if 0 < burst then burst else rate)"
    by (simp_all add: RateLimiter_def Let_def)
  have ps: "sorted (last_refill ?r0 # map fst ps)" using assms(1) by (simp add: r0 sorted_append)
  have ok: "bucket_ok exact r" "burst_size r = (if 0 < burst then burst else rate)"
    using serve_ok_burst [OF ok0 ps] unfolding r r0(3) by blast+
  have clock: "last_refill r = last (t0 # map fst ps)"
    using limiter.serve_clock [of ps ?r0] unfolding r r0(1) .
  have speed: "real (bytes_per_second r) / 1000000000 = real rate / 1000000000"
    using limiter.serve_rate [of ps ?r0] unfolding r r0(2) .
  have "sorted (last_refill r # map fst qs)"
    using assms(1) unfolding clock by (cases "ps = []") (auto simp: sorted_append last_map)
  from limiter.granted_bound [OF bucket_tokens [OF ok(1)] this]
  have "real (granted (tryAcquire exact) qs r) \<le> tokens r +
      real rate / 1000000000 * (real (last (last_refill r # map fst qs)) - real (last_refill r))"
    unfolding speed .
  moreover have "tokens r \<le> real (if 0 < burst then burst else rate)"
    using ok unfolding bucket_ok_def exact_simps by simp
  ultimately show ?thesis by simp
qed

theorem rate_is_respected_witness:
  "real (granted (tryAcquire exact) [(2000000000, 800), (2500000000, 900)]
      (serve (tryAcquire exact) [(1000000000, 700)] (RateLimiter exact 0 1000 0))) \<le> 1000 + 1500"
proof -
  have "last_refill (serve (tryAcquire exact) [(1000000000, 700)] (RateLimiter exact 0 1000 0)) = 1000000000"
    by simp
  then show ?thesis
    using rate_is_respected [OF _ refl, of 0 "[(1000000000, 700)]" "[(2000000000, 800), (2500000000, 900)]" 1000 0]
    by (simp del: exact_simps serve.simps granted.simps)
qed

text \<open>With any rounding that IEEE arithmetic allows, and any requests and changes of the rate in any
  order on a monotone clock, the tokens never become negative, and no request leaves more than the burst
  size in force.\<close>

theorem tokens_stay_in_bounds:
  assumes "rounding fl" and "sorted (t0 # op_times ops @ [t])"
  shows "0 \<le> tokens (run_limiter fl (ops @ [Try t bytes]) (RateLimiter fl t0 rate burst)) \<and>
    tokens (run_limiter fl (ops @ [Try t bytes]) (RateLimiter fl t0 rate burst)) \<le>
      fl (real (burst_size (run_limiter fl (ops @ [Try t bytes]) (RateLimiter fl t0 rate burst))))"
proof -
  let ?r0 = "RateLimiter fl t0 rate burst"
  define r where "r = run_limiter fl ops ?r0"
  have t0: "last_refill ?r0 = t0" by (simp add: RateLimiter_def Let_def)
  have "tokens_ok fl r"
    unfolding r_def
    by (rule run_limiter_ok [OF assms(1) bucket_tokens [OF RateLimiter_ok [OF assms(1)]]])
      (use assms(2) in \<open>simp add: t0 sorted_append\<close>)
  moreover have "last_refill r \<le> t"
  proof -
    have "last (t0 # op_times ops) \<in> set (t0 # op_times ops)" by (rule last_in_set) simp
    then have "last (t0 # op_times ops) \<le> t" using assms(2) by (auto simp: sorted_append)
    then show ?thesis by (simp only: r_def run_limiter_last t0)
  qed
  ultimately have "bucket_ok fl (snd (tryAcquire fl t bytes r))" by (rule tryAcquire_ok [OF assms(1)])
  then show ?thesis
    by (simp add: run_limiter_append r_def [symmetric] bucket_ok_def tokens_ok_def)
qed

theorem tokens_stay_in_bounds_witness:
  "0 \<le> tokens (run_limiter exact ([Try 5 10, Set_Rate 3, Try 9 2] @ [Try 11 1]) (RateLimiter exact 4 100 50)) \<and>
    tokens (run_limiter exact ([Try 5 10, Set_Rate 3, Try 9 2] @ [Try 11 1]) (RateLimiter exact 4 100 50)) \<le>
      exact (real (burst_size (run_limiter exact ([Try 5 10, Set_Rate 3, Try 9 2] @ [Try 11 1]) (RateLimiter exact 4 100 50))))"
  by (rule tokens_stay_in_bounds [OF exact_rounding]) simp

text \<open>C26: when nobody else uses the limiter and the request is not larger than the burst size,
  \<open>acquire\<close> returns at the third attempt at the latest, provided each sleep lasts at least as long as
  asked (without rounding).\<close>

theorem acquire_returns:
  assumes "tokens_ok exact r" and "last_refill r \<le> t1" and "bytes < 2 ^ 64" and "bytes \<le> burst_size r"
    and "0 < bytes_per_second r" and "slept exact bytes r [t1, t2, t3]"
  shows "fst (acquire exact bytes r [t1, t2, t3])"
  by (rule third_attempt [OF assms])

theorem acquire_returns_witness:
  "fst (acquire exact 100 \<lparr>bytes_per_second = 1000, burst_size = 100, tokens = 0, last_refill = 0\<rparr>
     [0, 100000000, 200000000])"
proof (rule acquire_returns)
  show "slept exact 100 \<lparr>bytes_per_second = 1000, burst_size = 100, tokens = 0, last_refill = 0\<rparr>
      [0, 100000000, 200000000]"
    by (simp add: tryAcquire_def refill_def Let_def elapsed_seconds_def wait_ms_def getRate_def available_def to_size_t_def)
qed (simp_all add: tokens_ok_def)

text \<open>A request larger than the burst size never returns, however long the caller waits.\<close>

theorem oversized_acquire_never_returns:
  assumes "fl (real (burst_size r)) < fl (real bytes)"
  shows "\<not> fst (acquire fl bytes r ts)"
  using assms by (rule never_enough)

theorem oversized_acquire_never_returns_witness:
  "\<not> fst (acquire exact 1001 (RateLimiter exact 0 1000 0) [1000000000, 2000000000])"
  by (rule oversized_acquire_never_returns) (simp add: RateLimiter_def)

text \<open>\<open>acquire\<close> reads the tokens again after its attempt has released the lock. If another thread's
  call has refilled the bucket in between, the difference wraps around and the thread asks to sleep for
  more than \<open>2 ^ 63\<close> bytes' worth of time although it could go on at once.\<close>

theorem refill_between_attempt_and_sleep:
  assumes "\<not> fst (tryAcquire exact t bytes r)" and "r' = snd (tryAcquire exact t' other (snd (tryAcquire exact t bytes r)))"
    and "bytes < available r'" and "available r' < 2 ^ 63" and "0 < bytes_per_second r"
  shows "\<exists>w. wait_ms exact (getRate r') bytes (available r') = Some w \<and>
    real (2 ^ 63) * 1000 \<le> (real w + 1) * real (bytes_per_second r)"
proof -
  let ?rate = "bytes_per_second r"
  have rate: "getRate r' = ?rate" by (simp add: getRate_def assms(2))
  define n where "n = to_size_t (int bytes - int (available r'))"
  have "(int bytes - int (available r')) mod 2 ^ 64 = (int bytes - int (available r') + 2 ^ 64) mod 2 ^ 64"
    by simp
  also have "\<dots> = int bytes - int (available r') + 2 ^ 64"
    using assms(3,4) by (intro mod_pos_pos_trivial) simp_all
  finally have n: "2 ^ 63 \<le> n" using assms(3,4) by (simp add: n_def to_size_t_def)
  define w where "w = max (nat \<lfloor>real n / real ?rate * 1000\<rfloor>) 1"
  have "real n / real ?rate * 1000 < real_of_int \<lfloor>real n / real ?rate * 1000\<rfloor> + 1" by linarith
  also have "real_of_int \<lfloor>real n / real ?rate * 1000\<rfloor> \<le> real w" by (simp add: w_def)
  finally have "real n * 1000 \<le> (real w + 1) * real ?rate"
    using assms(5) by (simp add: field_simps)
  moreover have "real (2 ^ 63) \<le> real n" using n by (simp only: of_nat_le_iff)
  ultimately have "real (2 ^ 63) * 1000 \<le> (real w + 1) * real ?rate" by linarith
  moreover have "wait_ms exact (getRate r') bytes (available r') = Some w"
    using assms(5) by (simp add: wait_ms_def rate Let_def n_def w_def)
  ultimately show ?thesis by blast
qed

theorem refill_between_attempt_and_sleep_witness:
  "\<exists>w. wait_ms exact 1000 100 999 = Some w \<and> real (2 ^ 63) * 1000 \<le> (real w + 1) * 1000"
proof -
  let ?r = "\<lparr>bytes_per_second = 1000, burst_size = 1000, tokens = 0, last_refill = 0\<rparr>"
  let ?r' = "snd (tryAcquire exact 1000000000 1 (snd (tryAcquire exact 0 100 ?r)))"
  have "available ?r' = 999" "getRate ?r' = 1000" "\<not> fst (tryAcquire exact 0 100 ?r)"
    by (simp_all add: tryAcquire_def refill_def Let_def elapsed_seconds_def available_def getRate_def)
  then show ?thesis
    using refill_between_attempt_and_sleep [of 0 100 ?r ?r' 1000000000 1] by simp
qed

end
