(* ===== verification/Delta_Engine.thy ===== *)
theory Delta_Engine
  imports Chunker
begin

text \<open>
  \<open>include/core/delta_engine.h\<close> and \<open>src/core/delta_engine.cpp\<close>: which chunks of a local
  file the server is missing, and the reconstruction of a file from a list of chunks and their bytes.

  The member \<open>db_\<close> is never used; the only state is the chunker. Sizes are \<open>size_t\<close>: the sum
  in the bounds check of \<open>applyDelta\<close> wraps around, and what happens when it does, a read past the
  end of the buffer, has no defined behaviour (\<open>Undefined\<close>).
\<close>

record delta_info =
  new_chunks :: "chunk_info list"
  existing_chunks :: "chunk_info list"
  bytes_to_transfer :: nat

record delta_engine =
  engine_chunker :: chunker

text \<open>\<open>std::set\<close>: only membership is used.\<close>

definition convertToSet :: "string list \<Rightarrow> string set" where
  "convertToSet hashes = set hashes"

fun delta_loop :: "string set \<Rightarrow> delta_info \<Rightarrow> chunk_info list \<Rightarrow> delta_info" where
  "delta_loop server_set delta [] = delta"
| "delta_loop server_set delta (chunk # rest) =
     delta_loop server_set
       (if ci_hash chunk \<notin> server_set
        then delta\<lparr>new_chunks := new_chunks delta @ [chunk],
                   bytes_to_transfer := to_size_t (int (bytes_to_transfer delta + ci_size chunk))\<rparr>
        else delta\<lparr>existing_chunks := existing_chunks delta @ [chunk]\<rparr>) rest"

definition computeDelta ::
  "'c sha_api \<Rightarrow> host \<Rightarrow> store \<Rightarrow> string \<Rightarrow> string list \<Rightarrow> delta_engine \<Rightarrow> delta_info \<times> delta_engine" where
  "computeDelta api h fs filepath server_chunk_hashes e =
     (case chunkFile api h fs filepath (engine_chunker e) of
        (local_chunks, c) \<Rightarrow>
          (delta_loop (convertToSet server_chunk_hashes)
             \<lparr>new_chunks = [], existing_chunks = [], bytes_to_transfer = 0\<rparr> local_chunks,
           e\<lparr>engine_chunker := c\<rparr>))"

datatype apply_result = Returned bool | Undefined

text \<open>The loop of \<open>applyDelta\<close>; the file is open at its end.\<close>

fun apply_loop :: "host \<Rightarrow> string \<Rightarrow> bytes \<Rightarrow> nat \<Rightarrow> chunk_info list \<Rightarrow> store \<Rightarrow> apply_result \<times> store" where
  "apply_loop h filepath chunk_data data_offset [] fs = (Returned True, fs)"
| "apply_loop h filepath chunk_data data_offset (chunk # rest) fs =
     (if length chunk_data < to_size_t (int (data_offset + ci_size chunk)) then (Returned False, fs)
      else if length chunk_data < data_offset + ci_size chunk then (Undefined, fs)
      else apply_loop h filepath chunk_data (to_size_t (int (data_offset + ci_size chunk))) rest
             (stream_write h fs filepath (slice data_offset (data_offset + ci_size chunk) chunk_data)))"

definition applyDelta :: "host \<Rightarrow> store \<Rightarrow> string \<Rightarrow> chunk_info list \<Rightarrow> bytes \<Rightarrow> apply_result \<times> store" where
  "applyDelta h fs filepath cs chunk_data =
     (case open_out h fs filepath of
        None \<Rightarrow> (Returned False, fs)
      | Some fs \<Rightarrow> apply_loop h filepath chunk_data 0 cs fs)"

definition areFilesIdentical :: "'c sha_api \<Rightarrow> host \<Rightarrow> store \<Rightarrow> string \<Rightarrow> string \<Rightarrow> bool" where
  "areFilesIdentical api h fs path1 path2 =
     (let hash1 = sha256File api h fs path1; hash2 = sha256File api h fs path2
      in hash1 \<noteq> [] \<and> hash1 = hash2)"

subsection \<open>The loops in closed form\<close>

definition missing :: "string list \<Rightarrow> chunk_info list \<Rightarrow> chunk_info list" where
  "missing hashes ks = filter (\<lambda>k. ci_hash k \<notin> set hashes) ks"

definition present :: "string list \<Rightarrow> chunk_info list \<Rightarrow> chunk_info list" where
  "present hashes ks = filter (\<lambda>k. ci_hash k \<in> set hashes) ks"

lemma delta_loop_spec:
  assumes "bytes_to_transfer d + sum_list (map ci_size ks) < 2 ^ 64"
  shows "delta_loop (set hashes) d ks =
    \<lparr>new_chunks = new_chunks d @ missing hashes ks, existing_chunks = existing_chunks d @ present hashes ks,
     bytes_to_transfer = bytes_to_transfer d + sum_list (map ci_size (missing hashes ks))\<rparr>"
  using assms
proof (induction ks arbitrary: d)
  case Nil
  then show ?case by (simp add: missing_def present_def)
next
  case (Cons k ks)
  show ?case
  proof (cases "ci_hash k \<in> set hashes")
    case True
    then show ?thesis
      using Cons.IH [of "d\<lparr>existing_chunks := existing_chunks d @ [k]\<rparr>"] Cons.prems
      by (simp add: missing_def present_def)
  next
    case False
    have "to_size_t (int (bytes_to_transfer d + ci_size k)) = bytes_to_transfer d + ci_size k"
      using Cons.prems by (intro to_size_t_nat) simp
    with False show ?thesis
      using Cons.IH [of "d\<lparr>new_chunks := new_chunks d @ [k], bytes_to_transfer := bytes_to_transfer d + ci_size k\<rparr>"]
        Cons.prems
      by (simp add: missing_def present_def)
  qed
qed

lemma slice_append: "slice (length pre) (length pre + length xs) (pre @ xs @ post) = xs"
  by (simp add: slice_def)

lemma stream_write_regular:
  assumes "healthy h" and "fs (resolve (cwd h) s) = Some (Regular old)"
  shows "stream_write h fs s bs = fs(resolve (cwd h) s \<mapsto> Regular (old @ bs))"
  using assms by (simp add: stream_write_def healthyD Let_def)

text \<open>With enough bytes the loop appends the chunks' bytes one after the other.\<close>

lemma apply_loop_complete:
  assumes "healthy h" and "fs (resolve (cwd h) s) = Some (Regular old)"
    and "map ci_size ks = map length ps" and "length (pre @ concat ps @ post) < 2 ^ 64"
  shows "apply_loop h s (pre @ concat ps @ post) (length pre) ks fs =
    (Returned True, fs(resolve (cwd h) s \<mapsto> Regular (old @ concat ps)))"
  using assms(2-4)
proof (induction ks arbitrary: ps pre old fs)
  case Nil
  then show ?case by (auto simp: fun_eq_iff)
next
  case (Cons k ks)
  then obtain p ps' where ps: "ps = p # ps'" "ci_size k = length p" "map ci_size ks = map length ps'"
    by (cases ps) auto
  let ?p = "resolve (cwd h) s" and ?data = "pre @ concat ps @ post"
  have data: "?data = (pre @ p) @ concat ps' @ post" by (simp add: ps)
  have sz: "to_size_t (int (length pre + ci_size k)) = length (pre @ p)"
    using Cons.prems(3) by (subst to_size_t_nat) (simp_all add: ps)
  have sl: "slice (length pre) (length pre + ci_size k) ?data = p"
    using slice_append [of pre p "concat ps' @ post"] by (simp add: ps)
  have wr: "stream_write h fs s p = fs(?p \<mapsto> Regular (old @ p))"
    by (rule stream_write_regular [where fs = fs, OF assms(1) Cons.prems(1)])
  have "apply_loop h s ?data (length pre) (k # ks) fs =
      apply_loop h s ?data (length (pre @ p)) ks (fs(?p \<mapsto> Regular (old @ p)))"
    unfolding apply_loop.simps sz sl wr by (simp add: ps)
  also have "\<dots> = (Returned True, fs(?p \<mapsto> Regular (old @ p), ?p \<mapsto> Regular ((old @ p) @ concat ps')))"
    unfolding data by (rule Cons.IH) (use Cons.prems(3) ps in simp_all)
  also have "\<dots> = (Returned True, fs(?p \<mapsto> Regular (old @ concat ps)))" by (simp add: ps(1))
  finally show ?case .
qed

text \<open>Whatever the list, without wrap-around the loop is defined, and it stops at the first chunk that does not fit.\<close>

lemma apply_loop_result:
  assumes "off + sum_list (map ci_size ks) < 2 ^ 64"
  shows "fst (apply_loop h s bs off ks fs) = Returned (off + sum_list (map ci_size ks) \<le> length bs \<or> ks = [])"
  using assms
proof (induction ks arbitrary: off fs)
  case Nil
  then show ?case by simp
next
  case (Cons k ks)
  have sz: "to_size_t (int (off + ci_size k)) = off + ci_size k"
    using Cons.prems by (intro to_size_t_nat) simp
  have step: "apply_loop h s bs off (k # ks) fs =
      (if length bs < off + ci_size k then (Returned False, fs)
       else apply_loop h s bs (off + ci_size k) ks (stream_write h fs s (slice off (off + ci_size k) bs)))"
    unfolding apply_loop.simps sz by simp
  show ?case
  proof (cases "length bs < off + ci_size k")
    case True
    then show ?thesis unfolding step by simp
  next
    case False
    moreover have "off + ci_size k + sum_list (map ci_size ks) < 2 ^ 64" using Cons.prems by simp
    ultimately show ?thesis unfolding step using Cons.IH [of "off + ci_size k"] by (auto simp: add.assoc)
  qed
qed

lemma open_out_Some:
  assumes "open_out h fs s = Some fs'"
  shows "fs' = fs(resolve (cwd h) s \<mapsto> Regular [])"
  using assms by (auto simp: open_out_def Let_def split: if_splits)

lemma missing_append: "missing hashes (xs @ ys) = missing hashes xs @ missing hashes ys"
  by (simp add: missing_def)

lemma sum_list_missing: "sum_list (map ci_size (missing hashes ks)) \<le> sum_list (map ci_size ks)"
  by (induction ks) (simp_all add: missing_def)

lemma computeDelta_spec:
  assumes "read_file h fs f = Some bs" and "length bs < 2 ^ 64"
  shows "fst (computeDelta api h fs f hashes e) =
    (let ks = fst (chunkData api bs (engine_chunker e))
     in \<lparr>new_chunks = missing hashes ks, existing_chunks = present hashes ks,
         bytes_to_transfer = sum_list (map ci_size (missing hashes ks))\<rparr>)"
proof -
  have "sum_list (map ci_size (fst (chunkData api bs (engine_chunker e)))) < 2 ^ 64"
    unfolding sum_list_chunk_sizes by (rule assms(2))
  then show ?thesis
    using delta_loop_spec [of "\<lparr>new_chunks = [], existing_chunks = [], bytes_to_transfer = 0\<rparr>"
        "fst (chunkData api bs (engine_chunker e))" hashes]
    by (cases "chunkData api bs (engine_chunker e)")
      (simp add: computeDelta_def chunkFile_def assms(1) convertToSet_def Let_def)
qed

lemma chunks_of_append:
  assumes "xs \<noteq> []" and "content_cut (last (cut_up content_cut [] xs))"
  shows "fst (chunkData api (xs @ ys) c) = chunk_infos api 0 (cut_up content_cut [] xs) @
    chunk_infos api (length xs) (cut_up content_cut [] ys)"
  using content.cut_up_append [OF assms, of ys] content.concat_cut_up [of xs "[]"] assms(1)
  by (simp add: chunkData_spec chunk_infos_append)

subsection \<open>Properties\<close>

text \<open>the chunks of a local file are divided exactly into those whose hash the server has and those it has
  not, in order, and the bytes to transfer are the sizes of the latter.\<close>

theorem delta_divides_chunks:
  assumes "read_file h fs f = Some bs" and "length bs < 2 ^ 64"
  shows "let (d, e') = computeDelta api h fs f hashes e; ks = fst (chunkData api bs (engine_chunker e)) in
    new_chunks d = filter (\<lambda>k. ci_hash k \<notin> set hashes) ks \<and>
    existing_chunks d = filter (\<lambda>k. ci_hash k \<in> set hashes) ks \<and>
    bytes_to_transfer d + sum_list (map ci_size (existing_chunks d)) = length bs"
proof -
  let ?ks = "fst (chunkData api bs (engine_chunker e))"
  have "sum_list (map ci_size (missing hashes ?ks)) + sum_list (map ci_size (present hashes ?ks)) = length bs"
    using sum_list_partition [of ci_size "\<lambda>k. ci_hash k \<notin> set hashes" ?ks]
    unfolding sum_list_chunk_sizes missing_def present_def by simp
  moreover obtain d e' where d: "computeDelta api h fs f hashes e = (d, e')" by (cases "computeDelta api h fs f hashes e")
  moreover have "d = \<lparr>new_chunks = missing hashes ?ks, existing_chunks = present hashes ?ks,
      bytes_to_transfer = sum_list (map ci_size (missing hashes ?ks))\<rparr>"
    using computeDelta_spec [OF assms, of api hashes e] d by (simp add: Let_def)
  ultimately show ?thesis by (simp add: missing_def present_def)
qed

theorem delta_divides_chunks_witness:
  "let (d, e') = computeDelta toy_sha plain_host [[''f''] \<mapsto> Regular [1, 2, 3]] ''/f'' [] \<lparr>engine_chunker = no_stats\<rparr> in
    bytes_to_transfer d + sum_list (map ci_size (existing_chunks d)) = 3"
  using delta_divides_chunks [of plain_host "[[''f''] \<mapsto> Regular [1, 2, 3]]" "''/f''" "[1, 2, 3]" toy_sha "[]" "\<lparr>engine_chunker = no_stats\<rparr>"]
  by (auto simp: read_file_def resolve_def split: prod.splits)

text \<open>C24: appending costs what was appended: if the server has the chunks of an earlier version that ended at
  a cut, then for the file with more bytes appended no more than these bytes are to be transferred.\<close>

theorem appending_transfers_only_the_rest:
  assumes "xs \<noteq> []" and "content_cut (last (cut_up content_cut [] xs))"
    and "read_file h fs f = Some (xs @ ys)" and "length (xs @ ys) < 2 ^ 64"
  shows "bytes_to_transfer (fst (computeDelta api h fs f (map ci_hash (fst (chunkData api xs c))) e)) \<le> length ys"
proof -
  let ?old = "chunk_infos api 0 (cut_up content_cut [] xs)"
  let ?new = "chunk_infos api (length xs) (cut_up content_cut [] ys)"
  let ?hashes = "map ci_hash (fst (chunkData api xs c))"
  have "missing ?hashes ?old = []"
    by (auto simp: missing_def chunkData_spec filter_empty_conv)
  then have "bytes_to_transfer (fst (computeDelta api h fs f ?hashes e)) = sum_list (map ci_size (missing ?hashes ?new))"
    unfolding computeDelta_spec [OF assms(3,4)] chunks_of_append [OF assms(1,2)] Let_def
    by (simp add: missing_append)
  also have "\<dots> \<le> sum_list (map ci_size ?new)" by (rule sum_list_missing)
  also have "\<dots> = length ys"
    using sum_list_chunk_sizes [of api ys no_stats] by (simp add: chunkData_spec chunk_infos_sizes)
  finally show ?thesis .
qed

theorem appending_transfers_only_the_rest_witness:
  "bytes_to_transfer (fst (computeDelta toy_sha plain_host [[''f''] \<mapsto> Regular two_chunks] ''/f''
     (map ci_hash (fst (chunkData toy_sha (replicate 4096 0) no_stats))) \<lparr>engine_chunker = no_stats\<rparr>)) \<le> 3"
proof -
  have cut: "content_cut (last (cut_up content_cut [] (replicate 4096 0)))"
    unfolding cut_up_one_block by (rule zeros_cut)
  have ne: "replicate 4096 (0 :: u8) \<noteq> []" by simp
  have rd: "read_file plain_host [[''f''] \<mapsto> Regular two_chunks] ''/f'' = Some (replicate 4096 0 @ [1, 2, 3])"
    by (simp add: read_file_def resolve_def two_chunks_def)
  from appending_transfers_only_the_rest [OF ne cut rd] show ?thesis by (simp add: numeral_3_eq_3)
qed

text \<open>C23: a buffer is rebuilt from its chunks: applying the chunk list of any buffer to its bytes writes exactly
  the buffer.\<close>

theorem apply_rebuilds_the_file:
  assumes "healthy h" and "open_out h fs f = Some fs0" and "length data < 2 ^ 64"
  shows "applyDelta h fs f (fst (chunkData api data c)) data =
    (Returned True, fs(resolve (cwd h) f \<mapsto> Regular data))"
proof -
  let ?ps = "cut_up content_cut [] data" and ?ks = "fst (chunkData api data c)"
  have fs0: "fs0 = fs(resolve (cwd h) f \<mapsto> Regular [])" by (rule open_out_Some [OF assms(2)])
  have "apply_loop h f ([] @ concat ?ps @ []) (length ([] :: bytes)) ?ks fs0 =
      (Returned True, fs0(resolve (cwd h) f \<mapsto> Regular ([] @ concat ?ps)))"
    by (rule apply_loop_complete [OF assms(1)])
      (use assms(3) in \<open>simp_all add: fs0 chunkData_spec chunk_infos_sizes content.concat_cut_up\<close>)
  then show ?thesis by (simp add: applyDelta_def assms(2) fs0 content.concat_cut_up)
qed

theorem apply_rebuilds_the_file_witness:
  "applyDelta plain_host (\<lambda>_. None) ''/f'' (fst (chunkData toy_sha two_chunks no_stats)) two_chunks =
    (Returned True, [[''f''] \<mapsto> Regular two_chunks])"
  using apply_rebuilds_the_file [of plain_host "\<lambda>_. None" "''/f''" "[[''f''] \<mapsto> Regular []]" two_chunks toy_sha no_stats]
  by (simp add: plain_host_healthy open_out_def is_dir_def resolve_def two_chunks_def)



end
