(* ===== verification/Conflict_Resolver.thy ===== *)
theory Conflict_Resolver
  imports Host_Files
begin

text \<open>
  \<open>include/core/conflict_resolver.h\<close> and \<open>src/core/conflict_resolver.cpp\<close>: when two versions
  of a file conflict, which of them wins, and the name under which the other one is kept.

  \<open>std::filesystem::path\<close> is modelled on POSIX strings: the file name is what follows the last
  slash, and a period at its start does not begin an extension. The time stamp that
  \<open>std::put_time\<close> prints is the argument \<open>stamp\<close>.
\<close>

datatype conflict_strategy = KEEP_LOCAL | KEEP_REMOTE | KEEP_BOTH | MANUAL

record conflict_info =
  ci_path :: string
  local_hash :: string
  remote_hash :: string
  local_modified_time :: int
  remote_modified_time :: int
  local_version :: int
  remote_version :: int

definition hasConflict :: "conflict_info \<Rightarrow> bool" where
  "hasConflict info =
     (if local_hash info = remote_hash info then False
      else 0 < local_version info \<and> 0 < remote_version info)"

definition autoResolve :: "conflict_info \<Rightarrow> conflict_strategy" where
  "autoResolve info =
     (if remote_modified_time info < local_modified_time info then KEEP_LOCAL
      else if local_modified_time info < remote_modified_time info then KEEP_REMOTE
      else KEEP_BOTH)"

subsection \<open>The parts of a path\<close>

definition path_filename :: "string \<Rightarrow> string" where
  "path_filename s = rev (takeWhile (\<lambda>c. c \<noteq> CHR ''/'') (rev s))"

text \<open>The file name split before its last period.\<close>

definition split_extension :: "string \<Rightarrow> string \<times> string" where
  "split_extension w =
     (let ext = rev (takeWhile (\<lambda>c. c \<noteq> CHR ''.'') (rev w));
          base = rev (tl (dropWhile (\<lambda>c. c \<noteq> CHR ''.'') (rev w)))
      in if w = ''.'' \<or> w = ''..'' \<or> CHR ''.'' \<notin> set w \<or> base = [] then (w, [])
         else (base, CHR ''.'' # ext))"

definition path_join :: "string \<Rightarrow> string \<Rightarrow> string" where
  "path_join p s =
     (if s \<noteq> [] \<and> hd s = CHR ''/'' then s
      else if p = [] then s
      else if last p = CHR ''/'' then p @ s
      else p @ CHR ''/'' # s)"

definition getFileExtension :: "string \<Rightarrow> string" where
  "getFileExtension path =
     (let ext = snd (split_extension (path_filename path))
      in if ext \<noteq> [] \<and> hd ext = CHR ''.'' then tl ext else ext)"

definition getBaseName :: "string \<Rightarrow> string" where
  "getBaseName path = fst (split_extension (path_filename path))"

definition generateConflictName :: "string \<Rightarrow> string \<Rightarrow> string \<Rightarrow> string" where
  "generateConflictName stamp original_path client_id =
     (let base = getBaseName original_path; ext = getFileExtension original_path;
          ss = base @ '' (conflicted copy '' @ client_id @ '' '' @ stamp @ '')'';
          ss = (if ext \<noteq> [] then ss @ CHR ''.'' # ext else ss)
      in path_join (parent_path original_path) ss)"

definition resolve_conflict :: "string \<Rightarrow> conflict_info \<Rightarrow> conflict_strategy \<Rightarrow> string" where
  "resolve_conflict stamp info strategy =
     (case strategy of
        KEEP_LOCAL \<Rightarrow> ci_path info
      | KEEP_REMOTE \<Rightarrow> ci_path info
      | KEEP_BOTH \<Rightarrow> generateConflictName stamp (ci_path info) ''local''
      | MANUAL \<Rightarrow> [])"

subsection \<open>Facts on the parts of a path\<close>

lemma path_filename_plain: "CHR ''/'' \<notin> set w \<Longrightarrow> path_filename w = w"
  by (simp add: path_filename_def until_separator)

lemma path_filename_child: "CHR ''/'' \<notin> set w \<Longrightarrow> path_filename (d @ CHR ''/'' # w) = w"
  by (simp add: path_filename_def until_separator)

lemma parent_path_plain:
  assumes "CHR ''/'' \<notin> set w"
  shows "parent_path w = []"
proof -
  have "\<not> (w \<noteq> [] \<and> hd w = CHR ''/'')" using assms by (cases w) auto
  then show ?thesis by (simp add: parent_path_def Let_def until_separator(4) [OF assms])
qed

lemma split_no_period: "CHR ''.'' \<notin> set w \<Longrightarrow> split_extension w = (w, [])"
  by (simp add: split_extension_def)

lemma split_period:
  assumes "CHR ''.'' \<notin> set e" and "b \<noteq> []" and "b \<noteq> ''.'' \<or> e \<noteq> []"
  shows "split_extension (b @ CHR ''.'' # e) = (b, CHR ''.'' # e)"
proof -
  have "\<not> (b @ CHR ''.'' # e = ''.'' \<or> b @ CHR ''.'' # e = ''..'')"
    using assms by (cases b) (auto simp: append_eq_Cons_conv)
  with assms(1,2) show ?thesis
    by (simp add: split_extension_def Let_def until_separator)
qed

lemma split_hidden: "CHR ''.'' \<notin> set w \<Longrightarrow> split_extension (CHR ''.'' # w) = (CHR ''.'' # w, [])"
  by (simp add: split_extension_def Let_def until_separator)

lemma path_filename_no_slash: "CHR ''/'' \<notin> set (path_filename s)"
  by (auto simp: path_filename_def dest: set_takeWhileD)

text \<open>A file name without a final period is hidden, or has no extension, or has a base and an extension.\<close>

lemma filename_cases:
  assumes "w \<noteq> []" and "w \<noteq> ''.''" and "w \<noteq> ''..''" and "last w \<noteq> CHR ''.''"
  obtains (none) "CHR ''.'' \<notin> set w"
  | (hidden) v where "w = CHR ''.'' # v" and "CHR ''.'' \<notin> set v"
  | (ext) b e where "w = b @ CHR ''.'' # e" and "CHR ''.'' \<notin> set e" and "b \<noteq> []" and "e \<noteq> []"
proof (cases "CHR ''.'' \<in> set w")
  case False
  then show ?thesis by (rule none)
next
  case True
  then obtain b e where w: "w = b @ CHR ''.'' # e" "CHR ''.'' \<notin> set e" by (metis split_list_last)
  have e: "e \<noteq> []" using w(1) assms(4) by auto
  show ?thesis
  proof (cases "b = []")
    case True
    with w show ?thesis by (intro hidden [of e]) simp_all
  next
    case False
    with w e show ?thesis by (intro ext [of b e])
  qed
qed

text \<open>The mark a conflict leaves in a name.\<close>

definition conflict_mark :: "string \<Rightarrow> string \<Rightarrow> string" where
  "conflict_mark stamp client_id = '' (conflicted copy '' @ client_id @ '' '' @ stamp @ '')''"

lemma conflict_mark_chars:
  "CHR ''/'' \<notin> set stamp \<Longrightarrow> CHR ''/'' \<notin> set i \<Longrightarrow> CHR ''/'' \<notin> set (conflict_mark stamp i)"
  "CHR ''.'' \<notin> set stamp \<Longrightarrow> CHR ''.'' \<notin> set i \<Longrightarrow> CHR ''.'' \<notin> set (conflict_mark stamp i)"
  by (simp_all add: conflict_mark_def)

definition conflict_filename :: "string \<Rightarrow> string \<Rightarrow> string \<Rightarrow> string" where
  "conflict_filename stamp i w =
     (case split_extension w of (b, e) \<Rightarrow> b @ conflict_mark stamp i @ (if tl e = [] then [] else e))"

lemma generateConflictName_filename:
  "generateConflictName stamp p i = path_join (parent_path p) (conflict_filename stamp i (path_filename p))"
  by (auto simp: generateConflictName_def conflict_filename_def getBaseName_def getFileExtension_def Let_def
      conflict_mark_def split_extension_def)

lemma conflict_filename_extension:
  assumes "w \<noteq> []" and "w \<noteq> ''.''" and "w \<noteq> ''..''" and "last w \<noteq> CHR ''.''"
    and "CHR ''.'' \<notin> set stamp" and "CHR ''.'' \<notin> set i"
  shows "split_extension (conflict_filename stamp i w) =
    (fst (split_extension w) @ conflict_mark stamp i, snd (split_extension w))"
  using assms(1-4)
proof (cases rule: filename_cases)
  case none
  then show ?thesis
    using conflict_mark_chars(2) [OF assms(5,6)] by (simp add: conflict_filename_def split_no_period)
next
  case (hidden v)
  then show ?thesis
    using conflict_mark_chars(2) [OF assms(5,6)] split_hidden [of "v @ conflict_mark stamp i"]
    by (simp add: conflict_filename_def split_hidden)
next
  case (ext b e)
  have "split_extension ((b @ conflict_mark stamp i) @ CHR ''.'' # e) = (b @ conflict_mark stamp i, CHR ''.'' # e)"
    using ext by (intro split_period) simp_all
  then show ?thesis using ext by (simp add: conflict_filename_def split_period)
qed

lemma in_set_tl: "x \<in> set (tl xs) \<Longrightarrow> x \<in> set xs"
  by (cases xs) auto

lemma conflict_filename_slash:
  assumes "CHR ''/'' \<notin> set w" and "CHR ''/'' \<notin> set stamp" and "CHR ''/'' \<notin> set i"
  shows "CHR ''/'' \<notin> set (conflict_filename stamp i w)"
proof -
  have "set (fst (split_extension w)) \<subseteq> set w" "set (snd (split_extension w)) \<subseteq> set w"
    by (auto simp: split_extension_def Let_def dest!: set_takeWhileD set_dropWhileD in_set_tl)
  then show ?thesis
    using assms conflict_mark_chars(1) [OF assms(2,3)]
    by (cases "split_extension w") (auto simp: conflict_filename_def)
qed

subsection \<open>Properties\<close>

text \<open>A file name as it occurs in a directory, without a final period.\<close>

definition ordinary_name :: "string \<Rightarrow> bool" where
  "ordinary_name w \<longleftrightarrow> plain_name w \<and> last w \<noteq> CHR ''.''"

text \<open>C31: keeping both versions makes a sibling with the same extension: the name given to the local version is
  a different one, in the same directory, and has the extension of the original and its base name as a prefix.\<close>

theorem conflict_copy_is_a_sibling:
  assumes "ordinary_name w" and "d \<noteq> []" and "last d \<noteq> CHR ''/''" and "ci_path info = d @ CHR ''/'' # w"
    and "CHR ''/'' \<notin> set stamp" and "CHR ''.'' \<notin> set stamp"
  defines "copy \<equiv> resolve_conflict stamp info KEEP_BOTH"
  shows "copy \<noteq> ci_path info \<and> parent_path copy = parent_path (ci_path info) \<and>
    getFileExtension copy = getFileExtension (ci_path info) \<and>
    getBaseName copy = getBaseName (ci_path info) @ conflict_mark stamp ''local''"
proof -
  have w: "CHR ''/'' \<notin> set w" "w \<noteq> []" "w \<noteq> ''.''" "w \<noteq> ''..''" "last w \<noteq> CHR ''.''"
    using assms(1) by (simp_all add: ordinary_name_def plain_name_def)
  define v where "v = conflict_filename stamp ''local'' w"
  have split: "split_extension v = (fst (split_extension w) @ conflict_mark stamp ''local'', snd (split_extension w))"
    unfolding v_def by (rule conflict_filename_extension [OF w(2-5) assms(6)]) simp
  have v: "CHR ''/'' \<notin> set v"
    unfolding v_def by (rule conflict_filename_slash [OF w(1) assms(5)]) simp
  have "v \<noteq> w"
  proof
    assume "v = w"
    then have "fst (split_extension w) @ conflict_mark stamp ''local'' = fst (split_extension w)"
      using split by (metis fst_conv)
    then show False by (simp add: conflict_mark_def)
  qed
  have "v \<noteq> []"
  proof
    assume "v = []"
    then show False using split by (simp add: split_extension_def conflict_mark_def)
  qed
  have dir: "parent_path (d @ CHR ''/'' # w) = d" "path_filename (d @ CHR ''/'' # w) = w"
    using parent_path_child [OF assms(2,3) w(1)] path_filename_child [OF w(1)] by simp_all
  have "path_join d v = d @ CHR ''/'' # v"
    using v \<open>v \<noteq> []\<close> assms(2,3) by (cases v) (auto simp: path_join_def)
  then have copy: "copy = d @ CHR ''/'' # v"
    unfolding copy_def by (simp add: resolve_conflict_def assms(4) generateConflictName_filename dir v_def)
  show ?thesis
    unfolding copy assms(4) getFileExtension_def getBaseName_def path_filename_child [OF v] dir
      parent_path_child [OF assms(2,3) v]
    using \<open>v \<noteq> w\<close> by (simp add: split)
qed

theorem conflict_copy_is_a_sibling_witness:
  "getFileExtension (resolve_conflict ''2024-01-02 03-04-05''
      \<lparr>ci_path = ''docs/a.txt'', local_hash = ''1'', remote_hash = ''2'', local_modified_time = 5,
       remote_modified_time = 5, local_version = 1, remote_version = 1\<rparr> KEEP_BOTH) = getFileExtension ''docs/a.txt''"
  using conflict_copy_is_a_sibling [of "''a.txt''" "''docs''"
      "\<lparr>ci_path = ''docs/a.txt'', local_hash = ''1'', remote_hash = ''2'', local_modified_time = 5,
        remote_modified_time = 5, local_version = 1, remote_version = 1\<rparr>" "''2024-01-02 03-04-05''"]
  by (simp add: ordinary_name_def plain_name_def)

text \<open>Both ends of a conflict: the same information with the roles exchanged.\<close>

definition other_end :: "conflict_info \<Rightarrow> conflict_info" where
  "other_end info = info\<lparr>local_hash := remote_hash info, remote_hash := local_hash info,
     local_modified_time := remote_modified_time info, remote_modified_time := local_modified_time info,
     local_version := remote_version info, remote_version := local_version info\<rparr>"

fun other_choice :: "conflict_strategy \<Rightarrow> conflict_strategy" where
  "other_choice KEEP_LOCAL = KEEP_REMOTE"
| "other_choice KEEP_REMOTE = KEEP_LOCAL"
| "other_choice s = s"

text \<open>both ends agree: they see a conflict in the same cases, and the automatic strategy picks the same
  version on both, the later one, or keeps both when the times are equal; it is never left to the user.\<close>

theorem both_ends_agree:
  "hasConflict (other_end info) = hasConflict info \<and>
   autoResolve (other_end info) = other_choice (autoResolve info) \<and>
   (autoResolve info = KEEP_BOTH \<longleftrightarrow> local_modified_time info = remote_modified_time info) \<and>
   (autoResolve info = KEEP_LOCAL \<longleftrightarrow> remote_modified_time info < local_modified_time info) \<and>
   autoResolve info \<noteq> MANUAL"
  by (auto simp: hasConflict_def autoResolve_def other_end_def)

end
