(* ===== verification/Thread_Pool.thy ===== *)
theory Thread_Pool
  imports Lite_Prelude "HOL-Library.Multiset"
begin

text \<open>
  \<open>include/common/thread_pool.h\<close> and \<open>src/common/thread_pool.cpp\<close>: the thread pool as a
  transition system. Whatever runs under \<open>queue_mutex_\<close> is one step, except that the evaluation of a
  wait predicate and the moment the thread is blocked are two, with the lock held in between: a
  notification that does not take the lock can fall between them. The atomic operations and the
  notifications outside the lock are steps of their own.

  The threads are the workers, at the program points of \<open>worker\<close>, one thread that calls
  \<open>wait\<close>, and any number of callers of \<open>enqueue\<close>, of which only the notifications still to
  come are counted. A step is one of a client, of the pool, or a spurious wakeup. The fields
  \<open>submitted\<close> and \<open>finished\<close> record what happened and are not read. Exceptions of a task end
  in its future and are not visible here; the task itself is abstract. \<open>Pool_Futures\<close> adds them.
\<close>

subsection \<open>State\<close>

datatype 't worker =
    Idle            \<comment> \<open>about to take the lock\<close>
  | Checked         \<comment> \<open>holds the lock, the predicate was false\<close>
  | Blocked         \<comment> \<open>in \<open>condition_.wait\<close>\<close>
  | Taken 't        \<comment> \<open>has a task, the lock is released\<close>
  | Running 't      \<comment> \<open>after \<open>active_tasks_++\<close>\<close>
  | Ran 't          \<comment> \<open>the task has returned\<close>
  | Notifying       \<comment> \<open>after \<open>active_tasks_--\<close>\<close>
  | Exited

datatype waiter = W_None | W_Start | W_Checked | W_Blocked | W_Returned

record 't pool =
  queued :: "'t list"
  stopping :: bool
  active_tasks :: nat
  workers :: "'t worker list"
  notify_pending :: nat
  stop_notify :: bool
  waiter :: waiter
  submitted :: "'t list"
  finished :: "'t list"

datatype pool_error = Enqueue_On_Stopped

datatype actor = Client | Internal | Spurious

definition ThreadPool :: "nat \<Rightarrow> 't pool" where
  "ThreadPool num_threads = \<lparr>queued = [], stopping = False, active_tasks = 0,
     workers = replicate num_threads Idle, notify_pending = 0, stop_notify = False, waiter = W_None,
     submitted = [], finished = []\<rparr>"

definition pool_size :: "'t pool \<Rightarrow> nat" where
  "pool_size p = length (workers p)"

definition pending :: "'t pool \<Rightarrow> nat" where
  "pending p = length (queued p)"

definition lock_free :: "'t pool \<Rightarrow> bool" where
  "lock_free p \<longleftrightarrow> Checked \<notin> set (workers p) \<and> waiter p \<noteq> W_Checked"

subsection \<open>The sections of the code\<close>

text \<open>The locked part of \<open>enqueue\<close>; \<open>notify_one\<close> is still to come.\<close>

definition enqueue :: "'t \<Rightarrow> 't pool \<Rightarrow> pool_error + 't pool" where
  "enqueue t p =
     (if stopping p then Inl Enqueue_On_Stopped
      else Inr (p\<lparr>queued := queued p @ [t], notify_pending := notify_pending p + 1,
                  submitted := submitted p @ [t]\<rparr>))"

definition set_worker :: "nat \<Rightarrow> 't worker \<Rightarrow> 't pool \<Rightarrow> 't pool" where
  "set_worker i w p = p\<lparr>workers := (workers p)[i := w]\<rparr>"

text \<open>The locked part of the loop of a worker.\<close>

definition worker_section :: "nat \<Rightarrow> 't pool \<Rightarrow> 't pool" where
  "worker_section i p =
     (if \<not> (stopping p \<or> queued p \<noteq> []) then set_worker i Checked p
      else if stopping p \<and> queued p = [] then set_worker i Exited p
      else set_worker i (Taken (hd (queued p))) (p\<lparr>queued := tl (queued p)\<rparr>))"

text \<open>The rest of the loop, one atomic operation at a time.\<close>

definition notify_waiters :: "'t pool \<Rightarrow> 't pool" where
  "notify_waiters p = p\<lparr>waiter := (if waiter p = W_Blocked then W_Start else waiter p)\<rparr>"

fun worker_continue :: "nat \<Rightarrow> 't worker \<Rightarrow> 't pool \<Rightarrow> 't pool option" where
  "worker_continue i Checked p = Some (set_worker i Blocked p)"
| "worker_continue i (Taken t) p = Some (set_worker i (Running t) (p\<lparr>active_tasks := active_tasks p + 1\<rparr>))"
| "worker_continue i (Running t) p = Some (set_worker i (Ran t) (p\<lparr>finished := finished p @ [t]\<rparr>))"
| "worker_continue i (Ran t) p = Some (set_worker i Notifying (p\<lparr>active_tasks := active_tasks p - 1\<rparr>))"
| "worker_continue i Notifying p = Some (set_worker i Idle (notify_waiters p))"
| "worker_continue i _ p = None"

text \<open>The destructor: under the lock, then \<open>notify_all\<close>; joining is waiting until all workers have exited.\<close>

definition begin_destroy :: "'t pool \<Rightarrow> 't pool" where
  "begin_destroy p = p\<lparr>stopping := True, stop_notify := True\<rparr>"

definition wake_all :: "'t pool \<Rightarrow> 't pool" where
  "wake_all p = p\<lparr>workers := map (\<lambda>w. if w = Blocked then Idle else w) (workers p), stop_notify := False\<rparr>"

definition joined :: "'t pool \<Rightarrow> bool" where
  "joined p \<longleftrightarrow> stopping p \<and> (\<forall>w \<in> set (workers p). w = Exited)"

text \<open>The predicate of \<open>wait\<close> is evaluated under the lock.\<close>

definition wait_section :: "'t pool \<Rightarrow> 't pool" where
  "wait_section p = p\<lparr>waiter := (if queued p = [] \<and> active_tasks p = 0 then W_Returned else W_Checked)\<rparr>"

subsection \<open>The transition system\<close>

inductive pool_step :: "'t pool \<Rightarrow> actor \<Rightarrow> 't pool \<Rightarrow> bool" where
  enqueue_step: "lock_free p \<Longrightarrow> enqueue t p = Inr p' \<Longrightarrow> pool_step p Client p'"
| notify_one: "0 < notify_pending p \<Longrightarrow> i < length (workers p) \<Longrightarrow> workers p ! i = Blocked \<Longrightarrow>
    pool_step p Internal (set_worker i Idle (p\<lparr>notify_pending := notify_pending p - 1\<rparr>))"
| notify_none: "0 < notify_pending p \<Longrightarrow> Blocked \<notin> set (workers p) \<Longrightarrow>
    pool_step p Internal (p\<lparr>notify_pending := notify_pending p - 1\<rparr>)"
| section_step: "i < length (workers p) \<Longrightarrow> workers p ! i = Idle \<Longrightarrow> lock_free p \<Longrightarrow>
    pool_step p Internal (worker_section i p)"
| continue_step: "i < length (workers p) \<Longrightarrow> worker_continue i (workers p ! i) p = Some p' \<Longrightarrow>
    pool_step p Internal p'"
| destroy_step: "lock_free p \<Longrightarrow> \<not> stopping p \<Longrightarrow> pool_step p Client (begin_destroy p)"
| wake_step: "stop_notify p \<Longrightarrow> pool_step p Internal (wake_all p)"
| call_wait: "waiter p = W_None \<or> waiter p = W_Returned \<Longrightarrow> pool_step p Client (p\<lparr>waiter := W_Start\<rparr>)"
| wait_check: "waiter p = W_Start \<Longrightarrow> lock_free p \<Longrightarrow> pool_step p Internal (wait_section p)"
| wait_block: "waiter p = W_Checked \<Longrightarrow> pool_step p Internal (p\<lparr>waiter := W_Blocked\<rparr>)"
| spurious_worker: "i < length (workers p) \<Longrightarrow> workers p ! i = Blocked \<Longrightarrow> pool_step p Spurious (set_worker i Idle p)"
| spurious_waiter: "waiter p = W_Blocked \<Longrightarrow> pool_step p Spurious (p\<lparr>waiter := W_Start\<rparr>)"

inductive_cases internal_stepE: "pool_step p Internal p'"

inductive reachable :: "nat \<Rightarrow> 't pool \<Rightarrow> bool" for n where
  start: "reachable n (ThreadPool n)"
| step: "reachable n p \<Longrightarrow> pool_step p a p' \<Longrightarrow> reachable n p'"

text \<open>What holds at the start and is kept by every step holds in every reachable state.\<close>

locale pool_invariant =
  fixes inv :: "nat \<Rightarrow> 't pool \<Rightarrow> bool"
  assumes inv_start: "inv n (ThreadPool n)"
    and inv_step: "pool_step p a p' \<Longrightarrow> inv n p \<Longrightarrow> inv n p'"
begin

lemma invariant: "reachable n p \<Longrightarrow> inv n p"
  by (induction rule: reachable.induct) (auto intro: inv_start inv_step)

end

subsection \<open>Every task is in one place\<close>

fun held :: "'t worker \<Rightarrow> 't multiset" where
  "held (Taken t) = {#t#}"
| "held (Running t) = {#t#}"
| "held _ = {#}"

fun counted :: "'t worker \<Rightarrow> nat" where
  "counted (Running t) = 1"
| "counted (Ran t) = 1"
| "counted _ = 0"

definition held_all :: "'t pool \<Rightarrow> 't multiset" where
  "held_all p = sum_list (map held (workers p))"

definition tasks_ok :: "'t pool \<Rightarrow> bool" where
  "tasks_ok p \<longleftrightarrow> mset (submitted p) = mset (queued p) + held_all p + mset (finished p) \<and>
     active_tasks p = sum_list (map counted (workers p))"

lemma sum_list_set:
  "i < length ws \<Longrightarrow> sum_list (map f (ws[i := w])) + f (ws ! i) = sum_list (map f ws) + (f w :: 'a :: comm_monoid_add)"
proof (induction ws arbitrary: i)
  case Nil
  then show ?case by simp
next
  case (Cons v ws)
  then show ?case by (cases i) (simp_all add: ac_simps)
qed

lemma held_set_worker:
  assumes "i < length (workers p)"
  shows "held_all (set_worker i w p) + held (workers p ! i) = held_all p + held w"
    and "sum_list (map counted (workers (set_worker i w p))) + counted (workers p ! i) =
      sum_list (map counted (workers p)) + counted w"
  using sum_list_set [OF assms] by (simp_all add: held_all_def set_worker_def)

lemma wake_keeps: "held (if w = Blocked then Idle else w) = held w" "counted (if w = Blocked then Idle else w) = counted w"
  by simp_all

lemma set_worker_fields [simp]:
  "queued (set_worker i w p) = queued p" "stopping (set_worker i w p) = stopping p"
  "active_tasks (set_worker i w p) = active_tasks p" "submitted (set_worker i w p) = submitted p"
  "finished (set_worker i w p) = finished p" "waiter (set_worker i w p) = waiter p"
  "notify_pending (set_worker i w p) = notify_pending p" "stop_notify (set_worker i w p) = stop_notify p"
  "workers (set_worker i w p) = (workers p)[i := w]"
  by (simp_all add: set_worker_def)

lemma notify_waiters_fields [simp]:
  "queued (notify_waiters p) = queued p" "stopping (notify_waiters p) = stopping p"
  "active_tasks (notify_waiters p) = active_tasks p" "submitted (notify_waiters p) = submitted p"
  "finished (notify_waiters p) = finished p" "workers (notify_waiters p) = workers p"
  "notify_pending (notify_waiters p) = notify_pending p" "stop_notify (notify_waiters p) = stop_notify p"
  by (simp_all add: notify_waiters_def)

lemma held_all_workers: "workers p = workers q \<Longrightarrow> held_all p = held_all q"
  by (simp add: held_all_def)

lemma balance:
  fixes S :: "'a :: cancel_comm_monoid_add"
  assumes "H' + hi = H + hw" and "S' + hi + Q + F = S + hw + Q' + F'" and "S = Q + H + F"
  shows "S' = Q' + H' + F'"
proof -
  have "(S' + hi) + (Q + F) = (Q' + F' + (H + hw)) + (Q + F)"
    using assms(2,3) by (simp add: ac_simps)
  then have "S' + hi = Q' + F' + (H' + hi)" by (simp only: add_right_cancel assms(1))
  then have "S' + hi = (Q' + H' + F') + hi" by (simp add: ac_simps)
  then show ?thesis by (simp only: add_right_cancel)
qed

text \<open>Moving worker \<open>i\<close> to \<open>w\<close> keeps the balance if the other fields make up for it.\<close>

lemma tasks_ok_move:
  assumes "tasks_ok p" and "i < length (workers p)" and "workers q = workers p"
    and "mset (submitted q) + held (workers p ! i) + mset (queued p) + mset (finished p) =
      mset (submitted p) + held w + mset (queued q) + mset (finished q)"
    and "active_tasks q + counted (workers p ! i) = active_tasks p + counted w"
  shows "tasks_ok (set_worker i w q)"
proof -
  have q: "held_all q = held_all p" by (rule held_all_workers [OF assms(3)])
  have moved: "held_all (set_worker i w q) + held (workers p ! i) = held_all p + held w"
    "sum_list (map counted (workers (set_worker i w q))) + counted (workers p ! i) =
      sum_list (map counted (workers p)) + counted w"
    using held_set_worker [of i q w] assms(2,3) by (simp_all add: q)
  have ok: "mset (submitted p) = mset (queued p) + held_all p + mset (finished p)"
    "active_tasks p = sum_list (map counted (workers p))"
    using assms(1) by (simp_all add: tasks_ok_def)
  have "mset (submitted q) = mset (queued q) + held_all (set_worker i w q) + mset (finished q)"
    by (rule balance [OF moved(1) assms(4) ok(1)])
  moreover have "active_tasks q = sum_list (map counted (workers (set_worker i w q)))"
    using moved(2) assms(5) ok(2) by linarith
  ultimately show ?thesis by (simp add: tasks_ok_def)
qed

lemma tasks_ok_frame:
  assumes "tasks_ok p" and "held_all q = held_all p" and "map counted (workers q) = map counted (workers p)"
    and "mset (submitted q) + mset (queued p) = mset (submitted p) + mset (queued q)"
    and "finished q = finished p" and "active_tasks q = active_tasks p"
  shows "tasks_ok q"
proof -
  have "mset (submitted q) + mset (queued p) = (mset (queued q) + held_all q + mset (finished q)) + mset (queued p)"
    using assms(1,2,4,5) by (simp add: tasks_ok_def ac_simps)
  then have "mset (submitted q) = mset (queued q) + held_all q + mset (finished q)"
    by (simp only: add_right_cancel)
  then show ?thesis using assms by (simp add: tasks_ok_def)
qed

lemma active_positive:
  assumes "tasks_ok p" and "i < length (workers p)" and "workers p ! i = Ran t"
  shows "0 < active_tasks p"
proof -
  have "counted (workers p ! i) \<in> set (map counted (workers p))" using assms(2) by simp
  then have "counted (workers p ! i) \<le> sum_list (map counted (workers p))" by (rule member_le_sum_list) simp
  then show ?thesis using assms(1,3) by (simp add: tasks_ok_def)
qed

lemma continue_tasks_ok:
  assumes "tasks_ok p" and "i < length (workers p)" and "worker_continue i (workers p ! i) p = Some p'"
  shows "tasks_ok p'"
proof (cases "workers p ! i")
  case (Ran t)
  then have "0 < active_tasks p" by (rule active_positive [OF assms(1,2)])
  then show ?thesis
    using assms Ran by (auto intro!: tasks_ok_move [OF assms(1,2)])
qed (use assms in \<open>auto intro!: tasks_ok_move [OF assms(1,2)]\<close>)

lemma section_tasks_ok:
  assumes "tasks_ok p" and "i < length (workers p)" and "workers p ! i = Idle"
  shows "tasks_ok (worker_section i p)"
  using assms(3) unfolding worker_section_def
  by (cases "queued p") (auto intro!: tasks_ok_move [OF assms(1,2)])

lemma wake_all_frame: "held_all (wake_all p) = held_all p" "map counted (workers (wake_all p)) = map counted (workers p)"
  by (auto simp: held_all_def wake_all_def comp_def wake_keeps intro!: arg_cong [where f = sum_list])

lemma step_tasks_ok: "pool_step p a p' \<Longrightarrow> tasks_ok p \<Longrightarrow> tasks_ok p'"
proof (induction rule: pool_step.induct)
  case (enqueue_step p t p')
  then show ?case
    by (intro tasks_ok_frame [OF enqueue_step.prems]) (auto simp: enqueue_def held_all_def split: if_splits)
next
  case (notify_one p i)
  then show ?case by (intro tasks_ok_move [OF notify_one.prems]) simp_all
next
  case (notify_none p)
  then show ?case by (intro tasks_ok_frame [OF notify_none.prems]) (simp_all add: held_all_def)
next
  case (section_step i p)
  then show ?case using section_tasks_ok [of p i] by blast
next
  case (continue_step i p p')
  then show ?case using continue_tasks_ok [of p i p'] by blast
next
  case (destroy_step p)
  then show ?case by (intro tasks_ok_frame [OF destroy_step.prems]) (simp_all add: begin_destroy_def held_all_def)
next
  case (wake_step p)
  then show ?case
    using wake_all_frame [of p] by (intro tasks_ok_frame [OF wake_step.prems]) (simp_all add: wake_all_def)
next
  case (call_wait p)
  then show ?case by (intro tasks_ok_frame [OF call_wait.prems]) (simp_all add: held_all_def)
next
  case (wait_check p)
  then show ?case by (intro tasks_ok_frame [OF wait_check.prems]) (simp_all add: wait_section_def held_all_def)
next
  case (wait_block p)
  then show ?case by (intro tasks_ok_frame [OF wait_block.prems]) (simp_all add: held_all_def)
next
  case (spurious_worker i p)
  then show ?case by (intro tasks_ok_move [OF spurious_worker.prems]) simp_all
next
  case (spurious_waiter p)
  then show ?case by (intro tasks_ok_frame [OF spurious_waiter.prems]) (simp_all add: held_all_def)
qed

lemma start_tasks_ok: "tasks_ok (ThreadPool n)"
  by (induction n) (simp_all add: tasks_ok_def ThreadPool_def held_all_def)

interpretation tasks: pool_invariant "\<lambda>n. tasks_ok"
  by unfold_locales (auto intro: start_tasks_ok step_tasks_ok)

lemmas reachable_tasks_ok = tasks.invariant

subsection \<open>What each thread can rely on\<close>

text \<open>
  A worker that holds the lock to go to sleep has seen an empty queue; a worker exits only when there
  is nothing left; after the notification of the destructor nobody sleeps; and while a task is queued, some
  worker is awake or a notification is on its way.
\<close>

definition sleep_ok :: "'t pool \<Rightarrow> bool" where
  "sleep_ok p \<longleftrightarrow> (Checked \<in> set (workers p) \<longrightarrow> queued p = [] \<and> \<not> stopping p) \<and>
     (Exited \<in> set (workers p) \<longrightarrow> queued p = [] \<and> stopping p) \<and>
     (stopping p \<and> \<not> stop_notify p \<longrightarrow> Blocked \<notin> set (workers p)) \<and>
     (set (workers p) \<subseteq> {Blocked} \<longrightarrow> queued p = [] \<or> 0 < notify_pending p \<or> workers p = [])"

lemma set_update: "i < length ws \<Longrightarrow> x \<in> set (ws[i := w]) \<Longrightarrow> x = w \<or> x \<in> set ws"
  using set_update_subset_insert [of ws i w] by auto

lemma awake_update: "i < length ws \<Longrightarrow> w \<noteq> Blocked \<Longrightarrow> \<not> set (ws[i := w]) \<subseteq> {Blocked}"
  using set_update_memI [of i ws w] by auto

text \<open>Moving a worker to a point that is neither asleep, nor about to sleep, nor the end.\<close>

lemma sleep_ok_move:
  assumes "sleep_ok p" and "i < length (workers p)" and "w \<noteq> Checked" and "w \<noteq> Exited" and "w \<noteq> Blocked"
    and "workers q = workers p" and "stopping q = stopping p" and "stop_notify q = stop_notify p"
    and "queued p = [] \<longrightarrow> queued q = []"
  shows "sleep_ok (set_worker i w q)"
  using assms(1,3-9) awake_update [OF assms(2,5)] set_update [OF assms(2), of _ w]
  unfolding sleep_ok_def set_worker_fields by metis

lemma continue_sleep_ok:
  assumes "sleep_ok p" and "i < length (workers p)" and "worker_continue i (workers p ! i) p = Some p'"
  shows "sleep_ok p'"
proof (cases "workers p ! i")
  case Checked
  have p': "p' = set_worker i Blocked p" using assms(3) Checked by simp
  have "Checked \<in> set (workers p)" using Checked assms(2) by (metis nth_mem)
  then have "queued p = []" "\<not> stopping p" using assms(1) by (simp_all add: sleep_ok_def)
  moreover have "Exited \<notin> set (workers p)" using assms(1) \<open>\<not> stopping p\<close> by (auto simp: sleep_ok_def)
  ultimately show ?thesis
    using set_update [OF assms(2), of _ Blocked] by (auto simp: p' sleep_ok_def)
qed (use assms in \<open>auto intro!: sleep_ok_move [OF assms(1,2)]\<close>)

lemma section_sleep_ok:
  assumes "sleep_ok p" and "i < length (workers p)" and "workers p ! i = Idle"
  shows "sleep_ok (worker_section i p)"
proof -
  consider (chk) "\<not> stopping p" "queued p = []" | (ext) "stopping p" "queued p = []" | (tak) "queued p \<noteq> []"
    by blast
  then show ?thesis
  proof cases
    case chk
    then have "worker_section i p = set_worker i Checked p" by (simp add: worker_section_def)
    then show ?thesis
      using assms(1) chk set_update [OF assms(2), of _ Checked] by (auto simp: sleep_ok_def)
  next
    case ext
    then have "worker_section i p = set_worker i Exited p" by (simp add: worker_section_def)
    then show ?thesis
      using assms(1) ext set_update [OF assms(2), of _ Exited] by (auto simp: sleep_ok_def)
  next
    case tak
    then have "worker_section i p = set_worker i (Taken (hd (queued p))) (p\<lparr>queued := tl (queued p)\<rparr>)"
      by (simp add: worker_section_def)
    then show ?thesis
      using tak by (auto intro!: sleep_ok_move [OF assms(1,2)])
  qed
qed

lemma step_sleep_ok: "pool_step p a p' \<Longrightarrow> sleep_ok p \<Longrightarrow> sleep_ok p'"
proof (induction rule: pool_step.induct)
  case (enqueue_step p t p')
  then show ?case by (auto simp: enqueue_def sleep_ok_def lock_free_def split: if_splits)
next
  case (notify_one p i)
  then show ?case by (auto intro!: sleep_ok_move [OF notify_one.prems])
next
  case (notify_none p)
  then show ?case by (cases "workers p") (auto simp: sleep_ok_def)
next
  case (section_step i p)
  then show ?case using section_sleep_ok [of p i] by blast
next
  case (continue_step i p p')
  then show ?case using continue_sleep_ok [of p i p'] by blast
next
  case (destroy_step p)
  then show ?case by (auto simp: sleep_ok_def begin_destroy_def lock_free_def)
next
  case (wake_step p)
  then show ?case by (cases "workers p") (auto simp: sleep_ok_def wake_all_def image_iff split: if_splits)
next
  case (spurious_worker i p)
  then show ?case by (auto intro!: sleep_ok_move [OF spurious_worker.prems])
qed (auto simp: sleep_ok_def wait_section_def)

lemma start_sleep_ok: "sleep_ok (ThreadPool n)"
  by (cases n) (simp_all add: sleep_ok_def ThreadPool_def)

interpretation sleepers: pool_invariant "\<lambda>n. sleep_ok"
  by unfold_locales (auto intro: start_sleep_ok step_sleep_ok)

lemmas reachable_sleep_ok = sleepers.invariant

lemma step_size: "pool_step p a p' \<Longrightarrow> length (workers p') = length (workers p)"
proof (induction rule: pool_step.induct)
  case (continue_step i p p')
  then show ?case by (cases "workers p ! i") auto
qed (auto simp: enqueue_def worker_section_def begin_destroy_def wake_all_def wait_section_def split: if_splits)

interpretation workforce: pool_invariant "\<lambda>n p. length (workers p) = n"
  by unfold_locales (simp_all add: ThreadPool_def step_size)

lemmas reachable_size = workforce.invariant

subsection \<open>Without new calls the pool comes to rest, with nothing left to do\<close>

fun worker_work :: "'t worker \<Rightarrow> nat" where
  "worker_work Idle = 2"
| "worker_work Checked = 1"
| "worker_work Blocked = 0"
| "worker_work (Taken t) = 8"
| "worker_work (Running t) = 7"
| "worker_work (Ran t) = 6"
| "worker_work Notifying = 5"
| "worker_work Exited = 0"

fun waiter_work :: "waiter \<Rightarrow> nat" where
  "waiter_work W_Start = 2"
| "waiter_work W_Checked = 1"
| "waiter_work _ = 0"

text \<open>A bound on the number of steps of the pool itself.\<close>

definition pool_work :: "'t pool \<Rightarrow> nat" where
  "pool_work p = 7 * length (queued p) + sum_list (map worker_work (workers p)) + waiter_work (waiter p) +
     3 * notify_pending p + (if stop_notify p then 2 * length (workers p) + 1 else 0)"

lemma work_set_worker:
  "i < length ws \<Longrightarrow> sum_list (map worker_work (ws[i := w])) + worker_work (ws ! i) =
    sum_list (map worker_work ws) + worker_work w"
  by (rule sum_list_set)

lemma work_wake: "sum_list (map worker_work (map (\<lambda>w. if w = Blocked then Idle else w) ws)) \<le>
    sum_list (map worker_work ws) + 2 * length ws"
  by (induction ws) auto

lemma continue_decreases:
  assumes "i < length (workers p)" and "worker_continue i (workers p ! i) p = Some p'"
  shows "pool_work p' < pool_work p"
proof (cases "workers p ! i")
  case Checked
  then show ?thesis using assms work_set_worker [OF assms(1), of Blocked] by (auto simp: pool_work_def)
next
  case (Taken t)
  then show ?thesis using assms work_set_worker [OF assms(1), of "Running t"] by (auto simp: pool_work_def)
next
  case (Running t)
  then show ?thesis using assms work_set_worker [OF assms(1), of "Ran t"] by (auto simp: pool_work_def)
next
  case (Ran t)
  then show ?thesis using assms work_set_worker [OF assms(1), of Notifying] by (auto simp: pool_work_def)
next
  case Notifying
  then show ?thesis
    using assms work_set_worker [OF assms(1), of Idle]
    by (cases "waiter p") (auto simp: pool_work_def notify_waiters_def)
qed (use assms in simp_all)

lemma internal_decreases:
  assumes "pool_step p Internal p'"
  shows "pool_work p' < pool_work p"
proof (cases rule: internal_stepE [OF assms])
  case (1 i)
  then show ?thesis using work_set_worker [of i "workers p" Idle] by (simp add: pool_work_def)
next
  case (3 i)
  then show ?thesis
    using work_set_worker [of i "workers p" Checked] work_set_worker [of i "workers p" Exited]
      work_set_worker [of i "workers p" "Taken (hd (queued p))"]
    by (cases "queued p") (auto simp: pool_work_def worker_section_def)
next
  case (4 i)
  then show ?thesis by (simp add: continue_decreases)
next
  case 5
  then show ?thesis using work_wake [of "workers p"] by (simp add: pool_work_def wake_all_def)
qed (auto simp: pool_work_def wait_section_def)


inductive internal_run :: "'t pool \<Rightarrow> nat \<Rightarrow> 't pool \<Rightarrow> bool" where
  run_refl: "internal_run p 0 p"
| run_step: "internal_run p k q \<Longrightarrow> pool_step q Internal r \<Longrightarrow> internal_run p (Suc k) r"

lemma internal_run_bound: "internal_run p k q \<Longrightarrow> k + pool_work q \<le> pool_work p"
proof (induction rule: internal_run.induct)
  case (run_step p k q r)
  then show ?case using internal_decreases [of q r] by simp
qed simp

lemma internal_run_reachable: "internal_run p k q \<Longrightarrow> reachable n p \<Longrightarrow> reachable n q"
  by (induction rule: internal_run.induct) (auto intro: reachable.step)

definition at_rest :: "'t pool \<Rightarrow> bool" where
  "at_rest p \<longleftrightarrow> notify_pending p = 0 \<and> \<not> stop_notify p \<and> set (workers p) \<subseteq> {Blocked, Exited} \<and>
     waiter p \<notin> {W_Start, W_Checked}"

lemma stuck_worker:
  assumes "\<nexists>p'. pool_step p Internal p'" and "w \<in> set (workers p)"
  shows "w \<in> {Idle, Blocked, Exited}"
proof -
  obtain i where i: "i < length (workers p)" "workers p ! i = w" using assms(2) by (auto simp: in_set_conv_nth)
  have "worker_continue i w p = None"
    using assms(1) continue_step [OF i(1)] i(2) by (cases "worker_continue i w p") auto
  then show ?thesis by (cases w) auto
qed

lemma no_step_at_rest:
  assumes "\<nexists>p'. pool_step p Internal p'"
  shows "at_rest p"
proof -
  have no_pending: "notify_pending p = 0"
  proof (rule ccontr)
    assume "notify_pending p \<noteq> 0"
    then have pos: "0 < notify_pending p" by simp
    show False
    proof (cases "Blocked \<in> set (workers p)")
      case True
      then obtain i where "i < length (workers p)" "workers p ! i = Blocked" by (auto simp: in_set_conv_nth)
      then show False using assms notify_one [OF pos] by blast
    next
      case False
      then show False using assms notify_none [OF pos] by blast
    qed
  qed
  have no_stop: "\<not> stop_notify p" using assms wake_step by blast
  have not_checked: "waiter p \<noteq> W_Checked" using assms wait_block by blast
  then have free: "lock_free p" using stuck_worker [OF assms] by (auto simp: lock_free_def)
  have not_idle: "Idle \<notin> set (workers p)"
    using assms section_step [OF _ _ free] by (auto simp: in_set_conv_nth)
  have "waiter p \<noteq> W_Start" using assms wait_check [OF _ free] by blast
  then show ?thesis
    using no_pending no_stop not_checked not_idle stuck_worker [OF assms] by (auto simp: at_rest_def)
qed

lemma at_rest_no_step: "at_rest p \<Longrightarrow> \<not> pool_step p Internal p'"
proof
  assume rest: "at_rest p" and step: "pool_step p Internal p'"
  have member: "i < length (workers p) \<Longrightarrow> workers p ! i = Blocked \<or> workers p ! i = Exited" for i
    using rest nth_mem [of i "workers p"] unfolding at_rest_def by blast
  show False
    by (cases rule: internal_stepE [OF step]) (use rest member in \<open>force simp: at_rest_def\<close>)+
qed

lemma idle_workers_hold_nothing: "set ws \<subseteq> {Blocked, Exited} \<Longrightarrow> sum_list (map held ws) = {#}"
  by (induction ws) auto

lemma idle_workers_not_counted: "set ws \<subseteq> {Blocked, Exited} \<Longrightarrow> sum_list (map counted ws) = 0"
  by (induction ws) auto

lemma at_rest_queue_empty:
  assumes "sleep_ok p" and "at_rest p" and "workers p \<noteq> []"
  shows "queued p = []" and "stopping p \<longrightarrow> joined p"
proof -
  have ws: "set (workers p) \<subseteq> {Blocked, Exited}" using assms(2) by (simp add: at_rest_def)
  show "stopping p \<longrightarrow> joined p" using assms(1,2) ws by (auto simp: joined_def sleep_ok_def at_rest_def)
  show "queued p = []"
  proof (cases "Exited \<in> set (workers p)")
    case True
    then show ?thesis using assms(1) by (simp add: sleep_ok_def)
  next
    case False
    then have "set (workers p) \<subseteq> {Blocked}" using ws by blast
    then show ?thesis using assms by (auto simp: sleep_ok_def at_rest_def)
  qed
qed

lemma nothing_held_all_finished:
  assumes "tasks_ok p" and "queued p = []" and "set (workers p) \<subseteq> {Blocked, Exited}"
  shows "mset (finished p) = mset (submitted p)" and "active_tasks p = 0"
  using assms idle_workers_hold_nothing [OF assms(3)] idle_workers_not_counted [OF assms(3)]
  by (simp_all add: tasks_ok_def held_all_def)


subsection \<open>Properties\<close>

text \<open>C20: No task is lost and none is run twice: in every reachable state the tasks that \<open>enqueue\<close> has
  accepted are those in the queue, those a worker holds and those that have been run, and
  \<open>active_tasks_\<close> counts the workers between its increment and its decrement, so that it never wraps.
\<close>

theorem tasks_conserved:
  assumes "reachable n p"
  shows "mset (submitted p) = mset (queued p) + held_all p + mset (finished p) \<and>
    active_tasks p = sum_list (map counted (workers p)) \<and> active_tasks p \<le> n"
proof -
  have "sum_list (map counted ws) \<le> length ws" for ws :: "'a worker list"
  proof (induction ws)
    case (Cons w ws)
    then show ?case by (cases w) simp_all
  qed simp
  then show ?thesis using reachable_tasks_ok [OF assms] reachable_size [OF assms] by (auto simp: tasks_ok_def)
qed

text \<open>C11: A pool with a worker runs every task: from any reachable state the pool itself can make only a
  bounded number of steps, and where it can make none, the queue is empty, everything that was accepted has
  been run, and if the destructor has been called its joins return. So there is no deadlock, and no task
  waits for a notification that was lost.
\<close>

theorem every_task_is_run:
  assumes "0 < n" and "reachable n p" and "internal_run p k q"
  shows "k \<le> pool_work p \<and>
    ((\<nexists>r. pool_step q Internal r) \<longrightarrow>
      queued q = [] \<and> mset (finished q) = mset (submitted q) \<and> active_tasks q = 0 \<and> (stopping q \<longrightarrow> joined q))"
proof -
  have q: "reachable n q" by (rule internal_run_reachable [OF assms(3,2)])
  have "workers q \<noteq> []" using reachable_size [OF q] assms(1) by auto
  then show ?thesis
    using internal_run_bound [OF assms(3)] no_step_at_rest [of q]
      at_rest_queue_empty [OF reachable_sleep_ok [OF q]] nothing_held_all_finished [OF reachable_tasks_ok [OF q]]
    by (auto simp: at_rest_def)
qed

text \<open>C27: The destructor drains the queue: once every worker has exited, all the tasks ever accepted have been
  run, and \<open>enqueue\<close> accepts no further one.
\<close>

theorem destructor_drains_the_queue:
  assumes "0 < n" and "reachable n p" and "joined p"
  shows "queued p = [] \<and> mset (finished p) = mset (submitted p) \<and> enqueue t p = Inl Enqueue_On_Stopped"
proof -
  have "workers p \<noteq> []" using reachable_size [OF assms(2)] assms(1) by auto
  then have "Exited \<in> set (workers p)" using assms(3) by (cases "workers p") (auto simp: joined_def)
  then have "queued p = []" using reachable_sleep_ok [OF assms(2)] by (simp add: sleep_ok_def)
  then show ?thesis
    using nothing_held_all_finished [OF reachable_tasks_ok [OF assms(2)]] assms(3)
    by (auto simp: joined_def enqueue_def)
qed

lemma never_finished: "reachable 0 p \<Longrightarrow> finished p = []"
proof (induction rule: reachable.induct)
  case (step p a p')
  then have "workers p = []" using reachable_size [of 0 p] by simp
  with step.hyps(2) step.IH show ?case
    by (induction rule: pool_step.induct) (auto simp: enqueue_def wake_all_def begin_destroy_def wait_section_def split: if_splits)
qed (simp add: ThreadPool_def)


text \<open>
  A pool constructed with no thread, as the default argument allows where
  \<open>hardware_concurrency()\<close> is zero, accepts tasks and runs none of them, whatever happens.
\<close>

theorem no_threads_no_progress:
  assumes "reachable 0 p"
  shows "finished p = [] \<and> mset (queued p) = mset (submitted p)"
proof -
  have "held_all p = {#}" using reachable_size [OF assms] by (simp add: held_all_def)
  then show ?thesis using never_finished [OF assms] reachable_tasks_ok [OF assms] by (simp add: tasks_ok_def)
qed

text \<open>A pool with one worker, written by its parts.\<close>

definition solo :: "'t list \<Rightarrow> nat \<Rightarrow> 't worker \<Rightarrow> nat \<Rightarrow> waiter \<Rightarrow> 't list \<Rightarrow> 't list \<Rightarrow> 't pool" where
  "solo q a w k v s f = \<lparr>queued = q, stopping = False, active_tasks = a, workers = [w], notify_pending = k,
     stop_notify = False, waiter = v, submitted = s, finished = f\<rparr>"

lemma solo_start: "reachable 1 (solo [] 0 Idle 0 W_None [] [])"
  using reachable.start [of 1] by (simp add: solo_def ThreadPool_def)

lemma solo_enqueue: "w \<noteq> Checked \<Longrightarrow> v \<noteq> W_Checked \<Longrightarrow>
    pool_step (solo q a w k v s f) Client (solo (q @ [t]) a w (Suc k) v (s @ [t]) f)"
  by (rule enqueue_step [where t = t]) (simp_all add: solo_def lock_free_def enqueue_def)

lemma solo_notify_none: "w \<noteq> Blocked \<Longrightarrow> pool_step (solo q a w (Suc k) v s f) Internal (solo q a w k v s f)"
  using notify_none [of "solo q a w (Suc k) v s f"] by (simp add: solo_def)

lemma solo_section: "v \<noteq> W_Checked \<Longrightarrow> pool_step (solo q a Idle k v s f) Internal
    (solo (tl q) a (if q = [] then Checked else Taken (hd q)) k v s f)"
  using section_step [of 0 "solo q a Idle k v s f"]
  by (simp add: solo_def lock_free_def worker_section_def set_worker_def split: if_splits)

lemma solo_continue:
  "worker_continue 0 w (solo q a w k v s f) = Some p \<Longrightarrow> pool_step (solo q a w k v s f) Internal p"
  using continue_step [of 0 "solo q a w k v s f" p] by (simp add: solo_def)

lemma solo_wait_check: "w \<noteq> Checked \<Longrightarrow> pool_step (solo q a w k W_Start s f) Internal
    (solo q a w k (if q = [] \<and> a = 0 then W_Returned else W_Checked) s f)"
  using wait_check [of "solo q a w k W_Start s f"] by (simp add: solo_def lock_free_def wait_section_def)

lemma solo_wait_block: "pool_step (solo q a w k W_Checked s f) Internal (solo q a w k W_Blocked s f)"
  using wait_block [of "solo q a w k W_Checked s f"] by (simp add: solo_def)

lemma solo_call_wait: "pool_step (solo q a w k W_None s f) Client (solo q a w k W_Start s f)"
  using call_wait [of "solo q a w k W_None s f"] by (simp add: solo_def)

lemmas solo_continue_simps = solo_def set_worker_def notify_waiters_def

lemma solo_taken: "reachable 1 (solo [] 0 (Taken t) 0 W_None [t] [])"
proof -
  have "reachable 1 (solo [t] 0 Idle 1 W_None [t] [])"
    using reachable.step [OF solo_start solo_enqueue [of _ _ "[]" 0 0 "[]" "[]" t]] by simp
  then have "reachable 1 (solo [t] 0 Idle 0 W_None [t] [])"
    by (rule reachable.step [where a = Internal]) (simp add: solo_notify_none)
  then show ?thesis
    by (rule reachable.step [where a = Internal]) (use solo_section [of W_None "[t]" 0 0 "[t]" "[]"] in simp)
qed

text \<open>\<open>wait\<close> can return while an accepted task has not been run: a worker takes the task out of the queue
  under the lock and increments \<open>active_tasks_\<close> only after it has released it, and in between the predicate
  of \<open>wait\<close> is true. Here the task is enqueued first, then \<open>wait\<close> is called, and it returns.
\<close>

theorem wait_can_return_early:
  "\<exists>p q r. reachable 1 p \<and> submitted p = [t :: 't] \<and> waiter p = W_None \<and> pool_step p Client q \<and>
     waiter q = W_Start \<and> pool_step q Internal r \<and> waiter r = W_Returned \<and> finished r = []"
proof -
  have "pool_step (solo [] 0 (Taken t) 0 W_Start [t] []) Internal (solo [] 0 (Taken t) 0 W_Returned [t] [])"
    using solo_wait_check [of "Taken t" "[]" 0] by simp
  with solo_taken [of t] solo_call_wait [of "[]" 0 "Taken t" 0 "[t]" "[]"] show ?thesis
    by (intro exI [of _ "solo [] 0 (Taken t) 0 W_None [t] []"] exI [of _ "solo [] 0 (Taken t) 0 W_Start [t] []"]
        exI [of _ "solo [] 0 (Taken t) 0 W_Returned [t] []"]) (simp add: solo_def)
qed

lemma solo_waiting: "reachable 1 (solo [] 1 (Running t) 0 W_Checked [t] [])"
proof -
  have "reachable 1 (solo [] 1 (Running t) 0 W_None [t] [])"
    by (rule reachable.step [OF solo_taken [of t] solo_continue]) (simp add: solo_continue_simps)
  then have "reachable 1 (solo [] 1 (Running t) 0 W_Start [t] [])"
    by (rule reachable.step) (rule solo_call_wait)
  then show ?thesis
    by (rule reachable.step [where a = Internal]) (use solo_wait_check [of "Running t" "[]" 1 0 "[t]" "[]"] in simp)
qed

lemma solo_missed: "reachable 1 (solo [] 0 Idle 0 W_Checked [t] [t])"
proof -
  have "reachable 1 (solo [] 1 (Ran t) 0 W_Checked [t] [t])"
    by (rule reachable.step [OF solo_waiting [of t] solo_continue]) (simp add: solo_continue_simps)
  then have "reachable 1 (solo [] 0 Notifying 0 W_Checked [t] [t])"
    by (rule reachable.step [OF _ solo_continue]) (simp add: solo_continue_simps)
  then show ?thesis by (rule reachable.step [OF _ solo_continue]) (simp add: solo_continue_simps)
qed

text \<open>C38: \<open>wait\<close> can sleep for ever after everything has been run: a worker decrements \<open>active_tasks_\<close> and
  notifies without taking the lock, and when it does so after the predicate of \<open>wait\<close> was found false and
  before the thread was blocked, nothing will wake it: the pool can make no step of its own.
\<close>

theorem wait_can_miss_its_wakeup:
  "\<exists>p. reachable 1 p \<and> submitted p = [t :: 't] \<and> finished p = [t] \<and> queued p = [] \<and> active_tasks p = 0 \<and>
     waiter p = W_Blocked \<and> (\<nexists>q. pool_step p Internal q)"
proof -
  have "reachable 1 (solo [] 0 Idle 0 W_Blocked [t] [t])"
    by (rule reachable.step [OF solo_missed [of t] solo_wait_block])
  then have "reachable 1 (solo [] 0 Checked 0 W_Blocked [t] [t])"
    by (rule reachable.step [where a = Internal]) (use solo_section [of W_Blocked "[]" 0 0 "[t]" "[t]"] in simp)
  then have reach: "reachable 1 (solo [] 0 Blocked 0 W_Blocked [t] [t])"
    by (rule reachable.step [OF _ solo_continue]) (simp add: solo_continue_simps)
  have "at_rest (solo [] 0 Blocked 0 W_Blocked [t] [t])" by (simp add: at_rest_def solo_def)
  with reach at_rest_no_step show ?thesis
    by (intro exI [of _ "solo [] 0 Blocked 0 W_Blocked [t] [t]"]) (auto simp: solo_def)
qed


subsection \<open>Witnesses\<close>

definition one_taken :: "nat pool" where "one_taken = solo [] 0 (Taken 7) 0 W_None [7] []"

definition one_done :: "nat pool" where "one_done = solo [] 0 Blocked 0 W_None [7] [7]"

lemma one_taken_run: "internal_run one_taken 6 one_done"
proof -
  have "internal_run one_taken 0 (solo [] 0 (Taken 7) 0 W_None [7] [])"
    using run_refl [of one_taken] by (simp only: one_taken_def)
  then have "internal_run one_taken (Suc 0) (solo [] 1 (Running 7) 0 W_None [7] [])"
    by (rule run_step [OF _ solo_continue]) (simp add: solo_continue_simps)
  then have "internal_run one_taken (Suc (Suc 0)) (solo [] 1 (Ran 7) 0 W_None [7] [7])"
    by (rule run_step [OF _ solo_continue]) (simp add: solo_continue_simps)
  then have "internal_run one_taken (Suc (Suc (Suc 0))) (solo [] 0 Notifying 0 W_None [7] [7])"
    by (rule run_step [OF _ solo_continue]) (simp add: solo_continue_simps)
  then have "internal_run one_taken (Suc (Suc (Suc (Suc 0)))) (solo [] 0 Idle 0 W_None [7] [7])"
    by (rule run_step [OF _ solo_continue]) (simp add: solo_continue_simps)
  then have "internal_run one_taken (Suc (Suc (Suc (Suc (Suc 0))))) (solo [] 0 Checked 0 W_None [7] [7])"
    by (rule run_step) (use solo_section [of W_None "[]" 0 0 "[7]" "[7::nat]"] in simp)
  then have "internal_run one_taken (Suc (Suc (Suc (Suc (Suc (Suc 0)))))) (solo [] 0 Blocked 0 W_None [7] [7])"
    by (rule run_step [OF _ solo_continue]) (simp add: solo_continue_simps)
  then show ?thesis by (simp add: one_done_def eval_nat_numeral)
qed

lemma one_done_stuck: "\<not> pool_step one_done Internal r"
  by (rule at_rest_no_step) (simp add: at_rest_def one_done_def solo_def)

lemma one_taken_reachable: "reachable 1 one_taken"
  using solo_taken [of "7 :: nat"] by (simp only: one_taken_def)

theorem tasks_conserved_witness:
  "mset (submitted one_taken) = mset (queued one_taken) + held_all one_taken + mset (finished one_taken) \<and>
    active_tasks one_taken \<le> 1 \<and> held_all one_taken = {#7#}"
  using tasks_conserved [OF one_taken_reachable] by (simp add: held_all_def one_taken_def solo_def)

theorem every_task_is_run_witness:
  "6 \<le> pool_work one_taken \<and> queued one_done = [] \<and> mset (finished one_done) = mset (submitted one_done)"
  using every_task_is_run [OF _ one_taken_reachable one_taken_run] one_done_stuck by auto

definition one_joined :: "nat pool" where
  "one_joined = set_worker 0 Exited (wake_all (begin_destroy (ThreadPool 1)))"

lemma one_joined_reachable: "reachable 1 one_joined"
proof -
  have "reachable 1 (begin_destroy (ThreadPool 1 :: nat pool))"
    by (rule reachable.step [OF reachable.start destroy_step]) (simp_all add: ThreadPool_def lock_free_def)
  then have "reachable 1 (wake_all (begin_destroy (ThreadPool 1 :: nat pool)))"
    by (rule reachable.step [OF _ wake_step]) (simp add: begin_destroy_def)
  then have "reachable 1 (worker_section 0 (wake_all (begin_destroy (ThreadPool 1 :: nat pool))))"
    by (rule reachable.step [OF _ section_step])
      (simp_all add: begin_destroy_def wake_all_def ThreadPool_def lock_free_def)
  then show ?thesis
    by (simp add: one_joined_def worker_section_def begin_destroy_def wake_all_def ThreadPool_def)
qed

theorem destructor_drains_the_queue_witness:
  "joined one_joined \<and> mset (finished one_joined) = mset (submitted one_joined) \<and>
    enqueue 3 one_joined = Inl Enqueue_On_Stopped"
proof -
  have "joined one_joined"
    by (simp add: joined_def one_joined_def begin_destroy_def wake_all_def ThreadPool_def)
  then show ?thesis using destructor_drains_the_queue [OF _ one_joined_reachable] by simp
qed

definition none_queued :: "nat pool" where
  "none_queued = ThreadPool 0\<lparr>queued := [4], notify_pending := 1, submitted := [4]\<rparr>"

theorem no_threads_no_progress_witness: "finished none_queued = [] \<and> mset (queued none_queued) = {#4#}"
proof -
  have "reachable 0 none_queued"
    by (rule reachable.step [OF reachable.start enqueue_step [where t = 4]])
      (simp_all add: ThreadPool_def lock_free_def enqueue_def none_queued_def)
  from no_threads_no_progress [OF this] show ?thesis by (simp add: none_queued_def)
qed

end
