(* ===== verification/Pool_Futures.thy ===== *)
theory Pool_Futures
  imports Thread_Pool
begin

text \<open>
  What the template \<open>enqueue\<close> of \<open>include/common/thread_pool.h\<close> puts into the queue: a
  \<open>packaged_task\<close>, which runs the callable, keeps its value or its exception in the shared state of the future that
  was returned, and never throws itself. Here the pool of \<open>Thread_Pool\<close> runs over a memory the tasks share.
  A task is a function of that memory, a value of \<open>'e + 'v\<close> and the memory after it; its effect on the shared
  memory is one step, as that of a task that locks what it shares. Every call of \<open>enqueue\<close> makes a task of its own.
\<close>

subsection \<open>The pool with its futures\<close>

type_synonym ('t, 'm, 'e, 'v) body = "'t \<Rightarrow> 'm \<Rightarrow> ('e + 'v) \<times> 'm"

record ('t, 'm, 'e, 'v) future_pool =
  pool :: "'t pool"
  memory :: 'm
  futures :: "'t \<Rightarrow> ('e + 'v) option"

text \<open>The call of a packaged task.\<close>

definition run_packaged :: "('t, 'm, 'e, 'v) body \<Rightarrow> 't \<Rightarrow> 'm \<times> ('t \<Rightarrow> ('e + 'v) option) \<Rightarrow> 'm \<times> ('t \<Rightarrow> ('e + 'v) option)" where
  "run_packaged body task = (\<lambda>(m, shared_states).
     case body task m of (result, m') \<Rightarrow> (m', shared_states(task \<mapsto> result)))"

definition FuturePool :: "nat \<Rightarrow> 'm \<Rightarrow> ('t, 'm, 'e, 'v) future_pool" where
  "FuturePool num_threads m = \<lparr>pool = ThreadPool num_threads, memory = m, futures = Map.empty\<rparr>"

inductive future_step ::
  "('t, 'm, 'e, 'v) body \<Rightarrow> ('t, 'm, 'e, 'v) future_pool \<Rightarrow> actor \<Rightarrow> ('t, 'm, 'e, 'v) future_pool \<Rightarrow> bool" for body where
  submit: "lock_free (pool s) \<Longrightarrow> task \<notin> set (submitted (pool s)) \<Longrightarrow> enqueue task (pool s) = Inr p' \<Longrightarrow>
    future_step body s Client (s\<lparr>pool := p'\<rparr>)"
| run_task: "i < length (workers (pool s)) \<Longrightarrow> workers (pool s) ! i = Running task \<Longrightarrow>
    worker_continue i (Running task) (pool s) = Some p' \<Longrightarrow>
    run_packaged body task (memory s, futures s) = (m', fs') \<Longrightarrow>
    future_step body s Internal \<lparr>pool = p', memory = m', futures = fs'\<rparr>"
| other_step: "pool_step (pool s) a p' \<Longrightarrow> submitted p' = submitted (pool s) \<Longrightarrow> finished p' = finished (pool s) \<Longrightarrow>
    future_step body s a (s\<lparr>pool := p'\<rparr>)"

inductive future_reachable :: "('t, 'm, 'e, 'v) body \<Rightarrow> nat \<Rightarrow> 'm \<Rightarrow> ('t, 'm, 'e, 'v) future_pool \<Rightarrow> bool" for body n m where
  fr_start: "future_reachable body n m (FuturePool n m)"
| fr_step: "future_reachable body n m s \<Longrightarrow> future_step body s a s' \<Longrightarrow> future_reachable body n m s'"

inductive future_run :: "('t, 'm, 'e, 'v) body \<Rightarrow> ('t, 'm, 'e, 'v) future_pool \<Rightarrow> nat \<Rightarrow> ('t, 'm, 'e, 'v) future_pool \<Rightarrow> bool" for body where
  fr_refl: "future_run body s 0 s"
| fr_more: "future_run body s k s' \<Longrightarrow> future_step body s' Internal s'' \<Longrightarrow> future_run body s (Suc k) s''"

text \<open>The tasks called one after the other in one thread.\<close>

definition run_in_order :: "('t, 'm, 'e, 'v) body \<Rightarrow> 't list \<Rightarrow> 'm \<Rightarrow> 'm \<times> ('t \<Rightarrow> ('e + 'v) option)" where
  "run_in_order body tasks m = foldl (\<lambda>x task. run_packaged body task x) (m, Map.empty) tasks"

lemma run_in_order_snoc: "run_in_order body (ts @ [t]) m = run_packaged body t (run_in_order body ts m)"
  by (simp add: run_in_order_def)

lemma run_in_order_dom: "dom (snd (run_in_order body ts m)) = set ts"
proof (induction ts rule: rev_induct)
  case Nil
  then show ?case by (simp add: run_in_order_def)
next
  case (snoc t ts)
  then show ?case
    by (cases "run_in_order body ts m") (simp add: run_in_order_snoc run_packaged_def del: fun_upd_apply split: prod.split)
qed

subsection \<open>The steps are those of the pool\<close>

lemma future_step_pool: "future_step body s a s' \<Longrightarrow> pool_step (pool s) a (pool s')"
  by (induction rule: future_step.induct) (auto intro: enqueue_step continue_step)

lemma future_reachable_pool: "future_reachable body n m s \<Longrightarrow> reachable n (pool s)"
  by (induction rule: future_reachable.induct) (auto simp: FuturePool_def intro: reachable.intros future_step_pool)

lemma future_run_pool: "future_run body s k s' \<Longrightarrow> internal_run (pool s) k (pool s')"
  by (induction rule: future_run.induct) (auto intro: internal_run.intros future_step_pool)

lemma future_run_reachable: "future_run body s k s' \<Longrightarrow> future_reachable body n m s \<Longrightarrow> future_reachable body n m s'"
  by (induction rule: future_run.induct) (auto intro: fr_step)

lemma worker_continue_finishes:
  assumes "worker_continue i w p = Some p'"
  shows "submitted p' = submitted p" and "(\<forall>t. w \<noteq> Running t) \<Longrightarrow> finished p' = finished p"
  using assms by (cases w; auto)+

lemma internal_step_cases:
  assumes "pool_step p Internal p'"
  obtains (quiet) "submitted p' = submitted p" and "finished p' = finished p"
  | (running) i t where "i < length (workers p)" and "workers p ! i = Running t" and "worker_continue i (Running t) p = Some p'"
proof -
  have "(submitted p' = submitted p \<and> finished p' = finished p) \<or>
      (\<exists>i t. i < length (workers p) \<and> workers p ! i = Running t \<and> worker_continue i (Running t) p = Some p')"
    using assms
  proof (cases rule: pool_step.cases)
    case (continue_step i)
    then show ?thesis using worker_continue_finishes [OF continue_step(2)] by metis
  qed (simp_all add: worker_section_def wake_all_def wait_section_def)
  then show thesis using quiet running by blast
qed

text \<open>Nothing the pool does by itself is prevented: whatever step it can make, the pool with futures can make too.\<close>

lemma pool_step_future:
  assumes step: "pool_step (pool s) Internal p'"
  shows "\<exists>s'. future_step body s Internal s'"
  using step
proof (cases rule: internal_step_cases)
  case quiet
  then show ?thesis using other_step [OF step] by blast
next
  case (running i t)
  obtain m' fs' where "run_packaged body t (memory s, futures s) = (m', fs')" by fastforce
  then show ?thesis using run_task [OF running] by blast
qed

subsection \<open>What the futures hold\<close>

lemma future_step_cases_finished:
  assumes "future_step body s a s'"
  shows "(memory s', futures s') = (memory s, futures s) \<and> finished (pool s') = finished (pool s) \<or>
    (\<exists>t. finished (pool s') = finished (pool s) @ [t] \<and> (memory s', futures s') = run_packaged body t (memory s, futures s))"
  using assms by (induction rule: future_step.induct) (auto simp: enqueue_def split: if_splits)

lemma futures_replay:
  "future_reachable body n m s \<Longrightarrow> (memory s, futures s) = run_in_order body (finished (pool s)) m"
proof (induction rule: future_reachable.induct)
  case fr_start
  then show ?case by (simp add: FuturePool_def ThreadPool_def run_in_order_def)
next
  case (fr_step s a s')
  from future_step_cases_finished [OF fr_step.hyps(2)] fr_step.IH show ?case
    by (auto simp: run_in_order_snoc)
qed

lemma submitted_distinct: "future_reachable body n m s \<Longrightarrow> distinct (submitted (pool s))"
proof (induction rule: future_reachable.induct)
  case fr_start
  then show ?case by (simp add: FuturePool_def ThreadPool_def)
next
  case (fr_step s a s')
  from fr_step.hyps(2) fr_step.IH show ?case
    by (induction rule: future_step.induct)
      (auto simp: enqueue_def worker_continue_finishes split: if_splits)
qed

subsection \<open>One worker keeps the order\<close>

fun held_by :: "'t worker \<Rightarrow> 't list" where
  "held_by (Taken t) = [t]"
| "held_by (Running t) = [t]"
| "held_by w = []"

definition in_line :: "nat \<Rightarrow> 't pool \<Rightarrow> bool" where
  "in_line n p \<longleftrightarrow> (n = 1 \<longrightarrow> (\<exists>w. workers p = [w] \<and> submitted p = finished p @ held_by w @ queued p))"

lemma continue_in_line:
  assumes "worker_continue 0 w p = Some p'" and "workers p = [w]" and "submitted p = finished p @ held_by w @ queued p"
  shows "\<exists>w'. workers p' = [w'] \<and> submitted p' = finished p' @ held_by w' @ queued p'"
  using assms by (cases w) auto

lemma section_in_line:
  assumes "workers p = [Idle]" and "submitted p = finished p @ queued p"
  shows "\<exists>w'. workers (worker_section 0 p) = [w'] \<and>
    submitted (worker_section 0 p) = finished (worker_section 0 p) @ held_by w' @ queued (worker_section 0 p)"
  using assms by (simp add: worker_section_def)

lemma step_in_line: "pool_step p a p' \<Longrightarrow> in_line n p \<Longrightarrow> in_line n p'"
proof (induction rule: pool_step.induct)
  case (section_step i p)
  then show ?case using section_in_line [of p] by (auto simp: in_line_def)
next
  case (continue_step i p p')
  then show ?case using continue_in_line [of _ p p'] by (auto simp: in_line_def)
qed (auto simp: in_line_def enqueue_def begin_destroy_def wake_all_def wait_section_def split: if_splits)

interpretation line: pool_invariant in_line
  by unfold_locales (simp add: in_line_def ThreadPool_def, rule step_in_line)

subsection \<open>Tasks whose effects commute\<close>

text \<open>
  Where the effects of the tasks on the memory commute, the memory does not depend on the order.
\<close>

definition effects_commute :: "('t, 'm, 'e, 'v) body \<Rightarrow> 't set \<Rightarrow> bool" where
  "effects_commute body T \<longleftrightarrow> (\<forall>t \<in> T. \<forall>u \<in> T. \<forall>m. snd (body t (snd (body u m))) = snd (body u (snd (body t m))))"

lemma fst_run_in_order: "fst (run_in_order body ts m) = fold (\<lambda>t m. snd (body t m)) ts m"
proof (induction ts rule: rev_induct)
  case Nil
  then show ?case by (simp add: run_in_order_def)
next
  case (snoc t ts)
  then show ?case
    by (cases "run_in_order body ts m") (simp add: run_in_order_snoc run_packaged_def split: prod.split)
qed

lemma commuting_order:
  assumes "effects_commute body (set ts)" and "mset ts = mset us"
  shows "fst (run_in_order body ts m) = fst (run_in_order body us m)"
proof -
  have "fold (\<lambda>t m. snd (body t m)) ts = fold (\<lambda>t m. snd (body t m)) us"
    using assms by (intro fold_multiset_equiv) (auto simp: effects_commute_def fun_eq_iff)
  then show ?thesis by (simp add: fst_run_in_order)
qed

subsection \<open>Properties\<close>


subsection \<open>Witnesses\<close>

text \<open>One worker and two tasks that add to a number; the first throws after it has added.\<close>

definition add_task :: "(nat, nat, string, nat) body" where
  "add_task t m = (if t = 7 then Inl ''bad'' else Inr m, m + t)"

lemma quiet_reachable:
  "future_reachable body n m \<lparr>pool = p, memory = x, futures = fs\<rparr> \<Longrightarrow> pool_step p a p' \<Longrightarrow>
   submitted p' = submitted p \<Longrightarrow> finished p' = finished p \<Longrightarrow>
   future_reachable body n m \<lparr>pool = p', memory = x, futures = fs\<rparr>"
  by (erule fr_step) (use other_step [of "\<lparr>pool = p, memory = x, futures = fs\<rparr>"] in simp)

lemma solo_submit:
  assumes "future_reachable body n m \<lparr>pool = solo q 0 Idle k W_None s f, memory = x, futures = fs\<rparr>" and "t \<notin> set s"
  shows "future_reachable body n m \<lparr>pool = solo (q @ [t]) 0 Idle (Suc k) W_None (s @ [t]) f, memory = x, futures = fs\<rparr>"
proof (rule fr_step [OF assms(1)])
  show "future_step body \<lparr>pool = solo q 0 Idle k W_None s f, memory = x, futures = fs\<rparr> Client
      \<lparr>pool = solo (q @ [t]) 0 Idle (Suc k) W_None (s @ [t]) f, memory = x, futures = fs\<rparr>"
    using submit [of "\<lparr>pool = solo q 0 Idle k W_None s f, memory = x, futures = fs\<rparr>" t] assms(2)
    by (simp add: solo_def lock_free_def enqueue_def)
qed

lemma solo_round:
  assumes "future_reachable body n m \<lparr>pool = solo (t # q) 0 Idle k W_None s f, memory = x, futures = fs\<rparr>"
    and "run_packaged body t (x, fs) = (x', fs')"
  shows "future_reachable body n m \<lparr>pool = solo q 0 Idle k W_None s (f @ [t]), memory = x', futures = fs'\<rparr>"
proof -
  have "future_reachable body n m \<lparr>pool = solo q 0 (Taken t) k W_None s f, memory = x, futures = fs\<rparr>"
    by (rule quiet_reachable [OF assms(1), where a = Internal])
      (use solo_section [of W_None "t # q" 0 k s f] in \<open>simp_all add: solo_def\<close>)
  then have "future_reachable body n m \<lparr>pool = solo q 1 (Running t) k W_None s f, memory = x, futures = fs\<rparr>"
    by (rule quiet_reachable [OF _ solo_continue]) (simp_all add: solo_continue_simps)
  then have "future_reachable body n m \<lparr>pool = solo q 1 (Ran t) k W_None s (f @ [t]), memory = x', futures = fs'\<rparr>"
    by (rule fr_step)
      (rule run_task [where i = 0 and task = t], use assms(2) in \<open>simp_all add: solo_continue_simps\<close>)
  then have "future_reachable body n m \<lparr>pool = solo q 0 Notifying k W_None s (f @ [t]), memory = x', futures = fs'\<rparr>"
    by (rule quiet_reachable [OF _ solo_continue]) (simp_all add: solo_continue_simps)
  then show ?thesis
    by (rule quiet_reachable [OF _ solo_continue]) (simp_all add: solo_continue_simps)
qed

definition both_run :: "(nat, nat, string, nat) future_pool" where
  "both_run = \<lparr>pool = solo [] 0 Blocked 0 W_None [7, 8] [7, 8], memory = 15, futures = [7 \<mapsto> Inl ''bad'', 8 \<mapsto> Inr 7]\<rparr>"

lemma both_run_reachable: "future_reachable add_task 1 0 both_run"
proof -
  have "future_reachable add_task 1 0 \<lparr>pool = solo [] 0 Idle 0 W_None [] [], memory = 0, futures = Map.empty\<rparr>"
    using fr_start [of add_task 1 0] by (simp add: FuturePool_def ThreadPool_def solo_def)
  then have "future_reachable add_task 1 0 \<lparr>pool = solo [7] 0 Idle (Suc 0) W_None [7] [], memory = 0, futures = Map.empty\<rparr>"
    using solo_submit [where t = 7] by fastforce
  then have "future_reachable add_task 1 0 \<lparr>pool = solo [7, 8] 0 Idle (Suc (Suc 0)) W_None [7, 8] [], memory = 0, futures = Map.empty\<rparr>"
    using solo_submit [where t = 8] by fastforce
  then have "future_reachable add_task 1 0 \<lparr>pool = solo [7, 8] 0 Idle (Suc 0) W_None [7, 8] [], memory = 0, futures = Map.empty\<rparr>"
    by (rule quiet_reachable [OF _ solo_notify_none]) (simp_all add: solo_def)
  then have "future_reachable add_task 1 0 \<lparr>pool = solo [7, 8] 0 Idle 0 W_None [7, 8] [], memory = 0, futures = Map.empty\<rparr>"
    by (rule quiet_reachable [OF _ solo_notify_none]) (simp_all add: solo_def)
  then have "future_reachable add_task 1 0 \<lparr>pool = solo [8] 0 Idle 0 W_None [7, 8] ([] @ [7]), memory = 7, futures = [7 \<mapsto> Inl ''bad'']\<rparr>"
    by (rule solo_round) (simp add: run_packaged_def add_task_def)
  then have "future_reachable add_task 1 0 \<lparr>pool = solo [] 0 Idle 0 W_None [7, 8] (([] @ [7]) @ [8]), memory = 15,
      futures = [7 \<mapsto> Inl ''bad'', 8 \<mapsto> Inr 7]\<rparr>"
    by (rule solo_round) (simp add: run_packaged_def add_task_def)
  then have "future_reachable add_task 1 0 \<lparr>pool = solo [] 0 Checked 0 W_None [7, 8] [7, 8], memory = 15,
      futures = [7 \<mapsto> Inl ''bad'', 8 \<mapsto> Inr 7]\<rparr>"
    by (rule quiet_reachable [where a = Internal])
      (use solo_section [of W_None "[]" 0 0 "[7, 8]" "[7, 8]"] in \<open>simp_all add: solo_def\<close>)
  then show ?thesis
    unfolding both_run_def by (rule quiet_reachable [OF _ solo_continue]) (simp_all add: solo_continue_simps)
qed


end
