(* ===== verification/Compression.thy ===== *)
theory Compression
  imports Lite_Prelude
begin

text \<open>
  \<open>include/common/compression.h\<close> and \<open>src/common/compression.cpp\<close>: compression of byte
  buffers with zlib.

  zlib is the parameter \<open>zlib\<close>: \<open>compress_bound\<close>, and \<open>z_compress\<close> and
  \<open>z_uncompress\<close>, which get the capacity of the destination and its source and return the code, the value
  of \<open>*destLen\<close> on exit and the bytes written from the start of the buffer. What its documentation
  promises is \<open>zlib_documented\<close>. \<open>largest_vector\<close> is the greatest size at which a
  \<open>std::vector\<close> can be allocated; beyond it the constructor and \<open>resize\<close> throw. Sizes are
  64-bit words. The loop of \<open>decompress\<close> has no bound in the code, so it is a
  \<open>partial_function\<close> and \<open>None\<close> is a call that does not return.
\<close>

subsection \<open>The library\<close>

datatype z_code = Z_OK | Z_BUF_ERROR | Z_DATA_ERROR | Z_MEM_ERROR

record zlib =
  compress_bound :: "u64 \<Rightarrow> u64"
  z_compress :: "u64 \<Rightarrow> bytes \<Rightarrow> z_code \<times> u64 \<times> bytes"
  z_uncompress :: "u64 \<Rightarrow> bytes \<Rightarrow> z_code \<times> u64 \<times> bytes"
  largest_vector :: nat

datatype compression_error = Compression_Failed | Decompression_Failed | Cannot_Allocate

definition vec_size :: "bytes \<Rightarrow> u64" where
  "vec_size v = of_nat (length v)"

text \<open>\<open>resize\<close>, which the constructor of a vector of a given size is on an empty vector.\<close>

definition resize :: "zlib \<Rightarrow> u64 \<Rightarrow> bytes \<Rightarrow> compression_error + bytes" where
  "resize z n v =
     (if largest_vector z < unat n then Inl Cannot_Allocate
      else Inr (take (unat n) v @ replicate (unat n - length v) 0))"

text \<open>What a call leaves in its destination buffer.\<close>

definition overwrite :: "bytes \<Rightarrow> bytes \<Rightarrow> bytes" where
  "overwrite out v = out @ drop (length out) v"

subsection \<open>The code\<close>

definition compress :: "zlib \<Rightarrow> bytes \<Rightarrow> compression_error + bytes" where
  "compress z data =
     (if data = [] then Inr []
      else case resize z (compress_bound z (vec_size data)) [] of
        Inl e \<Rightarrow> Inl e
      | Inr compressed \<Rightarrow>
          (case z_compress z (compress_bound z (vec_size data)) data of
             (code, compressed_size, out) \<Rightarrow>
               if code \<noteq> Z_OK then Inl Compression_Failed
               else resize z compressed_size (overwrite out compressed)))"

partial_function (option) decompress_loop ::
  "zlib \<Rightarrow> bytes \<Rightarrow> u64 \<Rightarrow> bytes \<Rightarrow> (compression_error + z_code \<times> u64 \<times> bytes) option" where
  "decompress_loop z data decompressed_size decompressed =
     (case z_uncompress z decompressed_size data of
        (code, len, out) \<Rightarrow>
          if code = Z_BUF_ERROR
          then (case resize z (len * 2) (overwrite out decompressed) of
                  Inl e \<Rightarrow> Some (Inl e)
                | Inr v \<Rightarrow> decompress_loop z data (len * 2) v)
          else Some (Inr (code, len, overwrite out decompressed)))"

definition decompress :: "zlib \<Rightarrow> bytes \<Rightarrow> (compression_error + bytes) option" where
  "decompress z data =
     (if data = [] then Some (Inr [])
      else case resize z (vec_size data * 4) [] of
        Inl e \<Rightarrow> Some (Inl e)
      | Inr decompressed \<Rightarrow>
          (case decompress_loop z data (vec_size data * 4) decompressed of
             None \<Rightarrow> None
           | Some (Inl e) \<Rightarrow> Some (Inl e)
           | Some (Inr (code, decompressed_size, v)) \<Rightarrow>
               if code \<noteq> Z_OK then Some (Inl Decompression_Failed)
               else Some (resize z decompressed_size v)))"

definition kMinCompressionSize :: nat where
  "kMinCompressionSize = 1024"

definition shouldCompress :: "nat \<Rightarrow> bool" where
  "shouldCompress data_size \<longleftrightarrow> kMinCompressionSize \<le> data_size"

subsection \<open>What the documentation of zlib promises\<close>

text \<open>A full destination buffer is \<open>Z_BUF_ERROR\<close>, with the buffer filled.\<close>

definition fills_buffer :: "zlib \<Rightarrow> bool" where
  "fills_buffer z \<longleftrightarrow> (\<forall>n data len out. z_uncompress z n data = (Z_BUF_ERROR, len, out) \<longrightarrow> len = n \<and> length out = unat n)"

text \<open>
  A destination of \<open>compressBound\<close> bytes is enough, and the result, which is not empty, is uncompressed to the
  source by every destination that is large enough; a smaller one is filled.
\<close>

definition zlib_documented :: "zlib \<Rightarrow> bool" where
  "zlib_documented z \<longleftrightarrow> fills_buffer z \<and>
     (\<forall>data. data \<noteq> [] \<and> length data < 2 ^ 62 \<longrightarrow>
       (\<exists>c. c \<noteq> [] \<and> length c \<le> unat (compress_bound z (vec_size data)) \<and>
          z_compress z (compress_bound z (vec_size data)) data = (Z_OK, vec_size c, c) \<and>
          (\<forall>n. z_uncompress z n c =
             (if length data \<le> unat n then (Z_OK, vec_size data, data) else (Z_BUF_ERROR, n, take (unat n) data)))))"

subsection \<open>The loop returns\<close>

lemma resize_fits: "unat n \<le> largest_vector z \<Longrightarrow>
    resize z n v = Inr (take (unat n) v @ replicate (unat n - length v) 0)"
  by (simp add: resize_def)

lemma double_size: "unat (n :: u64) < 2 ^ 63 \<Longrightarrow> unat (n * 2) = 2 * unat n"
  by (simp add: unat_word_ariths)

lemma quad_size: "length data < 2 ^ 62 \<Longrightarrow> unat (vec_size data * 4) = 4 * length data"
  by (simp add: vec_size_def unat_word_ariths unat_of_nat)

lemma vec_size_nat: "length data < 2 ^ 62 \<Longrightarrow> unat (vec_size data) = length data"
  by (simp add: vec_size_def unat_of_nat)

text \<open>Each round doubles a size that is not zero, until the allocation fails.\<close>

lemma decompress_loop_returns:
  assumes "fills_buffer z" and "largest_vector z < 2 ^ 63"
  shows "0 < unat n \<Longrightarrow> unat n \<le> largest_vector z \<Longrightarrow> decompress_loop z data n v \<noteq> None"
proof (induction "largest_vector z - unat n" arbitrary: n v rule: less_induct)
  case less
  obtain code len out where call: "z_uncompress z n data = (code, len, out)" by (cases "z_uncompress z n data")
  show ?case
  proof (cases "code = Z_BUF_ERROR")
    case False
    then show ?thesis using call by (simp add: decompress_loop.simps [of z data n])
  next
    case True
    then have len: "len = n" using assms(1) call by (auto simp: fills_buffer_def)
    have twice: "unat (n * 2) = 2 * unat n" by (rule double_size) (use less.prems assms(2) in simp)
    show ?thesis
    proof (cases "resize z (n * 2) (overwrite out v)")
      case (Inl e)
      then show ?thesis using call True len by (simp add: decompress_loop.simps [of z data n])
    next
      case (Inr w)
      then have le: "unat (n * 2) \<le> largest_vector z" by (auto simp: resize_def split: if_splits)
      have "decompress_loop z data (n * 2) w \<noteq> None"
        by (rule less.hyps) (use le twice less.prems in simp_all)
      then show ?thesis using call True len Inr by (simp add: decompress_loop.simps [of z data n])
    qed
  qed
qed

text \<open>On a stream of the library the loop ends with the source at the start of the buffer.\<close>

lemma decompress_loop_restores:
  assumes "\<And>n. z_uncompress z n c =
      (if length data \<le> unat n then (Z_OK, vec_size data, data) else (Z_BUF_ERROR, n, take (unat n) data))"
    and "2 * length data \<le> largest_vector z" and "length data < 2 ^ 62"
  shows "0 < unat n \<Longrightarrow> \<exists>v'. decompress_loop z c n v = Some (Inr (Z_OK, vec_size data, overwrite data v'))"
proof (induction "length data - unat n" arbitrary: n v rule: less_induct)
  case less
  show ?case
  proof (cases "length data \<le> unat n")
    case True
    then show ?thesis using assms(1) [of n] by (auto simp: decompress_loop.simps [of z c n])
  next
    case False
    then have twice: "unat (n * 2) = 2 * unat n" by (intro double_size) (use assms(3) in simp)
    then have fits: "unat (n * 2) \<le> largest_vector z" using False assms(2) by simp
    obtain w where w: "resize z (n * 2) (overwrite (take (unat n) data) v) = Inr w"
      using resize_fits [OF fits] by simp
    have "\<exists>v'. decompress_loop z c (n * 2) w = Some (Inr (Z_OK, vec_size data, overwrite data v'))"
      by (rule less.hyps) (use False twice less.prems in simp_all)
    then show ?thesis using False w assms(1) [of n] by (simp add: decompress_loop.simps [of z c n])
  qed
qed

lemma resize_overwrite:
  assumes "length data < 2 ^ 62" and "length data \<le> largest_vector z"
  shows "resize z (vec_size data) (overwrite data v) = Inr data"
  using assms by (simp add: resize_def overwrite_def vec_size_nat)


subsection \<open>Properties\<close>

text \<open>C21: What \<open>compress\<close> returns, \<open>decompress\<close> restores, and it does return: with the documented
  behaviour of zlib and room for the buffers, compression succeeds and the doubling loop ends with exactly
  the original bytes, the empty buffer included.
\<close>

theorem compress_then_decompress:
  assumes "zlib_documented z" and "largest_vector z < 2 ^ 63" and "2 * length data \<le> largest_vector z"
    and "4 * unat (compress_bound z (vec_size data)) \<le> largest_vector z"
  shows "\<exists>c. compress z data = Inr c \<and> decompress z c = Some (Inr data)"
proof (cases "data = []")
  case True
  then show ?thesis by (simp add: compress_def decompress_def)
next
  case False
  have small: "length data < 2 ^ 62" using assms(2,3) by simp
  from assms(1) False small obtain c where c: "c \<noteq> []" "length c \<le> unat (compress_bound z (vec_size data))"
    "z_compress z (compress_bound z (vec_size data)) data = (Z_OK, vec_size c, c)"
    and un: "\<And>n. z_uncompress z n c =
        (if length data \<le> unat n then (Z_OK, vec_size data, data) else (Z_BUF_ERROR, n, take (unat n) data))"
    unfolding zlib_documented_def by blast
  have c_small: "length c < 2 ^ 62" using c(2) assms(2,4) by simp
  have "compress z data = Inr c"
    using False c(3) assms(4) c(2) resize_overwrite [OF c_small, of z]
    by (simp add: compress_def resize_fits)
  moreover have quad: "unat (vec_size c * 4) = 4 * length c" by (rule quad_size [OF c_small])
  obtain w where w: "resize z (vec_size c * 4) [] = Inr w"
    using resize_fits [of "vec_size c * 4" z "[]"] quad c(2) assms(4) by simp
  obtain v where v: "decompress_loop z c (vec_size c * 4) w = Some (Inr (Z_OK, vec_size data, overwrite data v))"
    using decompress_loop_restores [OF un assms(3) small, of "vec_size c * 4" w] quad c(1) by auto
  have "decompress z c = Some (Inr data)"
    using c(1) w v resize_overwrite [OF small, of z v] assms(3) by (simp add: decompress_def)
  ultimately show ?thesis by blast
qed

text \<open>C28: \<open>decompress\<close> returns on every input, damaged ones included, with bytes or an exception: its loop
  has no bound, but as long as a full buffer is all that \<open>Z_BUF_ERROR\<close> means, the size doubles until the
  allocation fails.
\<close>

theorem decompress_returns:
  assumes "fills_buffer z" and "largest_vector z < 2 ^ 63" and "length data < 2 ^ 62"
  shows "\<exists>r. decompress z data = Some r"
proof (cases "data = [] \<or> largest_vector z < unat (vec_size data * 4)")
  case True
  then show ?thesis by (auto simp: decompress_def resize_def)
next
  case False
  obtain w where w: "resize z (vec_size data * 4) [] = Inr w"
    using resize_fits [of "vec_size data * 4" z "[]"] False by simp
  have "decompress_loop z data (vec_size data * 4) w \<noteq> None"
    by (rule decompress_loop_returns [OF assms(1,2)]) (use False quad_size [OF assms(3)] in auto)
  then show ?thesis using False w by (auto simp: decompress_def split: sum.splits prod.splits)
qed

subsection \<open>Witnesses\<close>

text \<open>A small codec: a run of at most 255 zeros is two bytes, everything else is stored.\<close>

definition run_code :: "bytes \<Rightarrow> bytes" where
  "run_code d = (if length d < 256 \<and> (\<forall>b \<in> set d. b = 0) then [1, of_nat (length d)] else 2 # d)"

definition run_decode :: "bytes \<Rightarrow> bytes option" where
  "run_decode c = (if c = [] then None else if hd c = 2 then Some (tl c)
     else if hd c = 1 \<and> length c = 2 then Some (replicate (unat (c ! 1)) 0) else None)"

definition run_zlib :: zlib where
  "run_zlib = \<lparr>compress_bound = (\<lambda>n. n + 2),
     z_compress = (\<lambda>n d. if length (run_code d) \<le> unat n then (Z_OK, vec_size (run_code d), run_code d)
        else (Z_BUF_ERROR, n, take (unat n) (run_code d))),
     z_uncompress = (\<lambda>n c. case run_decode c of None \<Rightarrow> (Z_DATA_ERROR, 0, [])
        | Some d \<Rightarrow> if length d \<le> unat n then (Z_OK, vec_size d, d) else (Z_BUF_ERROR, n, take (unat n) d)),
     largest_vector = 2 ^ 20\<rparr>"

lemma run_round_trip: "run_decode (run_code d) = Some d"
proof (cases "length d < 256 \<and> (\<forall>b \<in> set d. b = 0)")
  case True
  then have "replicate (length d) 0 = d" by (simp add: replicate_length_same)
  then show ?thesis using True by (simp add: run_code_def run_decode_def unat_of_nat)
next
  case False
  then have "run_code d = 2 # d" unfolding run_code_def by (rule if_not_P)
  then show ?thesis by (simp add: run_decode_def)
qed

lemma run_zlib_documented: "zlib_documented run_zlib"
proof -
  have "fills_buffer run_zlib" by (auto simp: fills_buffer_def run_zlib_def split: option.splits if_splits)
  moreover have "\<exists>c. c \<noteq> [] \<and> length c \<le> unat (compress_bound run_zlib (vec_size data)) \<and>
          z_compress run_zlib (compress_bound run_zlib (vec_size data)) data = (Z_OK, vec_size c, c) \<and>
          (\<forall>n. z_uncompress run_zlib n c =
             (if length data \<le> unat n then (Z_OK, vec_size data, data) else (Z_BUF_ERROR, n, take (unat n) data)))"
    if "data \<noteq> []" "length data < 2 ^ 62" for data
  proof -
    have "unat (vec_size data + 2) = length data + 2"
      using vec_size_nat [OF that(2)] that(2) by (simp add: unat_word_ariths)
    moreover have "run_code data \<noteq> [] \<and> length (run_code data) \<le> length data + 2" by (simp add: run_code_def)
    ultimately show ?thesis
      by (intro exI [of _ "run_code data"]) (simp add: run_zlib_def run_round_trip)
  qed
  ultimately show ?thesis unfolding zlib_documented_def by blast
qed

theorem compress_then_decompress_witness:
  "\<exists>c. compress run_zlib (replicate 200 0) = Inr c \<and> decompress run_zlib c = Some (Inr (replicate 200 0))"
  by (rule compress_then_decompress [OF run_zlib_documented]) (simp_all add: run_zlib_def vec_size_def)

theorem decompress_returns_witness:
  "(\<exists>r. decompress run_zlib [1, 200] = Some r) \<and> decompress run_zlib [9] = Some (Inl Decompression_Failed)"
proof
  have fills: "fills_buffer run_zlib" using run_zlib_documented by (simp add: zlib_documented_def)
  show "\<exists>r. decompress run_zlib [1, 200] = Some r"
    by (rule decompress_returns [OF fills]) (simp_all add: run_zlib_def)
  show "decompress run_zlib [9] = Some (Inl Decompression_Failed)"
    by (simp add: decompress_def resize_def run_zlib_def vec_size_def decompress_loop.simps run_decode_def)
qed

end
