(* ===== verification/Metrics.thy ===== *)
theory Metrics
  imports Lite_Prelude "HOL-Library.Signed_Division"
begin

text \<open>
  \<open>include/common/metrics.h\<close> and \<open>src/common/metrics.cpp\<close>: counters, gauges, latency
  statistics and throughput, by name, behind one mutex, and the timer that records a latency when it
  is destroyed.

  The mutex is the field \<open>locked\<close>: it is not recursive, and \<open>None\<close> is a call that waits for it
  for ever because the calling thread holds it. As every method takes it for its whole body, the methods are
  the steps. An \<open>int64_t\<close> wraps in two's complement, as an atomic does; a clock reading is in
  nanoseconds; a double goes through a rounding function. The order in which an \<open>unordered_map\<close> is
  iterated is a parameter. The loops of compare-and-exchange run under the mutex and end with the minimum and the
  maximum.
\<close>

subsection \<open>State\<close>

record latency_stats =
  lat_count :: int
  sum_us :: int
  min_us :: int
  max_us :: int

record throughput_stats =
  total_bytes :: nat
  start_time :: nat

record metrics =
  locked :: bool
  counters :: "string \<Rightarrow> int option"
  gauges :: "string \<Rightarrow> int option"
  latencies :: "string \<Rightarrow> latency_stats option"
  throughput :: "string \<Rightarrow> throughput_stats option"

definition new_latency :: latency_stats where
  "new_latency = \<lparr>lat_count = 0, sum_us = 0, min_us = 2 ^ 63 - 1, max_us = 0\<rparr>"

definition new_throughput :: throughput_stats where
  "new_throughput = \<lparr>total_bytes = 0, start_time = 0\<rparr>"

definition Metrics :: metrics where
  "Metrics = \<lparr>locked = False, counters = Map.empty, gauges = Map.empty, latencies = Map.empty,
     throughput = Map.empty\<rparr>"

text \<open>\<open>operator[]\<close> of a map: the entry, created if there is none.\<close>

definition entry :: "'a \<Rightarrow> (string \<Rightarrow> 'a option) \<Rightarrow> string \<Rightarrow> 'a" where
  "entry dflt m name = (case m name of None \<Rightarrow> dflt | Some x \<Rightarrow> x)"

text \<open>\<open>lock_guard\<close> around a body.\<close>

definition with_lock :: "(metrics \<Rightarrow> ('a \<times> metrics) option) \<Rightarrow> metrics \<Rightarrow> ('a \<times> metrics) option" where
  "with_lock body m =
     (if locked m then None
      else map_option (apsnd (locked_update (\<lambda>_. False))) (body (m\<lparr>locked := True\<rparr>)))"

subsection \<open>Methods\<close>

definition incrementCounter :: "string \<Rightarrow> int \<Rightarrow> metrics \<Rightarrow> (unit \<times> metrics) option" where
  "incrementCounter name value =
     with_lock (\<lambda>m. Some ((), m\<lparr>counters := (counters m)(name \<mapsto> to_int64 (entry 0 (counters m) name + value))\<rparr>))"

definition getCounter :: "string \<Rightarrow> metrics \<Rightarrow> (int \<times> metrics) option" where
  "getCounter name = with_lock (\<lambda>m. Some (case counters m name of None \<Rightarrow> 0 | Some v \<Rightarrow> v, m))"

definition setGauge :: "string \<Rightarrow> int \<Rightarrow> metrics \<Rightarrow> (unit \<times> metrics) option" where
  "setGauge name value = with_lock (\<lambda>m. Some ((), m\<lparr>gauges := (gauges m)(name \<mapsto> value)\<rparr>))"

definition getGauge :: "string \<Rightarrow> metrics \<Rightarrow> (int \<times> metrics) option" where
  "getGauge name = with_lock (\<lambda>m. Some (case gauges m name of None \<Rightarrow> 0 | Some v \<Rightarrow> v, m))"

definition add_latency :: "int \<Rightarrow> latency_stats \<Rightarrow> latency_stats" where
  "add_latency us stats =
     \<lparr>lat_count = to_int64 (lat_count stats + 1), sum_us = to_int64 (sum_us stats + us),
      min_us = (if us < min_us stats then us else min_us stats),
      max_us = (if max_us stats < us then us else max_us stats)\<rparr>"

definition recordLatency :: "string \<Rightarrow> int \<Rightarrow> metrics \<Rightarrow> (unit \<times> metrics) option" where
  "recordLatency name us =
     with_lock (\<lambda>m. Some ((), m\<lparr>latencies := (latencies m)(name \<mapsto> add_latency us (entry new_latency (latencies m) name))\<rparr>))"

definition add_bytes :: "nat \<Rightarrow> nat \<Rightarrow> throughput_stats \<Rightarrow> throughput_stats" where
  "add_bytes now b stats =
     (let stats = (if total_bytes stats = 0 then stats\<lparr>start_time := now\<rparr> else stats)
      in stats\<lparr>total_bytes := (total_bytes stats + b) mod 2 ^ 64\<rparr>)"

definition recordBytes :: "nat \<Rightarrow> string \<Rightarrow> nat \<Rightarrow> metrics \<Rightarrow> (unit \<times> metrics) option" where
  "recordBytes now name b =
     with_lock (\<lambda>m. Some ((), m\<lparr>throughput := (throughput m)(name \<mapsto> add_bytes now b (entry new_throughput (throughput m) name))\<rparr>))"

definition getBytesPerSecond :: "(real \<Rightarrow> real) \<Rightarrow> nat \<Rightarrow> string \<Rightarrow> metrics \<Rightarrow> (real \<times> metrics) option" where
  "getBytesPerSecond fl now name =
     with_lock (\<lambda>m. Some
       (case throughput m name of
          None \<Rightarrow> 0
        | Some stats \<Rightarrow>
            if total_bytes stats = 0 then 0
            else let elapsed = (int now - int (start_time stats)) sdiv 1000000000
                 in if elapsed = 0 then 0 else fl (fl (real (total_bytes stats)) / fl (real_of_int elapsed)), m))"

definition reset_metrics :: "metrics \<Rightarrow> (unit \<times> metrics) option" where
  "reset_metrics = with_lock (\<lambda>m. Some ((), m\<lparr>counters := Map.empty, gauges := Map.empty,
     latencies := Map.empty, throughput := Map.empty\<rparr>))"

subsection \<open>The report\<close>

text \<open>The names in the order in which the four maps are iterated.\<close>

record iteration =
  counter_names :: "string list"
  gauge_names :: "string list"
  latency_names :: "string list"
  throughput_names :: "string list"

definition iterates :: "iteration \<Rightarrow> metrics \<Rightarrow> bool" where
  "iterates it m \<longleftrightarrow> distinct (counter_names it) \<and> set (counter_names it) = dom (counters m) \<and>
     distinct (gauge_names it) \<and> set (gauge_names it) = dom (gauges m) \<and>
     distinct (latency_names it) \<and> set (latency_names it) = dom (latencies m) \<and>
     distinct (throughput_names it) \<and> set (throughput_names it) = dom (throughput m)"

definition newline :: string where
  "newline = [CHR 0x0A]"

definition value_lines :: "(string \<Rightarrow> int option) \<Rightarrow> string list \<Rightarrow> string" where
  "value_lines m names = concat (map (\<lambda>name. ''  '' @ name @ '': '' @ decimal_int (entry 0 m name) @ newline) names)"

text \<open>The unit is the Greek letter in UTF-8 and an \<open>s\<close>.\<close>

definition latency_lines :: "(real \<Rightarrow> real) \<Rightarrow> metrics \<Rightarrow> string \<Rightarrow> string" where
  "latency_lines fl m name =
     (let stats = entry new_latency (latencies m) name; us = [CHR '' '', CHR 0xCE, CHR 0xBC, CHR ''s''] @ newline
      in if 0 < lat_count stats
         then ''  '' @ name @ '':'' @ newline @
              ''    count: '' @ decimal_int (lat_count stats) @ newline @
              ''    avg: '' @ fixed2 (fl (fl (real_of_int (sum_us stats)) / fl (real_of_int (lat_count stats)))) @ us @
              ''    min: '' @ decimal_int (min_us stats) @ us @
              ''    max: '' @ decimal_int (max_us stats) @ us
         else [])"

fun throughput_lines :: "(real \<Rightarrow> real) \<Rightarrow> nat \<Rightarrow> string list \<Rightarrow> metrics \<Rightarrow> (string \<times> metrics) option" where
  "throughput_lines fl now [] m = Some ([], m)"
| "throughput_lines fl now (name # names) m =
     (case getBytesPerSecond fl now name m of
        None \<Rightarrow> None
      | Some (bps, m) \<Rightarrow>
          map_option (apfst (\<lambda>s. ''  '' @ name @ '': '' @ fixed2 (fl (fl (bps / 1024) / 1024)) @ '' MB/s'' @ newline @ s))
            (throughput_lines fl now names m))"

definition toString :: "(real \<Rightarrow> real) \<Rightarrow> nat \<Rightarrow> iteration \<Rightarrow> metrics \<Rightarrow> (string \<times> metrics) option" where
  "toString fl now it =
     with_lock (\<lambda>m.
       let ss = ''=== Metrics ==='' @ newline;
           ss = ss @ (if counter_names it \<noteq> [] then newline @ ''Counters:'' @ newline @ value_lines (counters m) (counter_names it) else []);
           ss = ss @ (if gauge_names it \<noteq> [] then newline @ ''Gauges:'' @ newline @ value_lines (gauges m) (gauge_names it) else []);
           ss = ss @ (if latency_names it \<noteq> [] then newline @ ''Latencies:'' @ newline @ concat (map (latency_lines fl m) (latency_names it)) else [])
       in if throughput_names it \<noteq> []
          then map_option (apfst (\<lambda>s. ss @ newline @ ''Throughput:'' @ newline @ s)) (throughput_lines fl now (throughput_names it) m)
          else Some (ss, m))"

subsection \<open>The timer\<close>

record scoped_timer =
  metric_name :: string
  timer_start :: nat

definition ScopedTimer :: "nat \<Rightarrow> string \<Rightarrow> scoped_timer" where
  "ScopedTimer now name = \<lparr>metric_name = name, timer_start = now\<rparr>"

definition destroy_timer :: "nat \<Rightarrow> scoped_timer \<Rightarrow> metrics \<Rightarrow> (unit \<times> metrics) option" where
  "destroy_timer now timer = recordLatency (metric_name timer) ((int now - int (timer_start timer)) sdiv 1000)"


subsection \<open>Sequences of calls\<close>

datatype metric_call =
    Increment string int
  | Set_Gauge string int
  | Latency string int
  | Bytes nat string nat
  | Reset_All

fun run_call :: "metric_call \<Rightarrow> metrics \<Rightarrow> (unit \<times> metrics) option" where
  "run_call (Increment name v) m = incrementCounter name v m"
| "run_call (Set_Gauge name v) m = setGauge name v m"
| "run_call (Latency name us) m = recordLatency name us m"
| "run_call (Bytes now name b) m = recordBytes now name b m"
| "run_call Reset_All m = reset_metrics m"

fun run_calls :: "metric_call list \<Rightarrow> metrics \<Rightarrow> metrics option" where
  "run_calls [] m = Some m"
| "run_calls (c # cs) m = (case run_call c m of None \<Rightarrow> None | Some (_, m) \<Rightarrow> run_calls cs m)"

lemmas method_defs = incrementCounter_def setGauge_def recordLatency_def recordBytes_def reset_metrics_def with_lock_def

lemma run_call_returns:
  assumes "\<not> locked m"
  shows "\<exists>m'. run_call c m = Some ((), m') \<and> \<not> locked m'"
  using assms by (cases c) (simp_all add: method_defs)

text \<open>
  A view of the metrics that each call changes in a way that depends on the view alone.
\<close>

locale metric_view =
  fixes view :: "metrics \<Rightarrow> 'v"
    and step :: "metric_call \<Rightarrow> 'v \<Rightarrow> 'v"
  assumes view_call: "\<not> locked m \<Longrightarrow> run_call c m = Some (u, m') \<Longrightarrow> view m' = step c (view m)"
begin

lemma view_calls: "\<not> locked m \<Longrightarrow> \<exists>m'. run_calls cs m = Some m' \<and> \<not> locked m' \<and> view m' = fold step cs (view m)"
proof (induction cs arbitrary: m)
  case (Cons c cs)
  obtain m' where m': "run_call c m = Some ((), m')" "\<not> locked m'" using run_call_returns [OF Cons.prems] by blast
  have "view m' = step c (view m)" by (rule view_call [OF Cons.prems m'(1)])
  then show ?case using Cons.IH [OF m'(2)] m'(1) by auto
qed simp

end

fun counter_step :: "string \<Rightarrow> metric_call \<Rightarrow> int \<Rightarrow> int" where
  "counter_step name (Increment n v) x = (if n = name then to_int64 (x + v) else x)"
| "counter_step name Reset_All x = 0"
| "counter_step name _ x = x"

fun gauge_step :: "string \<Rightarrow> metric_call \<Rightarrow> int \<Rightarrow> int" where
  "gauge_step name (Set_Gauge n v) x = (if n = name then v else x)"
| "gauge_step name Reset_All x = 0"
| "gauge_step name _ x = x"

fun latency_step :: "string \<Rightarrow> metric_call \<Rightarrow> latency_stats option \<Rightarrow> latency_stats option" where
  "latency_step name (Latency n us) x = (if n = name then Some (add_latency us (case x of None \<Rightarrow> new_latency | Some s \<Rightarrow> s)) else x)"
| "latency_step name Reset_All x = None"
| "latency_step name _ x = x"

interpretation counter: metric_view "\<lambda>m. entry 0 (counters m) name" "counter_step name" for name
proof (unfold_locales, goal_cases)
  case (1 m c u m')
  then show ?case by (cases c) (auto simp: method_defs entry_def)
qed

interpretation gauge: metric_view "\<lambda>m. entry 0 (gauges m) name" "gauge_step name" for name
proof (unfold_locales, goal_cases)
  case (1 m c u m')
  then show ?case by (cases c) (auto simp: method_defs entry_def)
qed

interpretation latency: metric_view "\<lambda>m. latencies m name" "latency_step name" for name
proof (unfold_locales, goal_cases)
  case (1 m c u m')
  then show ?case by (cases c) (auto simp: method_defs entry_def)
qed

text \<open>The calls since the last reset, and the values they pass for a name.\<close>

definition since_reset :: "metric_call list \<Rightarrow> metric_call list" where
  "since_reset cs = rev (takeWhile (\<lambda>c. c \<noteq> Reset_All) (rev cs))"

definition increments :: "string \<Rightarrow> metric_call list \<Rightarrow> int list" where
  "increments name cs = concat (map (\<lambda>c. case c of Increment n v \<Rightarrow> if n = name then [v] else [] | _ \<Rightarrow> []) cs)"

definition settings :: "string \<Rightarrow> metric_call list \<Rightarrow> int list" where
  "settings name cs = concat (map (\<lambda>c. case c of Set_Gauge n v \<Rightarrow> if n = name then [v] else [] | _ \<Rightarrow> []) cs)"

definition durations :: "string \<Rightarrow> metric_call list \<Rightarrow> int list" where
  "durations name cs = concat (map (\<lambda>c. case c of Latency n us \<Rightarrow> if n = name then [us] else [] | _ \<Rightarrow> []) cs)"

lemma since_reset_snoc: "since_reset (cs @ [c]) = (if c = Reset_All then [] else since_reset cs @ [c])"
  by (simp add: since_reset_def)

lemma since_reset_Nil: "since_reset [] = []"
  by (simp add: since_reset_def)

lemmas view_simps = since_reset_snoc since_reset_Nil increments_def settings_def durations_def

lemma counter_total: "fold (counter_step name) cs 0 = to_int64 (sum_list (increments name (since_reset cs)))"
proof (induction cs rule: rev_induct)
  case (snoc c cs)
  then show ?case by (cases c) (simp_all add: view_simps to_int64_add, simp_all add: to_int64_def)
qed (simp add: view_simps to_int64_def)

lemma gauge_last: "fold (gauge_step name) cs 0 = last (0 # settings name (since_reset cs))"
proof (induction cs rule: rev_induct)
  case (snoc c cs)
  then show ?case by (cases c) (simp_all add: view_simps)
qed (simp add: view_simps)

definition stats_of :: "int list \<Rightarrow> latency_stats" where
  "stats_of us = \<lparr>lat_count = to_int64 (int (length us)), sum_us = to_int64 (sum_list us),
     min_us = fold min us (2 ^ 63 - 1), max_us = fold max us 0\<rparr>"

lemma stats_of_snoc: "add_latency u (stats_of us) = stats_of (us @ [u])"
  using to_int64_add [of "int (length us)" 1]
  by (simp add: add_latency_def stats_of_def to_int64_add min_def max_def add.commute [of 1])

lemma durations_snoc: "durations name (cs @ [Latency n us]) = durations name cs @ (if n = name then [us] else [])"
  by (simp add: durations_def)

lemma latency_stats_of:
  "fold (latency_step name) cs None =
     (let us = durations name (since_reset cs) in if us = [] then None else Some (stats_of us))"
proof (induction cs rule: rev_induct)
  case (snoc c cs)
  have new: "new_latency = stats_of []" by (simp add: new_latency_def stats_of_def to_int64_def)
  show ?case
  proof (cases c)
    case (Latency n us)
    then show ?thesis
      using snoc stats_of_snoc [of us "[]"]
      by (simp add: since_reset_snoc durations_snoc stats_of_snoc new Let_def split: if_splits)
  qed (use snoc in \<open>simp_all add: view_simps Let_def\<close>)
qed (simp add: view_simps)

lemma fold_min_le: "fold min us (b :: int) = Min (insert b (set us))"
  by (metis Min.set_eq_fold list.simps(15))

lemma fold_max_ge: "fold max us (b :: int) = Max (insert b (set us))"
  by (metis Max.set_eq_fold list.simps(15))


subsection \<open>Properties\<close>

text \<open>After any sequence of calls, none of which waits for ever, a counter is the sum of the increments under its
  name since the last reset, modulo \<open>2 ^ 64\<close> in two's complement, and a gauge is the last value it was set to,
  or zero.
\<close>

theorem counters_add_up:
  "\<exists>m. run_calls cs Metrics = Some m \<and>
     getCounter name m = Some (to_int64 (sum_list (increments name (since_reset cs))), m) \<and>
     getGauge name m = Some (last (0 # settings name (since_reset cs)), m)"
proof -
  have start: "\<not> locked Metrics" "entry 0 (counters Metrics) name = 0" "entry 0 (gauges Metrics) name = 0"
    by (simp_all add: Metrics_def entry_def)
  obtain m where m: "run_calls cs Metrics = Some m" "\<not> locked m"
    "entry 0 (counters m) name = to_int64 (sum_list (increments name (since_reset cs)))"
    using counter.view_calls [OF start(1), of cs name] unfolding start(2) counter_total by blast
  have "entry 0 (gauges m) name = last (0 # settings name (since_reset cs))"
    using gauge.view_calls [OF start(1), of cs name] m(1) unfolding start(3) gauge_last by auto
  then show ?thesis
    using m by (auto simp: getCounter_def getGauge_def with_lock_def entry_def)
qed

text \<open>C29: The latency statistics of a name are those of the durations recorded since the last reset: their number,
  their sum modulo \<open>2 ^ 64\<close>, the shortest and the longest. The durations are those of a steady clock, which
  are not negative, and fewer than \<open>2 ^ 63\<close>.
\<close>

theorem latencies_summarised:
  assumes "durations name (since_reset cs) = us" and "us \<noteq> []" and "set us \<subseteq> {0 ..< 2 ^ 63}" and "length us < 2 ^ 63"
  shows "\<exists>m. run_calls cs Metrics = Some m \<and> latencies m name =
    Some \<lparr>lat_count = int (length us), sum_us = to_int64 (sum_list us), min_us = Min (set us), max_us = Max (set us)\<rparr>"
proof -
  have start: "\<not> locked Metrics" "latencies Metrics name = None" by (simp_all add: Metrics_def)
  obtain m where m: "run_calls cs Metrics = Some m" "latencies m name = Some (stats_of us)"
    using latency.view_calls [OF start(1), of cs name] assms(1,2) unfolding start(2) latency_stats_of by auto
  have "to_int64 (int (length us)) = int (length us)" using assms(4) by (intro to_int64_id) simp_all
  moreover have "Min (set us) \<in> set us" "Max (set us) \<in> set us" using assms(2) by simp_all
  then have "Min (set us) \<le> 2 ^ 63 - 1" "0 \<le> Max (set us)" using assms(3) by auto
  then have "Min (insert (2 ^ 63 - 1) (set us)) = Min (set us)" "Max (insert 0 (set us)) = Max (set us)"
    using assms(2) by (simp_all only: Min_insert Max_insert List.finite_set set_empty simp_thms min.absorb2 max.absorb2)
  ultimately have "stats_of us = \<lparr>lat_count = int (length us), sum_us = to_int64 (sum_list us),
      min_us = Min (set us), max_us = Max (set us)\<rparr>"
    unfolding stats_of_def fold_min_le fold_max_ge by simp
  then show ?thesis using m by simp
qed

text \<open>C39: \<open>toString\<close> returns exactly when no throughput was recorded: with an entry there, it calls
  \<open>getBytesPerSecond\<close> while it holds the mutex, and that call waits for the same mutex.
\<close>

theorem toString_deadlocks:
  assumes "iterates it m" and "\<not> locked m"
  shows "if throughput m = Map.empty then \<exists>s. toString fl now it m = Some (s, m) else toString fl now it m = None"
proof -
  have names: "throughput_names it = [] \<longleftrightarrow> throughput m = Map.empty"
    using assms(1) by (metis iterates_def dom_eq_empty_conv set_empty)
  have stuck: "ns \<noteq> [] \<Longrightarrow> throughput_lines fl now ns (m\<lparr>locked := True\<rparr>) = None" for ns
    by (cases ns) (simp_all add: getBytesPerSecond_def with_lock_def)
  then show ?thesis using assms(2) names by (auto simp: toString_def with_lock_def Let_def)
qed

text \<open>After the first second, \<open>getBytesPerSecond\<close> is at least the true rate and less than twice
  it: the elapsed time is cut to whole seconds (here without rounding of the doubles).
\<close>

theorem throughput_overestimates:
  assumes "\<not> locked m" and "throughput m name = Some stats" and "0 < total_bytes stats"
    and "start_time stats + 1000000000 \<le> now"
    and "true_rate = real (total_bytes stats) / ((real now - real (start_time stats)) / 1000000000)"
  shows "\<exists>v. getBytesPerSecond exact now name m = Some (v, m) \<and> true_rate \<le> v \<and> v < 2 * true_rate"
proof -
  define d where "d = now - start_time stats"
  define k where "k = d div 1000000000"
  have d: "real now - real (start_time stats) = real d" "int now - int (start_time stats) = int d"
    using assms(4) by (simp_all add: d_def of_nat_diff)
  have k: "0 < k" "k * 1000000000 \<le> d" "d < (k + 1) * 1000000000"
    using assms(4) by (simp_all add: k_def d_def div_greater_zero_iff dividend_less_div_times div_times_less_eq_dividend)
  have elapsed: "int d sdiv 1000000000 = int k" by (simp add: k_def signed_divide_int_def sgn_if zdiv_int)
  define t where "t = real d / 1000000000"
  have t: "real k \<le> t" "t < 2 * real k" "0 < t"
    using k by (simp_all add: t_def field_simps flip: of_nat_mult of_nat_add)
  have "getBytesPerSecond exact now name m = Some (real (total_bytes stats) / real k, m)"
    using assms(1-3) elapsed k(1) by (simp add: getBytesPerSecond_def with_lock_def d(2) exact_def)
  moreover have "true_rate = real (total_bytes stats) / t" using assms(5) d(1) by (simp add: t_def)
  moreover have "real (total_bytes stats) / t \<le> real (total_bytes stats) / real k"
    using t k(1) by (simp add: divide_left_mono)
  moreover have "real (total_bytes stats) / real k < 2 * (real (total_bytes stats) / t)"
    using t k(1) assms(3) by (simp add: field_simps)
  ultimately show ?thesis by auto
qed


subsection \<open>Witnesses\<close>

definition sample_calls :: "metric_call list" where
  "sample_calls = [Latency ''op'' 99, Reset_All, Latency ''op'' 30, Increment ''n'' 2, Latency ''op'' 10, Latency ''x'' 7]"

theorem latencies_summarised_witness:
  "\<exists>m. run_calls sample_calls Metrics = Some m \<and>
    latencies m ''op'' = Some \<lparr>lat_count = 2, sum_us = 40, min_us = 10, max_us = 30\<rparr>"
proof -
  have us: "durations ''op'' (since_reset sample_calls) = [30, 10]"
    by (simp add: durations_def since_reset_def sample_calls_def)
  have "to_int64 40 = 40" by (simp add: to_int64_def signed_take_bit_int_eq_self)
  then show ?thesis using latencies_summarised [OF us] by simp
qed

definition busy :: metrics where
  "busy = Metrics\<lparr>throughput := [''up'' \<mapsto> \<lparr>total_bytes = 3000, start_time = 1000000000\<rparr>]\<rparr>"

theorem toString_deadlocks_witness: "toString exact 0 \<lparr>counter_names = [], gauge_names = [], latency_names = [],
    throughput_names = [''up'']\<rparr> busy = None"
proof -
  have "iterates \<lparr>counter_names = [], gauge_names = [], latency_names = [], throughput_names = [''up'']\<rparr> busy"
    and "\<not> locked busy" and "throughput busy \<noteq> Map.empty"
    by (simp_all add: iterates_def busy_def Metrics_def)
  then show ?thesis using toString_deadlocks [of _ busy exact 0] by (metis (full_types))
qed

theorem throughput_overestimates_witness:
  "\<exists>v. getBytesPerSecond exact 2500000000 ''up'' busy = Some (v, busy) \<and> 2000 \<le> v \<and> v < 4000"
proof -
  have "\<exists>v. getBytesPerSecond exact 2500000000 ''up'' busy = Some (v, busy) \<and> 2000 \<le> v \<and> v < 2 * 2000"
    by (rule throughput_overestimates [of busy "''up''" "\<lparr>total_bytes = 3000, start_time = 1000000000\<rparr>"])
      (simp_all add: busy_def Metrics_def)
  then show ?thesis by simp
qed

end
