(* ===== verification/Lite_Errors.thy ===== *)
theory Lite_Errors
  imports Lite_Prelude
begin

text \<open>
  \<open>include/common/error.h\<close>: the error codes, their category, and the result type. A result that
  was made from an error code holds a value that the default constructor made; that value is a
  parameter. An exception is the left case of a sum, with its text.
\<close>

datatype ErrorCode =
    Success | FileNotFound | PermissionDenied | NetworkError | DatabaseError | HashMismatch | ChunkingFailed
  | CompressionFailed | ConflictDetected | InvalidArgument | OutOfSpace | Timeout | Unknown

definition all_codes :: "ErrorCode list" where
  "all_codes = [Success, FileNotFound, PermissionDenied, NetworkError, DatabaseError, HashMismatch,
     ChunkingFailed, CompressionFailed, ConflictDetected, InvalidArgument, OutOfSpace, Timeout, Unknown]"

text \<open>The value of an enumerator is its position.\<close>

fun code_value :: "ErrorCode \<Rightarrow> int" where
  "code_value Success = 0" | "code_value FileNotFound = 1" | "code_value PermissionDenied = 2"
| "code_value NetworkError = 3" | "code_value DatabaseError = 4" | "code_value HashMismatch = 5"
| "code_value ChunkingFailed = 6" | "code_value CompressionFailed = 7" | "code_value ConflictDetected = 8"
| "code_value InvalidArgument = 9" | "code_value OutOfSpace = 10" | "code_value Timeout = 11"
| "code_value Unknown = 12"

definition category_name :: string where
  "category_name = ''dropbox-lite''"

definition category_message :: "int \<Rightarrow> string" where
  "category_message ev =
     (if ev = code_value Success then ''Success''
      else if ev = code_value FileNotFound then ''File not found''
      else if ev = code_value PermissionDenied then ''Permission denied''
      else if ev = code_value NetworkError then ''Network error''
      else if ev = code_value DatabaseError then ''Database error''
      else if ev = code_value HashMismatch then ''Hash mismatch - data corruption detected''
      else if ev = code_value ChunkingFailed then ''Chunking operation failed''
      else if ev = code_value CompressionFailed then ''Compression/decompression failed''
      else if ev = code_value ConflictDetected then ''File conflict detected''
      else if ev = code_value InvalidArgument then ''Invalid argument''
      else if ev = code_value OutOfSpace then ''Out of disk space''
      else if ev = code_value Timeout then ''Operation timed out''
      else ''Unknown error'')"

record error_code =
  ec_value :: int
  ec_category :: string

definition make_error_code :: "ErrorCode \<Rightarrow> error_code" where
  "make_error_code e = \<lparr>ec_value = code_value e, ec_category = category_name\<rparr>"

subsection \<open>Results\<close>

record 'a result =
  res_value :: 'a
  res_error :: ErrorCode
  error_message :: string

text \<open>The three constructors; \<open>dflt\<close> is the default-constructed value.\<close>

definition Result_of_value :: "'a \<Rightarrow> 'a result" where
  "Result_of_value v = \<lparr>res_value = v, res_error = Success, error_message = []\<rparr>"

definition Result_of_code :: "'a \<Rightarrow> ErrorCode \<Rightarrow> 'a result" where
  "Result_of_code dflt e = \<lparr>res_value = dflt, res_error = e, error_message = []\<rparr>"

definition Result_of_message :: "'a \<Rightarrow> ErrorCode \<Rightarrow> string \<Rightarrow> 'a result" where
  "Result_of_message dflt e msg = \<lparr>res_value = dflt, res_error = e, error_message = msg\<rparr>"

definition result_ok :: "'a result \<Rightarrow> bool" where
  "result_ok r \<longleftrightarrow> res_error r = Success"

definition valueOrThrow :: "'a result \<Rightarrow> string + 'a" where
  "valueOrThrow r =
     (if \<not> result_ok r
      then Inl (if error_message r = [] then category_message (code_value (res_error r)) else error_message r)
      else Inr (res_value r))"

text \<open>The specialisation for \<open>void\<close> has no value.\<close>

definition Result_void :: "unit result" where
  "Result_void = Result_of_value ()"

definition Result_void_of_code :: "ErrorCode \<Rightarrow> unit result" where
  "Result_void_of_code = Result_of_code ()"

definition Result_void_of_message :: "ErrorCode \<Rightarrow> string \<Rightarrow> unit result" where
  "Result_void_of_message = Result_of_message ()"

subsection \<open>Properties\<close>

lemma all_codes_complete: "e \<in> set all_codes"
  by (cases e) (simp_all add: all_codes_def)

lemma distinct_messages: "distinct (map (category_message \<circ> code_value) all_codes)"
  by (simp add: all_codes_def category_message_def)

lemma message_inj:
  assumes "category_message (code_value e) = category_message (code_value e')"
  shows "e = e'"
proof -
  have "inj_on (category_message \<circ> code_value) (set all_codes)" using distinct_messages by (simp add: distinct_map)
  from inj_onD [OF this _ all_codes_complete all_codes_complete, of e e'] show ?thesis using assms by simp
qed

text \<open>
  The text of a thrown error code tells which code it was: for every code but \<open>Success\<close> the exception of
  \<open>valueOrThrow\<close> carries a text that no other code has, and a result made from the code \<open>Success\<close> does
  not throw but returns a value that nobody gave it.
\<close>

theorem thrown_text_identifies_the_code:
  "valueOrThrow (Result_of_code dflt e) =
     (if e = Success then Inr dflt else Inl (category_message (ec_value (make_error_code e)))) \<and>
   {e'. category_message (ec_value (make_error_code e')) = category_message (ec_value (make_error_code e))} = {e}"
  using message_inj by (auto simp: valueOrThrow_def Result_of_code_def result_ok_def make_error_code_def)

end
