(* ===== verification/Spec2Isabelle.thy ===== *)
theory Spec2Isabelle
  imports Server_Main Service_Runs Deduplication Concurrent_Chunks Concurrent_Finalize Database_Maps Rate_Limiter Delta_Engine Conflict_Resolver Pool_Futures Compression Metrics Logger Lite_Errors
begin

text \<open>
  A verification development for dropbox-lite, a file synchronisation server in C++20: content-defined chunking,
  a content-addressed chunk store with an SQLite database per client, a gRPC service, and the
  supporting classes. Paths below are relative to the repository.

  \<^bold>\<open>The program.\<close> \<open>src/server/main.cpp\<close> creates one \<open>SyncServiceImpl\<close> and waits for a signal. The
  service keeps a \<open>StorageManager\<close>; an upload hands each chunk to \<open>storeChunk\<close> and ends with \<open>finalizeFile\<close>,
  which reads the chunks back in the order of the database, writes the file, hashes it and stores its record; a
  synchronisation compares the records with the list the client sends. Clients cut files with \<open>Chunker\<close>, which uses
  \<open>Hash::RollingHash\<close> to find the cuts and \<open>Hash::sha256\<close> to name the chunks. \<open>DeltaEngine\<close>,
  \<open>ConflictResolver\<close>, \<open>RateLimiter\<close>, \<open>ThreadPool\<close>, \<open>Compression\<close>, \<open>Metrics\<close>, \<open>Logger\<close> and the error
  types are classes of the library.

  \<^bold>\<open>Theories and code.\<close>

  \<^item> \<open>Lite_Prelude\<close>: machine integers and the conversions between them, slices and blocks of a buffer, doubles as
    reals with a rounding function, decimal output.
  \<^item> \<open>Host_Files\<close>: the file operations the code uses (paths, \<open>create_directories\<close>, streams) on an explicit store
    of files; what the operating system decides is the record \<open>host\<close>.
  \<^item> \<open>Hashing\<close> (\<open>common/hash\<close>): \<open>sha256\<close>, \<open>sha256File\<close>, and the rolling hash on 64-bit words. OpenSSL is the
    parameter \<open>sha_api\<close>. The locale \<open>sliding_hash\<close> is interpreted on the class's own operations.
  \<^item> \<open>Chunker\<close> (\<open>common/chunker\<close>): the byte-by-byte loop \<open>chunk_loop\<close>, refined to \<open>cut_up\<close>, which
    cuts chunk by chunk; the locale \<open>chunking_rule\<close> holds what follows from any such rule.
  \<^item> \<open>Metadata_DB\<close> (\<open>core/metadata_db\<close>): the three tables as lists of rows, the SQL statements as functions on
    them, the connection with its transactions. The SQLite engine, which may fail at any call, is the parameter
    \<open>sqlite\<close>. The locale \<open>primary_key\<close> is interpreted for each table.
  \<^item> \<open>Storage_Manager\<close>, \<open>Storage_Properties\<close> (\<open>server/storage_manager\<close>): every method on the state
    \<open>storage\<close> (root, client databases, disk), as an action that may end in an exception; the locale
    \<open>content_store\<close> is the contract of the chunk store. \<open>server_ok\<close> is the invariant.
  \<^item> \<open>Sync_Service\<close> (\<open>server/sync_service\<close>, \<open>proto/sync.proto\<close>): the handlers, with the messages as records.
  \<^item> \<open>Database_Types\<close>: the C++ types of the columns, which SQLite does not enforce.
  \<^item> \<open>Database_Maps\<close>: the abstract specification of \<open>MetadataDB\<close>, two maps, a number and an undo copy (\<open>db_view\<close>);
    \<open>view_of\<close> reads it off the connection, \<open>db_good\<close> is the invariant, every public method is one step \<open>view_next\<close>.
  \<^item> \<open>File_Catalogue\<close>: the abstract specification of the storage manager, a \<open>catalogue\<close> of blobs, chunk lists,
    records and contents; \<open>catalogue_of\<close> reads it off the state, \<open>serving\<close> is the invariant, and every method is
    simulated by one step \<open>cat_next\<close>.
  \<^item> \<open>Concurrent_Uploads\<close>: handlers as sequences of calls, and what any interleaving of them does.
  \<^item> \<open>Deduplication\<close>: what an upload adds to the chunk store.
  \<^item> \<open>Concurrent_Chunks\<close>: several threads inside \<open>storeChunk\<close> for the same chunk, step by step.
  \<^item> \<open>Concurrent_Finalize\<close>: several threads inside the assembly of \<open>finalizeFile\<close> for the same file, each with its own
    stream (\<open>finalizer\<close>, \<open>finalize_step\<close>); the race starts in the state in which \<open>finalizeFile\<close> starts assembling.
  \<^item> \<open>Service_Runs\<close> (\<open>server/sync_service.h\<close>): any sequence of remote procedure calls.
  \<^item> \<open>Server_Main\<close> (\<open>server/main.cpp\<close>): from the arguments to the exit code.
  \<^item> \<open>Rate_Limiter\<close> (\<open>common/rate_limiter\<close>): the token bucket over a rounding function; the locale
    \<open>token_bucket\<close> bounds what any bucket grants.
  \<^item> \<open>Delta_Engine\<close> (\<open>core/delta_engine\<close>), \<open>Conflict_Resolver\<close> (\<open>core/conflict_resolver\<close>).
  \<^item> \<open>Thread_Pool\<close> (\<open>common/thread_pool\<close>): a transition system whose steps are the critical sections and the
    atomic operations of the workers, of one waiting thread, of the callers and of the destructor; the locale
    \<open>pool_invariant\<close> carries an invariant to the reachable states.
  \<^item> \<open>Pool_Futures\<close>: the pool over a memory that the tasks share, with the futures and exceptions of its packaged tasks.
  \<^item> \<open>Compression\<close> (\<open>common/compression\<close>): zlib is a parameter, the doubling loop a partial function.
  \<^item> \<open>Metrics\<close> (\<open>common/metrics\<close>): the mutex is part of the state; the locale \<open>metric_view\<close> carries a view
    over a sequence of calls and is interpreted for counters, gauges and latencies.
  \<^item> \<open>Logger\<close> (\<open>common/logger\<close>), \<open>Lite_Errors\<close> (\<open>common/error.h\<close>).

  \<^bold>\<open>What the theorems show.\<close> The chunker partitions its input, bounds the chunks, and is local: appending does not change the
  earlier chunks. The database keeps its keys, and a transaction happens entirely or not at all. Every stored chunk comes
  back. An upload in any order stores exactly the file that was cut, touches no other client, and the next
  synchronisation says about it what the client needs to know. The storage manager refines the catalogue: from this, stored
  bytes never change, an upload stores exactly the chunks that were unknown (so a file that grew costs what was
  added), an upload succeeds among any other calls that do not write its file, and no sequence of
  remote procedure calls brings the service down. Columns hold values of their types. The rate limiter respects its
  rate and \<open>acquire\<close> returns. The pool loses no task and never deadlocks on its own, and what it leaves behind, futures included,
  is what one thread would leave that runs the tasks in some order. The database answers as two maps would. Threads that store one
  chunk or assemble one file at the same time end with the right bytes. Compression restores what it was given and its loop ends. Metrics
  and log lines are exactly those of the calls. Other theorems state where the code does something it does not
  want: an upload that announces fewer chunks is refused, a failed assembly destroys the file, a
  hash or a name from the client leaves its directory, \<open>wait\<close> of the pool returns early or sleeps for ever,
  the report of the metrics deadlocks, two uploads of one file mix, a chunk can be
  emptied by a second writer while it is being stored again, a file assembled by two threads can get the record of an empty one, nested transactions and sizes that wrap around.

  \<^bold>\<open>Hypotheses.\<close> \<open>sha_documented\<close>, \<open>scan_documented\<close>, \<open>zlib_documented\<close>, \<open>rounding\<close> and \<open>iterates\<close> state what the documentation of a
  library promises; \<open>healthy\<close> and \<open>engine_healthy\<close> that no call of the host or of the engine fails; \<open>no_collision\<close> that two
  different chunks do not have the same digest; \<open>honest\<close> that nobody sends other bytes under the digest of a chunk; \<open>good_call\<close> and
  \<open>good_paths\<close> that names from requests stay in their directories. Each theorem with a hypothesis has a theorem that applies it to
  concrete data.

  \<^bold>\<open>Bounds.\<close> Nothing is bounded by fuel. The loops of the pool and of \<open>decompress\<close> have measures: \<open>pool_work\<close> bounds the
  steps the pool can make on its own, and the size of the buffer doubles below \<open>largest_vector\<close>, which is
  below \<open>2 ^ 63\<close> as vectors are. \<open>acquire\<close> runs over a list of clock readings: three are enough for a
  request within the burst, and no list is enough for a larger one.

  \<^bold>\<open>Not modelled.\<close> The gRPC library (a stream is a list of messages), SQL syntax, symbolic links, the console output
  of the usage text. The effect of a pooled task on the shared memory is one step. Handlers that run at the same
  time are interleaved at the calls of the storage manager, and \<open>storeChunk\<close> and the assembly of \<open>finalizeFile\<close> also at their file operations,
  for threads that work on the same file; a stream there has no buffer, and a file is hashed in one step. The steps of the pool
  are interleaved, and for the rate limiter those of the calls that hold its mutex. The database file is not read back from the disk: what
  an upload named \<open>metadata.db\<close> does to an open connection is left out, and \<open>good_paths\<close> excludes such names. \<open>benchmarks\<close>, \<open>tests\<close> and
  \<open>scripts\<close> contain no logic of the program, and the client sources that \<open>CMakeLists.txt\<close> names are not in the
  repository.
\<close>

subsection \<open>Properties that span components\<close>


definition late_request :: sync_request where
  "late_request = \<lparr>sr_client_id = ''al'', sr_local_files = [], sr_last_sync_time = 3\<rparr>"


text \<open>
  The test for a conflict that the server has and the one of the client's resolver agree: on the same
  pair of versions one finds a conflict exactly if the other does, and neither depends on the times.
\<close>

theorem conflict_tests_agree:
  "detectConflict l s \<longleftrightarrow>
    hasConflict \<lparr>ci_path = p, local_hash = md_hash l, remote_hash = fr_hash s, local_modified_time = t,
      remote_modified_time = u, local_version = md_version l, remote_version = fr_version s\<rparr>"
  by (simp add: detectConflict_def hasConflict_def)

end
